(* ===== verification/Go_Prelude.thy ===== *)
theory Go_Prelude
  imports Main "HOL-Library.Word"
begin

text \<open>
  Generic vocabulary of the development: machine integers and bytes, run-time
  panics as values, 64-bit signed arithmetic with its wrap-around, byte slices
  (a backing array together with a length) and \<open>copy\<close>.  Nothing here models a
  particular file of the program; these are the parts of Go the components use.
\<close>

unbundle bit_operations_syntax

named_theorems slice_simps "length and content of slices after the primitive operations"
named_theorems wrap_simps "64-bit signed arithmetic that stays in range"

type_synonym byte = "8 word"
type_synonym u32 = "32 word"
type_synonym u64 = "64 word"

subsection \<open>Panics\<close>

text \<open>
  A Go function that can panic returns a value of \<open>go_panic + 'a\<close>, with \<open>Inl\<close> for the
  panic.  \<open>Panic_msg\<close> is an explicit call of \<open>panic\<close>, the rest are raised by the
  run-time system.
\<close>

datatype go_panic =
    Index_out_of_range
  | Slice_bounds
  | Make_slice_len
  | Nil_dereference
  | Too_large
  | Send_on_closed
  | Panic_msg string

fun bind_go :: "go_panic + 'a \<Rightarrow> ('a \<Rightarrow> go_panic + 'b) \<Rightarrow> go_panic + 'b" where
  "bind_go (Inl p) f = Inl p"
| "bind_go (Inr x) f = f x"

lemma bind_go_Inr_iff:
  "bind_go m f = Inr y \<longleftrightarrow> (\<exists>x. m = Inr x \<and> f x = Inr y)"
  by (cases m) auto

subsection \<open>Signed 64-bit integers\<close>

text \<open>
  A Go \<open>int\<close> is a HOL \<open>int\<close> in the range of 64-bit two's complement; \<open>wrap64\<close> is
  what an addition or a conversion from \<open>uint64\<close> leaves of a mathematical result.
\<close>

definition wrap64 :: "int \<Rightarrow> int" where
  "wrap64 i = signed_take_bit 63 i"

definition int_of_u64 :: "u64 \<Rightarrow> int" where
  "int_of_u64 x = sint x"

lemma wrap64_id [wrap_simps]: "- (2 ^ 63) \<le> i \<Longrightarrow> i < 2 ^ 63 \<Longrightarrow> wrap64 i = i"
  by (simp add: wrap64_def signed_take_bit_int_eq_self)

lemma wrap64_nonneg: "0 \<le> i \<Longrightarrow> i < 2 ^ 63 \<Longrightarrow> wrap64 i = i"
  by (rule wrap64_id) auto

lemma int_of_u64_of_nat:
  "n < 2 ^ 63 \<Longrightarrow> int_of_u64 (of_nat n) = int n"
  by (simp add: int_of_u64_def signed_of_nat signed_take_bit_int_eq_self
      less_imp_le order.trans [where b = 0])

subsection \<open>Byte slices\<close>

text \<open>
  \<open>s_arr\<close> is the backing array from the first element of the slice to its capacity,
  \<open>s_len\<close> the length.  Bytes past \<open>s_len\<close> are kept, as Go keeps them: a later
  re-slice up to the capacity shows them again.
\<close>

record slice =
  s_arr :: "byte list"
  s_len :: nat

definition s_cap :: "slice \<Rightarrow> nat" where
  "s_cap s = length (s_arr s)"

definition content :: "slice \<Rightarrow> byte list" where
  "content s = take (s_len s) (s_arr s)"

definition slice_ok :: "slice \<Rightarrow> bool" where
  "slice_ok s \<longleftrightarrow> s_len s \<le> s_cap s"

definition nil_slice :: slice where
  "nil_slice = \<lparr>s_arr = [], s_len = 0\<rparr>"

definition slice_of :: "byte list \<Rightarrow> slice" where
  "slice_of bs = \<lparr>s_arr = bs, s_len = length bs\<rparr>"

text \<open>\<open>make([]byte, n, c)\<close>: \<open>c\<close> zero bytes, the first \<open>n\<close> of them visible.\<close>

definition make_slice :: "nat \<Rightarrow> nat \<Rightarrow> slice" where
  "make_slice n c = \<lparr>s_arr = replicate c 0, s_len = n\<rparr>"

text \<open>\<open>s[:n]\<close>, which may reach up to the capacity and panics beyond it.\<close>

definition reslice :: "slice \<Rightarrow> nat \<Rightarrow> go_panic + slice" where
  "reslice s n = (if n \<le> s_cap s then Inr (s\<lparr>s_len := n\<rparr>) else Inl Slice_bounds)"

text \<open>\<open>data[lo:hi]\<close> on the visible bytes, with Go's bounds check on signed indices.\<close>

definition sub_bytes :: "byte list \<Rightarrow> int \<Rightarrow> int \<Rightarrow> go_panic + byte list" where
  "sub_bytes bs lo hi =
     (if 0 \<le> lo \<and> lo \<le> hi \<and> hi \<le> int (length bs)
      then Inr (take (nat (hi - lo)) (drop (nat lo) bs))
      else Inl Slice_bounds)"

text \<open>Overwriting part of an array: \<open>copy(arr[i:], xs)\<close> stops at the end of the array.\<close>

definition overwrite :: "'a list \<Rightarrow> nat \<Rightarrow> 'a list \<Rightarrow> 'a list" where
  "overwrite arr i xs =
     take i arr @ take (length arr - i) xs @ drop (i + length xs) arr"

lemma length_overwrite [simp]:
  "i \<le> length arr \<Longrightarrow> length (overwrite arr i xs) = length arr"
  by (auto simp: overwrite_def)

lemma take_overwrite_below [simp]:
  "i \<le> length arr \<Longrightarrow> n \<le> i \<Longrightarrow> take n (overwrite arr i xs) = take n arr"
  by (simp add: overwrite_def min_def)

lemma take_overwrite:
  "i + length xs \<le> length arr \<Longrightarrow> take (i + length xs) (overwrite arr i xs) = take i arr @ xs"
  by (cases xs) (auto simp: overwrite_def min_def)

lemma drop_overwrite_below:
  "i + length xs \<le> length arr \<Longrightarrow> o' \<le> i \<Longrightarrow>
   drop o' (take (i + length xs) (overwrite arr i xs)) = drop o' (take i arr) @ xs"
  by (simp add: take_overwrite min_def)

lemma length_content [slice_simps]: "slice_ok s \<Longrightarrow> length (content s) = s_len s"
  by (simp add: content_def slice_ok_def s_cap_def)

lemma content_slice_of [slice_simps]: "content (slice_of bs) = bs"
  by (simp add: content_def slice_of_def)

lemma slice_ok_slice_of [slice_simps]: "slice_ok (slice_of bs)"
  by (simp add: slice_ok_def slice_of_def s_cap_def)

lemma content_nil_slice [slice_simps]: "content nil_slice = []"
  by (simp add: content_def nil_slice_def)

lemma slice_ok_nil_slice [slice_simps]: "slice_ok nil_slice"
  by (simp add: slice_ok_def nil_slice_def s_cap_def)

lemma sub_bytes_middle:
  "sub_bytes (xs @ ys @ zs) (int (length xs)) (int (length xs) + int (length ys)) = Inr ys"
  by (simp add: sub_bytes_def)

lemma sub_bytes_length: "sub_bytes bs lo hi = Inr r \<Longrightarrow> int (length r) = hi - lo"
  by (auto simp: sub_bytes_def min_def nat_le_eq_zle split: if_splits)

end
