(* ===== verification/Go_Encoding.thy ===== *)
theory Go_Encoding
  imports Go_Prelude
begin

text \<open>
  The parts of Go's \<open>encoding/binary\<close> the program uses: little-endian words and
  variable-length integers, with the round trips that the key codec, the batch
  format and the hash rest on.
\<close>

subsection \<open>Little-endian words\<close>

fun le_bytes :: "nat \<Rightarrow> 'a::len word \<Rightarrow> byte list" where
  "le_bytes 0 x = []"
| "le_bytes (Suc n) x = ucast x # le_bytes n (drop_bit 8 x)"

fun le_word :: "byte list \<Rightarrow> 'a::len word" where
  "le_word [] = 0"
| "le_word (b # bs) = ucast b OR push_bit 8 (le_word bs)"

lemma length_le_bytes [simp]: "length (le_bytes n x) = n"
  by (induction n arbitrary: x) auto

lemma bit_ucast_byte: "bit (ucast (x :: 'a::len word) :: byte) n \<longleftrightarrow> n < 8 \<and> bit x n"
  by (simp add: bit_simps)

lemma le_word_le_bytes: "le_word (le_bytes n x) = take_bit (8 * n) x"
proof (induction n arbitrary: x)
  case 0
  show ?case by simp
next
  case (Suc n)
  show ?case
    by (rule bit_eqI) (auto simp: Suc bit_simps not_less)
qed

lemma take_bit_length_word: "LENGTH('a) \<le> n \<Longrightarrow> take_bit n (x :: 'a::len word) = x"
  by (rule bit_eqI) (auto simp: bit_simps)

lemma le_word_le_bytes_id:
  "LENGTH('a) \<le> 8 * n \<Longrightarrow> le_word (le_bytes n x) = (x :: 'a::len word)"
  by (simp add: le_word_le_bytes take_bit_length_word)

lemma take_bit_le_word:
  "8 * length bs \<le> n \<Longrightarrow> take_bit n (le_word bs :: 'a::len word) = le_word bs"
proof (induction bs arbitrary: n)
  case (Cons b bs)
  then have "take_bit (n - 8) (le_word bs :: 'a word) = le_word bs" by simp
  then have "bit (le_word bs :: 'a word) k \<Longrightarrow> k < n - 8" for k
    by (metis bit_take_bit_iff)
  with Cons.prems show ?case
    by (intro bit_eqI) (fastforce simp: bit_simps dest: bit_imp_le_length)
qed simp

lemma le_bytes_le_word:
  "8 * length bs \<le> LENGTH('a) \<Longrightarrow> le_bytes (length bs) (le_word bs :: 'a::len word) = bs"
proof (induction bs)
  case Nil
  show ?case by simp
next
  case (Cons b bs)
  have low: "ucast (ucast b OR push_bit 8 (le_word bs) :: 'a word) = b"
    using Cons.prems by (intro bit_eqI) (auto simp: bit_simps)
  have "drop_bit 8 (ucast b OR push_bit 8 (le_word bs) :: 'a word)
      = take_bit (LENGTH('a) - 8) (le_word bs)"
    by (rule bit_eqI) (auto simp: bit_simps dest: bit_imp_le_length)
  moreover have "take_bit (LENGTH('a) - 8) (le_word bs :: 'a word) = le_word bs"
    using Cons.prems by (intro take_bit_le_word) simp
  ultimately show ?case using Cons low by simp
qed

subsection \<open>Variable-length integers\<close>

text \<open>\<open>binary.PutUvarint\<close>: seven bits a byte, the top bit set on all but the last.\<close>

function put_uvarint :: "u64 \<Rightarrow> byte list" where
  "put_uvarint x =
     (if 128 \<le> x then (ucast x OR 128) # put_uvarint (drop_bit 7 x) else [ucast x])"
  by pat_completeness auto
termination
proof (relation "measure unat")
  fix x :: u64
  assume "128 \<le> x"
  then have "unat x div 128 < unat x"
    by (simp add: word_le_nat_alt)
  then show "(drop_bit 7 x, x) \<in> measure unat"
    by (simp add: drop_bit_eq_div unat_div)
qed simp

declare put_uvarint.simps [simp del]

text \<open>
  \<open>binary.Uvarint\<close> with its loop variables: the position \<open>i\<close>, the value \<open>x\<close> read so
  far and the shift \<open>s\<close>.  The second result is the number of bytes read, 0 when the
  buffer ends inside the number, negative when the number does not fit 64 bits.
\<close>

fun uvarint_loop :: "nat \<Rightarrow> u64 \<Rightarrow> nat \<Rightarrow> byte list \<Rightarrow> u64 \<times> int" where
  "uvarint_loop i x s [] = (0, 0)"
| "uvarint_loop i x s (b # bs) =
     (if b < 128
      then if 9 < i \<or> (i = 9 \<and> 1 < b) then (0, - int (i + 1))
           else (x OR push_bit s (ucast b), int (i + 1))
      else uvarint_loop (Suc i) (x OR push_bit s (ucast (b AND 127))) (s + 7) bs)"

definition uvarint :: "byte list \<Rightarrow> u64 \<times> int" where
  "uvarint bs = uvarint_loop 0 0 0 bs"

lemma put_uvarint_short: "x < 128 \<Longrightarrow> put_uvarint x = [ucast x]"
  by (subst put_uvarint.simps) (simp add: linorder_not_le [symmetric] del: not_le not_less)

lemma put_uvarint_nonempty [simp]: "put_uvarint x \<noteq> []"
  by (subst put_uvarint.simps) simp

lemma uvarint_loop_bound:
  "uvarint_loop i x s bs = (v, n) \<Longrightarrow> n \<le> int (i + length bs) \<and> (0 < n \<longrightarrow> int i < n)"
  by (induction i x s bs rule: uvarint_loop.induct) (auto split: if_splits)

lemma uvarint_bound: "uvarint bs = (v, n) \<Longrightarrow> n \<le> int (length bs)"
  unfolding uvarint_def by (drule uvarint_loop_bound) simp

text \<open>One step of the decoder glues the seven bits it reads onto those below them.\<close>

lemma take_bit_glue:
  "take_bit s x OR push_bit s (ucast (ucast (drop_bit s x) AND 127 :: byte)) = take_bit (s + 7) (x :: u64)"
proof (rule bit_eqI)
  fix n
  have "bit (127 :: byte) k \<longleftrightarrow> k < 7" if "k < 8" for k
  proof -
    have "(127 :: byte) = mask 7" by (simp add: mask_eq_exp_minus_1)
    then have "bit (127 :: byte) k = bit (mask 7 :: byte) k" by (rule arg_cong)
    also have "\<dots> \<longleftrightarrow> k < 7" using that by (simp only: bit_mask_iff) simp
    finally show ?thesis .
  qed
  then show "bit (take_bit s x OR push_bit s (ucast (ucast (drop_bit s x) AND 127 :: byte))) n
      = bit (take_bit (s + 7) x) n"
    by (auto simp: bit_simps dest: bit_imp_le_length)
qed

lemma byte_less_128: "(b :: byte) < 128 \<longleftrightarrow> \<not> bit b 7"
proof -
  have "unat b < 256" using unsigned_less [of b, where ?'a = nat] by simp
  then have "unat b div 128 = (if unat b < 128 then 0 else 1)"
    by (auto intro: div_nat_eqI)
  moreover have "bit b 7 = bit (unat b) 7" by (simp add: bit_unsigned_iff)
  ultimately show ?thesis
    by (simp add: word_less_nat_alt bit_iff_odd)
qed

text \<open>
  Decoding what was encoded, started after the first \<open>i\<close> groups of seven bits; from
  \<open>i = 0\<close> on the number read back is the number written and the count is its length.
\<close>

lemma continuation_byte:
  "\<not> (ucast (y :: u64) OR 128 :: byte) < 128"
  "(ucast y OR 128 :: byte) AND 127 = ucast y AND 127"
proof -
  have "bit (128 :: byte) 7" by simp
  then show "\<not> (ucast y OR 128 :: byte) < 128"
    by (simp add: byte_less_128 bit_simps)
  have "(ucast y OR 128 :: byte) AND 127 = (ucast y AND 127) OR (128 AND 127)"
    by (rule bit.conj_disj_distrib2)
  then show "(ucast y OR 128 :: byte) AND 127 = ucast y AND 127" by simp
qed

lemma shifts_in_range:
  assumes "drop_bit (7 * i) (x :: u64) \<noteq> 0"
  shows "i \<le> 9" and "i = 9 \<Longrightarrow> drop_bit (7 * i) x = 1"
proof -
  have small: "drop_bit k x = 0" if "64 \<le> k" for k
    using that by (intro bit_eqI) (auto simp: bit_simps dest: bit_imp_le_length)
  show "i \<le> 9"
    using assms small [of "7 * i"] by (cases "i \<le> 9") auto
  assume "i = 9"
  moreover have "unat (drop_bit 63 x) < 2"
    using unsigned_less [of x, where ?'a = nat] by (simp add: drop_bit_eq_div unat_div)
  moreover have "unat (drop_bit 63 x) \<noteq> 0"
    using assms \<open>i = 9\<close> by (simp add: unat_eq_0)
  ultimately have "unat (drop_bit (7 * i) x) = unat (1 :: u64)" by simp
  then show "drop_bit (7 * i) x = 1" by (simp only: word_unat_eq_iff)
qed

lemma uvarint_loop_put:
  assumes "i = 0 \<or> drop_bit (7 * i) x \<noteq> 0"
  shows "uvarint_loop i (take_bit (7 * i) x) (7 * i) (put_uvarint (drop_bit (7 * i) x) @ rest)
       = (x, int (i + length (put_uvarint (drop_bit (7 * i) x))))"
  using assms
proof (induction "unat (drop_bit (7 * i) x)" arbitrary: i rule: less_induct)
  case less
  let ?y = "drop_bit (7 * i) x"
  have enc: "put_uvarint ?y =
      (if 128 \<le> ?y then (ucast ?y OR 128) # put_uvarint (drop_bit 7 ?y) else [ucast ?y])"
    by (rule put_uvarint.simps)
  show ?case
  proof (cases "128 \<le> ?y")
    case True
    have step: "drop_bit 7 ?y = drop_bit (7 * Suc i) x"
      and glue: "take_bit (7 * i) x OR push_bit (7 * i) (ucast (ucast ?y AND 127 :: byte))
        = take_bit (7 * Suc i) x"
      using take_bit_glue [of "7 * i" x] by (simp_all add: add.commute)
    from True have "unat ?y div 128 \<noteq> 0" and "unat ?y div 128 < unat ?y"
      by (simp_all add: word_le_nat_alt)
    then have "unat (drop_bit 7 ?y) \<noteq> 0" and "unat (drop_bit 7 ?y) < unat ?y"
      by (simp_all add: drop_bit_eq_div [of 7] unat_div del: drop_bit_drop_bit)
    then have "drop_bit (7 * Suc i) x \<noteq> 0" and "unat (drop_bit (7 * Suc i) x) < unat ?y"
      by (auto simp only: step unat_0)
    moreover have "7 * i + 7 = 7 * Suc i" by simp
    ultimately show ?thesis using less.hyps [of "Suc i"]
      by (simp add: enc True continuation_byte step glue del: drop_bit_drop_bit mult_Suc_right)
  next
    case False
    then have lt: "unat ?y < 128" by (simp add: word_less_nat_alt not_le)
    then have same: "ucast (ucast ?y :: byte) = ?y"
      by (simp add: word_unat_eq_iff unsigned_ucast_eq unsigned_take_bit_eq take_bit_nat_eq_self)
    have small: "(ucast ?y :: byte) < 128"
      using lt by (simp add: word_less_nat_alt unsigned_ucast_eq take_bit_nat_eq_self)
    have whole: "take_bit (7 * i) x OR push_bit (7 * i) ?y = x"
    proof (rule bit_eqI)
      fix n
      show "bit (take_bit (7 * i) x OR push_bit (7 * i) ?y) n = bit x n"
        by (cases "n < 7 * i") (auto simp: bit_simps dest: bit_imp_le_length)
    qed
    have "\<not> (9 < i \<or> (i = 9 \<and> 1 < (ucast ?y :: byte)))"
      using less.prems shifts_in_range [of i x] by auto
    with False show ?thesis
      by (simp add: enc small same whole)
  qed
qed

lemma uvarint_put: "uvarint (put_uvarint x @ rest) = (x, int (length (put_uvarint x)))"
  using uvarint_loop_put [of 0 x rest] by (simp add: uvarint_def)

text \<open>A number below \<open>2 ^ (7 * k)\<close> takes at most \<open>k\<close> bytes.\<close>

lemma length_put_uvarint:
  "unat x < 2 ^ (7 * Suc k) \<Longrightarrow> length (put_uvarint x) \<le> Suc k"
proof (induction k arbitrary: x)
  case 0
  then show ?case
    by (subst put_uvarint.simps) (simp add: word_le_nat_alt)
next
  case (Suc k)
  have "unat (drop_bit 7 x) = unat x div 128" by (simp add: drop_bit_eq_div unat_div)
  also have "\<dots> < 2 ^ (7 * Suc k)" using Suc.prems
    by (simp add: less_mult_imp_div_less power_add)
  finally have "length (put_uvarint (drop_bit 7 x)) \<le> Suc k" by (rule Suc.IH)
  then show ?case by (subst put_uvarint.simps) simp
qed

end
