(* ===== verification/Go_Fmt.thy ===== *)
theory Go_Fmt
  imports Go_Prelude
begin

text \<open>
  The formatting and scanning of Go's standard library as far as the program uses
  them: \<open>%d\<close>, \<open>%06d\<close>, \<open>%#x\<close>, \<open>strconv.ParseInt\<close> in base ten, and the \<open>%d\<close>, \<open>%s\<close>
  and literal directives of \<open>fmt.Sscanf\<close>.  Strings are ASCII.
\<close>

named_theorems fmt_simps "printing and scanning of decimal numbers"

subsection \<open>Decimal printing\<close>

definition digit_char :: "nat \<Rightarrow> char" where
  "digit_char d = char_of (48 + d)"

definition is_digit :: "char \<Rightarrow> bool" where
  "is_digit c \<longleftrightarrow> 48 \<le> (of_char c :: nat) \<and> (of_char c :: nat) \<le> 57"

definition digit_value :: "char \<Rightarrow> nat" where
  "digit_value c = of_char c - 48"

fun dec_nat :: "nat \<Rightarrow> string" where
  "dec_nat n = (if n < 10 then [digit_char n] else dec_nat (n div 10) @ [digit_char (n mod 10)])"

declare dec_nat.simps [simp del]

definition dec_int :: "int \<Rightarrow> string" where
  "dec_int i = (if i < 0 then CHR ''-'' # dec_nat (nat (- i)) else dec_nat (nat i))"

text \<open>\<open>%0wd\<close>: zeros up to the width \<open>w\<close>, the sign counted and put first.\<close>

definition zero_pad :: "nat \<Rightarrow> string \<Rightarrow> string" where
  "zero_pad w ds = replicate (w - length ds) (CHR ''0'') @ ds"

definition dec_pad :: "nat \<Rightarrow> int \<Rightarrow> string" where
  "dec_pad w i =
     (if i < 0 then CHR ''-'' # zero_pad (w - 1) (dec_nat (nat (- i)))
      else zero_pad w (dec_nat (nat i)))"

fun nat_of_digits :: "nat \<Rightarrow> string \<Rightarrow> nat" where
  "nat_of_digits acc [] = acc"
| "nat_of_digits acc (c # cs) = nat_of_digits (10 * acc + digit_value c) cs"

lemma is_digit_digit_char [simp]: "d < 10 \<Longrightarrow> is_digit (digit_char d)"
  by (simp add: is_digit_def digit_char_def)

lemma digit_value_digit_char [simp]: "d < 10 \<Longrightarrow> digit_value (digit_char d) = d"
  by (simp add: digit_value_def digit_char_def)

lemma is_digit_0 [simp]: "is_digit CHR ''0''"
  by (simp add: is_digit_def)

lemma digit_value_0 [simp]: "digit_value CHR ''0'' = 0"
  by (simp add: digit_value_def)

lemma nat_of_digits_append [simp]:
  "nat_of_digits acc (xs @ ys) = nat_of_digits (nat_of_digits acc xs) ys"
  by (induction xs arbitrary: acc) auto

lemma nat_of_digits_zeros [simp]: "nat_of_digits 0 (replicate k CHR ''0'') = 0"
  by (induction k) auto

lemma dec_nat_nonempty [simp]: "dec_nat n \<noteq> []"
  by (subst dec_nat.simps) simp

lemma dec_nat_digits: "list_all is_digit (dec_nat n)"
proof (induction n rule: dec_nat.induct)
  case (1 n)
  then show ?case by (subst dec_nat.simps) auto
qed

lemma nat_of_digits_dec_nat [fmt_simps]: "nat_of_digits 0 (dec_nat n) = n"
proof (induction n rule: dec_nat.induct)
  case (1 n)
  then show ?case by (subst dec_nat.simps) auto
qed

lemma zero_pad_nonempty [simp]: "ds \<noteq> [] \<Longrightarrow> zero_pad w ds \<noteq> []"
  by (simp add: zero_pad_def)

lemma zero_pad_digits: "list_all is_digit ds \<Longrightarrow> list_all is_digit (zero_pad w ds)"
  by (auto simp: zero_pad_def list_all_iff)

lemma nat_of_digits_zero_pad [fmt_simps]:
  "nat_of_digits 0 (zero_pad w (dec_nat n)) = n"
  by (simp add: zero_pad_def nat_of_digits_dec_nat)

lemma dec_pad_nonneg: "0 \<le> i \<Longrightarrow> dec_pad w i = zero_pad w (dec_nat (nat i))"
  by (simp add: dec_pad_def)

subsection \<open>Hexadecimal printing\<close>

definition hex_char :: "nat \<Rightarrow> char" where
  "hex_char d = (if d < 10 then char_of (48 + d) else char_of (87 + d))"

fun hex_nat :: "nat \<Rightarrow> string" where
  "hex_nat n = (if n < 16 then [hex_char n] else hex_nat (n div 16) @ [hex_char (n mod 16)])"

declare hex_nat.simps [simp del]

text \<open>\<open>%#x\<close> of an unsigned number, of a string and of a byte slice.\<close>

definition hex_number :: "nat \<Rightarrow> string" where
  "hex_number n = ''0x'' @ hex_nat n"

definition hex_two :: "nat \<Rightarrow> string" where
  "hex_two b = [hex_char (b div 16), hex_char (b mod 16)]"

definition hex_bytes :: "byte list \<Rightarrow> string" where
  "hex_bytes bs = concat (map (\<lambda>b. hex_two (unat b)) bs)"

definition hex_string :: "string \<Rightarrow> string" where
  "hex_string s = ''0x'' @ concat (map (\<lambda>c. hex_two (of_char c)) s)"

subsection \<open>Parsing integers\<close>

text \<open>
  \<open>strconv.ParseInt(tok, 10, 64)\<close>: an optional sign, at least one digit, nothing else,
  and a value in the range of \<open>int64\<close>; \<open>None\<close> is its error.
\<close>

definition digits_value :: "string \<Rightarrow> nat option" where
  "digits_value ds =
     (if ds \<noteq> [] \<and> list_all is_digit ds then Some (nat_of_digits 0 ds) else None)"

definition parse_int64 :: "string \<Rightarrow> int option" where
  "parse_int64 tok =
     (case tok of
        [] \<Rightarrow> None
      | c # cs \<Rightarrow>
          let neg = (c = CHR ''-'');
              ds = (if c = CHR ''-'' \<or> c = CHR ''+'' then cs else tok)
          in case digits_value ds of
               None \<Rightarrow> None
             | Some n \<Rightarrow>
                 if neg then if n \<le> 2 ^ 63 then Some (- int n) else None
                 else if n < 2 ^ 63 then Some (int n) else None)"

lemma is_digit_not_sign [simp]:
  "is_digit c \<Longrightarrow> c \<noteq> CHR ''-''" "is_digit c \<Longrightarrow> c \<noteq> CHR ''+''"
  "is_digit c \<Longrightarrow> c \<noteq> CHR ''.''"
  by (auto simp: is_digit_def)

lemma parse_int64_digits:
  assumes "ds \<noteq> []" and "list_all is_digit ds" and "nat_of_digits 0 ds < 2 ^ 63"
  shows "parse_int64 ds = Some (int (nat_of_digits 0 ds))"
proof -
  from assms(1) obtain c cs where ds: "ds = c # cs" by (cases ds) auto
  with assms(2) have "is_digit c" by simp
  then have "c \<noteq> CHR ''-''" and "c \<noteq> CHR ''+''" by simp_all
  with assms ds show ?thesis
    by (simp add: parse_int64_def digits_value_def Let_def)
qed

lemma parse_int64_range: "parse_int64 s = Some i \<Longrightarrow> - (2 ^ 63) \<le> i \<and> i < 2 ^ 63"
  by (auto simp: parse_int64_def Let_def split: list.splits option.splits if_splits)

subsection \<open>The directives of \<open>fmt.Sscanf\<close>\<close>

definition is_space :: "char \<Rightarrow> bool" where
  "is_space c \<longleftrightarrow> (of_char c :: nat) \<in> {9, 10, 11, 12, 13, 32}"

text \<open>\<open>ss.SkipSpace\<close> when newlines are not spaces: a newline is an error.\<close>

fun skip_space :: "string \<Rightarrow> string option" where
  "skip_space [] = Some []"
| "skip_space (c # cs) =
     (if (of_char c :: nat) = 13 \<and> (case cs of [] \<Rightarrow> False | d # _ \<Rightarrow> (of_char d :: nat) = 10)
      then skip_space cs
      else if (of_char c :: nat) = 10 then None
      else if is_space c then skip_space cs
      else Some (c # cs))"

text \<open>\<open>%d\<close>: blanks, a sign, the longest run of digits, \<open>strconv.ParseInt\<close> of both.\<close>

definition scan_int :: "string \<Rightarrow> (int \<times> string) option" where
  "scan_int s =
     (case skip_space s of
        None \<Rightarrow> None
      | Some t \<Rightarrow>
          let sign = (case t of [] \<Rightarrow> [] | c # _ \<Rightarrow> if c = CHR ''-'' \<or> c = CHR ''+'' then [c] else []);
              u = drop (length sign) t;
              ds = takeWhile is_digit u
          in case parse_int64 (sign @ ds) of
               None \<Rightarrow> None
             | Some i \<Rightarrow> Some (i, dropWhile is_digit u))"

text \<open>\<open>%s\<close>: blanks, then the longest run of non-blanks, which must not be empty.\<close>

definition scan_word :: "string \<Rightarrow> (string \<times> string) option" where
  "scan_word s =
     (case skip_space s of
        None \<Rightarrow> None
      | Some [] \<Rightarrow> None
      | Some t \<Rightarrow> Some (takeWhile (\<lambda>c. \<not> is_space c) t, dropWhile (\<lambda>c. \<not> is_space c) t))"

fun match_lit :: "string \<Rightarrow> string \<Rightarrow> string option" where
  "match_lit [] s = Some s"
| "match_lit (l # ls) [] = None"
| "match_lit (l # ls) (c # cs) = (if l = c then match_lit ls cs else None)"

lemma match_lit_append [simp]: "match_lit ls (ls @ s) = Some s"
  by (induction ls) auto

lemma is_digit_not_space: "is_digit c \<Longrightarrow> \<not> is_space c \<and> (of_char c :: nat) \<noteq> 10 \<and> (of_char c :: nat) \<noteq> 13"
  by (auto simp: is_digit_def is_space_def)

lemma scan_int_digits:
  assumes ds: "ds \<noteq> []" "list_all is_digit ds" "nat_of_digits 0 ds < 2 ^ 63"
    and rest: "rest = [] \<or> \<not> is_digit (hd rest)"
  shows "scan_int (ds @ rest) = Some (int (nat_of_digits 0 ds), rest)"
proof -
  from ds(1) obtain c cs where c: "ds = c # cs" by (cases ds) auto
  with ds(2) have dc: "is_digit c" by simp
  then have "skip_space (ds @ rest) = Some (ds @ rest)"
    using c is_digit_not_space [OF dc] by simp
  moreover have "takeWhile is_digit (ds @ rest) = ds" "dropWhile is_digit (ds @ rest) = rest"
    using ds(2) rest by (cases rest; auto simp: list_all_iff)+
  moreover have "c \<noteq> CHR ''-''" "c \<noteq> CHR ''+''" using dc by simp_all
  ultimately show ?thesis
    using parse_int64_digits [OF ds] c by (simp add: scan_int_def)
qed

end
