(* ===== verification/File_Desc.thy ===== *)
theory File_Desc
  imports Go_Fmt
begin

text \<open>
  File types and file descriptors of \<open>taudb/storage/storage.go\<close>, the names
  \<open>taudb/storage/file_storage.go\<close> gives files on disk (\<open>fsGenName\<close>, \<open>fsGenOldName\<close>,
  \<open>fsParseName\<close>) and the packing of a descriptor into one \<open>uint64\<close> of
  \<open>taudb/storage/mem_storage.go\<close>.
\<close>

subsection \<open>File types\<close>

text \<open>\<open>FileType\<close> is an \<open>int\<close> used as a bit set; its values are ordinary integers.\<close>

definition TypeManifest :: int where "TypeManifest = 1"
definition TypeJournal :: int where "TypeJournal = 2"
definition TypeTable :: int where "TypeTable = 4"
definition TypeTemp :: int where "TypeTemp = 8"

definition TypeAll :: int where
  "TypeAll = TypeManifest OR TypeJournal OR TypeTable OR TypeTemp"

lemmas file_type_defs = TypeManifest_def TypeJournal_def TypeTable_def TypeTemp_def

lemma TypeAll_eq: "TypeAll = 15"
  by (simp add: TypeAll_def file_type_defs)

definition file_type_string :: "int \<Rightarrow> string" where
  "file_type_string t =
     (if t = TypeManifest then ''manifest''
      else if t = TypeJournal then ''journal''
      else if t = TypeTable then ''table''
      else if t = TypeTemp then ''temp''
      else ''<unknown:'' @ dec_int t @ ''>'')"

subsection \<open>File descriptors\<close>

record file_desc =
  fd_type :: int
  fd_num :: int

definition zero_fd :: file_desc where
  "zero_fd = \<lparr>fd_type = 0, fd_num = 0\<rparr>"

definition fd_zero :: "file_desc \<Rightarrow> bool" where
  "fd_zero fd \<longleftrightarrow> fd = zero_fd"

text \<open>
  The default branch prints with \<open>%#x\<close>, which on a value with a \<open>String\<close> method prints
  the bytes of that string.
\<close>

definition fd_string :: "file_desc \<Rightarrow> string" where
  "fd_string fd =
     (if fd_type fd = TypeManifest then ''MANIFEST-'' @ dec_pad 6 (fd_num fd)
      else if fd_type fd = TypeJournal then dec_pad 6 (fd_num fd) @ ''.log''
      else if fd_type fd = TypeTable then dec_pad 6 (fd_num fd) @ ''.ldb''
      else if fd_type fd = TypeTemp then dec_pad 6 (fd_num fd) @ ''.tmp''
      else hex_string (file_type_string (fd_type fd)) @ ''-'' @ dec_int (fd_num fd))"

definition FileDescOk :: "file_desc \<Rightarrow> bool" where
  "FileDescOk fd \<longleftrightarrow>
     fd_type fd \<in> {TypeManifest, TypeJournal, TypeTable, TypeTemp} \<and> 0 \<le> fd_num fd"

text \<open>\<open>Num\<close> is an \<open>int64\<close>; the range is a fact about every descriptor of the program.\<close>

definition fd_int64 :: "file_desc \<Rightarrow> bool" where
  "fd_int64 fd \<longleftrightarrow> - (2 ^ 63) \<le> fd_num fd \<and> fd_num fd < 2 ^ 63"

lemma FileDescOk_cases:
  assumes "FileDescOk fd"
  obtains (manifest) "fd_type fd = TypeManifest" | (journal) "fd_type fd = TypeJournal"
    | (table) "fd_type fd = TypeTable" | (temp) "fd_type fd = TypeTemp"
  using assms by (auto simp: FileDescOk_def)

lemma zero_fd_not_ok [simp]: "\<not> FileDescOk zero_fd"
  by (simp add: FileDescOk_def zero_fd_def file_type_defs)

subsection \<open>Names on disk\<close>

definition fsGenName :: "file_desc \<Rightarrow> go_panic + string" where
  "fsGenName fd =
     (if fd_type fd = TypeManifest then Inr (''MANIFEST-'' @ dec_pad 6 (fd_num fd))
      else if fd_type fd = TypeJournal then Inr (dec_pad 6 (fd_num fd) @ ''.log'')
      else if fd_type fd = TypeTable then Inr (dec_pad 6 (fd_num fd) @ ''.ldb'')
      else if fd_type fd = TypeTemp then Inr (dec_pad 6 (fd_num fd) @ ''.tmp'')
      else Inl (Panic_msg ''invalid file type''))"

definition fsHasOldName :: "file_desc \<Rightarrow> bool" where
  "fsHasOldName fd \<longleftrightarrow> fd_type fd = TypeTable"

definition fsGenOldName :: "file_desc \<Rightarrow> go_panic + string" where
  "fsGenOldName fd =
     (if fd_type fd = TypeTable then Inr (dec_pad 6 (fd_num fd) @ ''.sst'') else fsGenName fd)"

text \<open>
  The two \<open>Sscanf\<close> calls of \<open>fsParseName\<close>.  Each returns the number it stored, if it got
  that far, and the word it stored, if it got to the end; the call has no error exactly
  when both are there.
\<close>

definition sscanf_num_dot_tail :: "string \<Rightarrow> int option \<times> string option" where
  "sscanf_num_dot_tail name =
     (case scan_int name of
        None \<Rightarrow> (None, None)
      | Some (n, r) \<Rightarrow>
          (Some n,
           case match_lit ''.'' r of
             None \<Rightarrow> None
           | Some r' \<Rightarrow> map_option fst (scan_word r')))"

definition sscanf_manifest :: "string \<Rightarrow> int option \<times> string option" where
  "sscanf_manifest name =
     (case match_lit ''MANIFEST-'' name of
        None \<Rightarrow> (None, None)
      | Some r \<Rightarrow>
          (case scan_int r of
             None \<Rightarrow> (None, None)
           | Some (n, r') \<Rightarrow> (Some n, map_option fst (scan_word r'))))"

definition fsParseName :: "string \<Rightarrow> file_desc \<times> bool" where
  "fsParseName name =
     (case sscanf_num_dot_tail name of
        (Some n, Some tail) \<Rightarrow>
          (if tail = ''log'' then (\<lparr>fd_type = TypeJournal, fd_num = n\<rparr>, True)
           else if tail = ''ldb'' \<or> tail = ''sst'' then (\<lparr>fd_type = TypeTable, fd_num = n\<rparr>, True)
           else if tail = ''tmp'' then (\<lparr>fd_type = TypeTemp, fd_num = n\<rparr>, True)
           else (\<lparr>fd_type = 0, fd_num = n\<rparr>, False))
      | (num, _) \<Rightarrow>
          (case sscanf_manifest name of
             (Some n, None) \<Rightarrow> (\<lparr>fd_type = TypeManifest, fd_num = n\<rparr>, True)
           | (Some n, Some _) \<Rightarrow> (\<lparr>fd_type = 0, fd_num = n\<rparr>, False)
           | (None, _) \<Rightarrow> (\<lparr>fd_type = 0, fd_num = (case num of None \<Rightarrow> 0 | Some n \<Rightarrow> n)\<rparr>, False)))"

text \<open>\<open>fsParseNamePtr\<close>: the result, and what it stores through a non-nil pointer.\<close>

definition fsParseNamePtr :: "string \<Rightarrow> file_desc option \<Rightarrow> bool \<times> file_desc option" where
  "fsParseNamePtr name p =
     (let (fd, ok) = fsParseName name in (ok, map_option (\<lambda>_. fd) p))"

subsection \<open>Packing\<close>

definition packFile :: "file_desc \<Rightarrow> u64" where
  "packFile fd = push_bit 4 (word_of_int (fd_num fd)) OR word_of_int (fd_type fd)"

definition unpackFile :: "u64 \<Rightarrow> file_desc" where
  "unpackFile x = \<lparr>fd_type = sint x AND TypeAll, fd_num = sint (drop_bit 4 x)\<rparr>"

subsection \<open>Round trips of the names\<close>

lemma fsGenName_Inr: "FileDescOk fd \<Longrightarrow> \<exists>name. fsGenName fd = Inr name"
  by (auto simp: FileDescOk_def fsGenName_def)

lemma scan_int_pad:
  assumes "0 \<le> n" and "n < 2 ^ 63" and "rest = [] \<or> \<not> is_digit (hd rest)"
  shows "scan_int (dec_pad w n @ rest) = Some (n, rest)"
proof -
  let ?ds = "zero_pad w (dec_nat (nat n))"
  have val: "nat_of_digits 0 ?ds = nat n" by (rule nat_of_digits_zero_pad)
  have "scan_int (?ds @ rest) = Some (int (nat_of_digits 0 ?ds), rest)"
  proof (rule scan_int_digits)
    show "?ds \<noteq> []" by simp
    show "list_all is_digit ?ds" by (rule zero_pad_digits [OF dec_nat_digits])
    show "nat_of_digits 0 ?ds < 2 ^ 63" using assms(1,2) val by (simp add: nat_less_iff)
    show "rest = [] \<or> \<not> is_digit (hd rest)" by (fact assms(3))
  qed
  with val assms(1) show ?thesis by (simp add: dec_pad_nonneg)
qed

lemma scan_int_manifest: "scan_int (''MANIFEST-'' @ s) = None"
  by (simp add: scan_int_def is_space_def is_digit_def parse_int64_def digits_value_def)

lemma scan_word_ext:
  "ext \<in> {''log'', ''ldb'', ''sst'', ''tmp''} \<Longrightarrow> scan_word ext = Some (ext, [])"
  by (auto simp: scan_word_def is_space_def)

lemma sscanf_numbered:
  assumes "0 \<le> n" and "n < 2 ^ 63" and "ext \<in> {''log'', ''ldb'', ''sst'', ''tmp''}"
  shows "sscanf_num_dot_tail (dec_pad w n @ ''.'' @ ext) = (Some n, Some ext)"
proof -
  have "scan_int (dec_pad w n @ ''.'' @ ext) = Some (n, ''.'' @ ext)"
    by (rule scan_int_pad) (use assms in \<open>auto simp: is_digit_def\<close>)
  then show ?thesis
    using scan_word_ext [OF assms(3)] by (simp add: sscanf_num_dot_tail_def)
qed

lemma fsParseName_numbered:
  assumes "0 \<le> n" and "n < 2 ^ 63"
  shows "fsParseName (dec_pad w n @ ''.log'') = (\<lparr>fd_type = TypeJournal, fd_num = n\<rparr>, True)"
    and "fsParseName (dec_pad w n @ ''.ldb'') = (\<lparr>fd_type = TypeTable, fd_num = n\<rparr>, True)"
    and "fsParseName (dec_pad w n @ ''.sst'') = (\<lparr>fd_type = TypeTable, fd_num = n\<rparr>, True)"
    and "fsParseName (dec_pad w n @ ''.tmp'') = (\<lparr>fd_type = TypeTemp, fd_num = n\<rparr>, True)"
  using sscanf_numbered [OF assms, of "''log''" w] sscanf_numbered [OF assms, of "''ldb''" w]
    sscanf_numbered [OF assms, of "''sst''" w] sscanf_numbered [OF assms, of "''tmp''" w]
  by (simp_all add: fsParseName_def)

lemma fsParseName_manifest:
  assumes "0 \<le> n" and "n < 2 ^ 63"
  shows "fsParseName (''MANIFEST-'' @ dec_pad w n) = (\<lparr>fd_type = TypeManifest, fd_num = n\<rparr>, True)"
proof -
  have "sscanf_num_dot_tail (''MANIFEST-'' @ dec_pad w n) = (None, None)"
    using scan_int_manifest [of "dec_pad w n"] by (simp add: sscanf_num_dot_tail_def)
  moreover have "match_lit ''MANIFEST-'' (''MANIFEST-'' @ dec_pad w n) = Some (dec_pad w n)"
    by (rule match_lit_append)
  then have "sscanf_manifest (''MANIFEST-'' @ dec_pad w n) = (Some n, None)"
    using scan_int_pad [of n "[]" w] assms by (simp add: sscanf_manifest_def scan_word_def)
  ultimately show ?thesis by (simp add: fsParseName_def)
qed

lemma parse_gen_name:
  assumes "FileDescOk fd" and "fd_int64 fd" and "fsGenName fd = Inr name"
  shows "fsParseName name = (fd, True)"
proof -
  have n: "0 \<le> fd_num fd" "fd_num fd < 2 ^ 63"
    using assms(1,2) by (auto simp: FileDescOk_def fd_int64_def)
  show ?thesis
    using assms(1) by (cases rule: FileDescOk_cases; cases fd)
      (use assms(3) n in \<open>auto simp: fsGenName_def file_type_defs fsParseName_numbered
         fsParseName_manifest [unfolded append.simps, simplified]\<close>)
qed

subsection \<open>Round trip of the packing\<close>

text \<open>The type takes the low four bits, the number the other sixty.\<close>

lemma bit_type_high: "t \<in> {1, 2, 4, 8} \<Longrightarrow> bit (t :: int) k \<Longrightarrow> k < 4"
proof -
  assume "t \<in> {1, 2, 4, 8}"
  then have "take_bit 4 t = t" by (auto simp: take_bit_int_eq_self)
  then show "bit t k \<Longrightarrow> k < 4" by (metis bit_take_bit_iff)
qed

lemma bit_num_high: "0 \<le> n \<Longrightarrow> n < 2 ^ m \<Longrightarrow> bit (n :: int) k \<Longrightarrow> k < m"
  by (metis bit_take_bit_iff take_bit_int_eq_self)

lemma drop_bit_packed:
  fixes n t :: int
  assumes "0 \<le> n" and "n < 2 ^ 60" and "t \<in> {1, 2, 4, 8}"
  shows "drop_bit 4 (push_bit 4 (word_of_int n) OR word_of_int t :: u64) = word_of_int n"
  using assms bit_num_high [OF assms(1,2)] bit_type_high [OF assms(3)]
  by (intro bit_eqI) (fastforce simp: bit_simps)

lemma low_bits_packed:
  fixes n t :: int
  assumes "t \<in> {1, 2, 4, 8}"
  shows "sint (push_bit 4 (word_of_int n) OR word_of_int t :: u64) AND 15 = t"
proof -
  have fifteen: "(15 :: int) = mask 4" by (simp add: mask_eq_exp_minus_1)
  have "take_bit 4 (sint (push_bit 4 (word_of_int n) OR word_of_int t :: u64)) = t"
    using bit_type_high [OF assms]
    by (intro bit_eqI) (fastforce simp: bit_simps min_def)
  then show ?thesis by (simp only: fifteen take_bit_eq_mask)
qed

lemma unpack_pack:
  assumes "FileDescOk fd" and "fd_num fd < 2 ^ 60"
  shows "unpackFile (packFile fd) = fd"
proof -
  have t: "fd_type fd \<in> {1, 2, 4, 8}" and n: "0 \<le> fd_num fd"
    using assms(1) by (auto simp: FileDescOk_def file_type_defs)
  have "sint (word_of_int (fd_num fd) :: u64) = fd_num fd"
    using n assms(2) by (simp add: signed_of_int signed_take_bit_int_eq_self)
  then show ?thesis
    using drop_bit_packed [OF n assms(2) t] low_bits_packed [OF t]
    by (cases fd) (simp add: unpackFile_def packFile_def TypeAll_eq)
qed

lemma pack_inject:
  assumes "FileDescOk a" "FileDescOk b" "fd_num a < 2 ^ 60" "fd_num b < 2 ^ 60"
    and "packFile a = packFile b"
  shows "a = b"
  using assms unpack_pack by metis

subsection \<open>Properties\<close>

text \<open>
  C23: The file name generated for a valid descriptor parses back to that descriptor, so no
  two descriptors share a name (the numbers being 64-bit, as in the code).
\<close>

theorem file_name_roundtrip:
  assumes "FileDescOk fd" and "fd_int64 fd"
  shows "\<exists>name. fsGenName fd = Inr name \<and> fsParseName name = (fd, True) \<and>
    (\<forall>fd'. FileDescOk fd' \<longrightarrow> fd_int64 fd' \<longrightarrow> fsGenName fd' = Inr name \<longrightarrow> fd' = fd)"
proof -
  obtain name where name: "fsGenName fd = Inr name" using fsGenName_Inr [OF assms(1)] by blast
  have "fsParseName name = (fd, True)" by (rule parse_gen_name [OF assms name])
  moreover have "fd' = fd" if "FileDescOk fd'" "fd_int64 fd'" "fsGenName fd' = Inr name" for fd'
    using parse_gen_name [OF that] parse_gen_name [OF assms name] by simp
  ultimately show ?thesis using name by blast
qed

lemma file_name_roundtrip_witness:
  "\<exists>name. fsGenName \<lparr>fd_type = TypeTable, fd_num = 42\<rparr> = Inr name \<and>
    fsParseName name = (\<lparr>fd_type = TypeTable, fd_num = 42\<rparr>, True) \<and>
    (\<forall>fd'. FileDescOk fd' \<longrightarrow> fd_int64 fd' \<longrightarrow> fsGenName fd' = Inr name \<longrightarrow>
       fd' = \<lparr>fd_type = TypeTable, fd_num = 42\<rparr>)"
  by (rule file_name_roundtrip) (simp_all add: FileDescOk_def fd_int64_def file_type_defs)

text \<open>
  The 64-bit key under which the memory storage files a descriptor determines the
  descriptor, for valid descriptors with a number below \<open>2 ^ 60\<close>.
\<close>

theorem pack_file_roundtrip:
  assumes "FileDescOk fd" and "fd_num fd < 2 ^ 60"
  shows "unpackFile (packFile fd) = fd"
  by (rule unpack_pack [OF assms])

lemma pack_file_roundtrip_witness:
  "unpackFile (packFile \<lparr>fd_type = TypeTemp, fd_num = 7\<rparr>) = \<lparr>fd_type = TypeTemp, fd_num = 7\<rparr>"
  by (rule pack_file_roundtrip) (simp_all add: FileDescOk_def file_type_defs)

lemma push_bit_out: "64 \<le> n \<Longrightarrow> push_bit n w = (0 :: u64)"
  by (rule bit_word_eqI) (simp add: bit_simps)

text \<open>
  The bound is sharp: \<open>packFile\<close> shifts the top four bits of the number out, so
  descriptors whose numbers differ by \<open>2 ^ 60\<close> share a key although \<open>FileDescOk\<close> accepts both.
\<close>

theorem pack_file_collision:
  "packFile (fd\<lparr>fd_num := fd_num fd + 2 ^ 60\<rparr>) = packFile fd"
proof -
  have "push_bit 4 (word_of_int (fd_num fd + 2 ^ 60) :: u64) = push_bit 4 (word_of_int (fd_num fd))"
  proof -
    have "word_of_int (2 ^ 60) = (push_bit 60 1 :: u64)" by (simp add: push_bit_eq_mult)
    moreover have "push_bit (4 + 60) 1 = (0 :: u64)"
      by (rule push_bit_out) simp
    then have "push_bit 4 (push_bit 60 1 :: u64) = 0"
      by (simp only: push_bit_push_bit)
    ultimately show ?thesis by (simp only: wi_hom_add [symmetric] push_bit_add add_0_right)
  qed
  then show ?thesis by (simp add: packFile_def)
qed

end
