(* ===== verification/Db_Errors.thy ===== *)
theory Db_Errors
  imports File_Desc
begin

text \<open>
  The error values of the database packages: the sentinels of \<open>taudb/storage\<close>,
  \<open>taudb/errors\<close> and \<open>taudb/utils\<close>, those of Go's \<open>io\<close> and \<open>os\<close> the program returns, and
  the corruption wrappers, with \<open>taudb/errors/errors.go\<close>.
\<close>

datatype go_error =
    EOF
  | ErrShortWrite
  | ErrNotExist
  | ErrNotFound
  | ErrReleased
  | ErrHasReleaser
  | ErrInvalidFile
  | ErrLocked
  | ErrClosed
  | errFileOpen
  | errReadOnly
  | Storage_ErrCorrupted file_desc go_error
  | ErrCorrupted file_desc go_error
  | ErrMissingFiles "file_desc list"
  | ErrBatchCorrupted string
  | ErrInternalKeyCorrupted "byte list" string
  | Plain_error string

text \<open>\<open>%q\<close> of a key is left to the printer it is given.\<close>

fun error_text :: "(byte list \<Rightarrow> string) \<Rightarrow> go_error \<Rightarrow> string" where
  "error_text q EOF = ''EOF''"
| "error_text q ErrShortWrite = ''short write''"
| "error_text q ErrNotExist = ''file does not exist''"
| "error_text q ErrNotFound = ''ipfsdb: not found''"
| "error_text q ErrReleased = ''ipfsdb: resource already relesed''"
| "error_text q ErrHasReleaser = ''ipfsdb: releaser already defined''"
| "error_text q ErrInvalidFile = ''ipfsdb/storage: invalid file for argument''"
| "error_text q ErrLocked = ''ipfsdb/storage: already locked''"
| "error_text q ErrClosed = ''ipfsdb/storage: closed''"
| "error_text q errFileOpen = ''ipfsdb/storage: file still open''"
| "error_text q errReadOnly = ''ipfsdb/storage: storage is read-only''"
| "error_text q (Storage_ErrCorrupted fd e) =
     (if \<not> fd_zero fd then error_text q e @ '' [file='' @ fd_string fd @ '']'' else error_text q e)"
| "error_text q (ErrCorrupted fd e) =
     (if \<not> fd_zero fd then error_text q e @ '' [file='' @ fd_string fd @ '']'' else error_text q e)"
| "error_text q (ErrMissingFiles fds) = ''file missing''"
| "error_text q (ErrBatchCorrupted reason) = ''ipfsdb: batch corrupted: '' @ reason"
| "error_text q (ErrInternalKeyCorrupted ik reason) =
     ''ipfsdb: internal key '' @ q ik @ '' corrupted: '' @ reason"
| "error_text q (Plain_error s) = s"

definition NewErrCorrupted :: "file_desc \<Rightarrow> go_error \<Rightarrow> go_error" where
  "NewErrCorrupted fd e = ErrCorrupted fd e"

text \<open>\<open>errors.IsCorrupted\<close> accepts the wrapper of either package, \<open>storage.isCorrupted\<close> its own.\<close>

definition IsCorrupted :: "go_error \<Rightarrow> bool" where
  "IsCorrupted e = (case e of ErrCorrupted _ _ \<Rightarrow> True | Storage_ErrCorrupted _ _ \<Rightarrow> True | _ \<Rightarrow> False)"

definition storage_isCorrupted :: "go_error \<Rightarrow> bool" where
  "storage_isCorrupted e = (case e of Storage_ErrCorrupted _ _ \<Rightarrow> True | _ \<Rightarrow> False)"

definition SetFd :: "go_error \<Rightarrow> file_desc \<Rightarrow> go_error" where
  "SetFd e fd = (case e of ErrCorrupted _ e' \<Rightarrow> ErrCorrupted fd e' | _ \<Rightarrow> e)"

lemma storage_isCorrupted_IsCorrupted: "storage_isCorrupted e \<Longrightarrow> IsCorrupted e"
  by (cases e) (auto simp: storage_isCorrupted_def IsCorrupted_def)

lemma IsCorrupted_SetFd [simp]: "IsCorrupted (SetFd e fd) = IsCorrupted e"
  by (cases e) (auto simp: IsCorrupted_def SetFd_def)

lemma IsCorrupted_NewErrCorrupted [simp]: "IsCorrupted (NewErrCorrupted fd e)"
  by (simp add: IsCorrupted_def NewErrCorrupted_def)

end
