(* ===== verification/Internal_Key.thy ===== *)
theory Internal_Key
  imports Go_Encoding Db_Errors
begin

text \<open>
  The internal key codec of \<open>taudb/key.go\<close>: a user key followed by eight little-endian
  bytes that hold a 56-bit sequence number and a key type.  Building a key panics on a
  sequence number or a type out of range; parsing returns an error.
\<close>

subsection \<open>Types and constants\<close>

type_synonym key_type = u64

definition keyTypeDel :: key_type where "keyTypeDel = 0"
definition keyTypeVal :: key_type where "keyTypeVal = 1"
definition keyTypeSeek :: key_type where "keyTypeSeek = keyTypeVal"

definition keyMaxSeq :: u64 where "keyMaxSeq = push_bit 56 1 - 1"
definition keyMaxNum :: u64 where "keyMaxNum = push_bit 8 keyMaxSeq OR keyTypeSeek"
definition keyMaxNumBytes :: "byte list" where "keyMaxNumBytes = le_bytes 8 keyMaxNum"

lemmas key_type_defs = keyTypeDel_def keyTypeVal_def

definition key_type_string :: "key_type \<Rightarrow> string" where
  "key_type_string kt =
     (if kt = keyTypeDel then ''d''
      else if kt = keyTypeVal then ''v''
      else ''<invalid:'' @ hex_number (unat kt) @ ''>'')"

definition newErrInternalKeyCorrupted :: "byte list \<Rightarrow> string \<Rightarrow> go_error" where
  "newErrInternalKeyCorrupted ik reason = NewErrCorrupted zero_fd (ErrInternalKeyCorrupted ik reason)"

subsection \<open>Building\<close>

text \<open>\<open>ensureBuffer\<close> keeps the array when it is large enough, whatever it holds.\<close>

definition ensureBuffer :: "slice \<Rightarrow> nat \<Rightarrow> slice" where
  "ensureBuffer b n = (if s_cap b < n then make_slice n n else b\<lparr>s_len := n\<rparr>)"

definition makeInternalKey :: "slice \<Rightarrow> byte list \<Rightarrow> u64 \<Rightarrow> key_type \<Rightarrow> go_panic + slice" where
  "makeInternalKey dst ukey seq kt =
     (if keyMaxSeq < seq then Inl (Panic_msg ''ipfsdb: invalid sequence number'')
      else if keyTypeVal < kt then Inl (Panic_msg ''ipfsdb: invalid type'')
      else
        let dst1 = ensureBuffer dst (length ukey + 8);
            arr1 = overwrite (s_arr dst1) 0 ukey;
            arr2 = overwrite arr1 (length ukey) (le_bytes 8 (push_bit 8 seq OR kt))
        in Inr (dst1\<lparr>s_arr := arr2\<rparr>))"

subsection \<open>Parsing\<close>

definition key_trailer :: "byte list \<Rightarrow> u64" where
  "key_trailer ik = le_word (drop (length ik - 8) ik)"

definition parseInternalKey :: "byte list \<Rightarrow> go_error + (byte list \<times> u64 \<times> key_type)" where
  "parseInternalKey ik =
     (if length ik < 8 then Inl (newErrInternalKeyCorrupted ik ''invalid length'')
      else
        let num = key_trailer ik; seq = drop_bit 8 num; kt = num AND 255
        in if keyTypeVal < kt then Inl (newErrInternalKeyCorrupted ik ''invalid type'')
           else Inr (take (length ik - 8) ik, seq, kt))"

definition validInternalKey :: "byte list \<Rightarrow> bool" where
  "validInternalKey ik = (case parseInternalKey ik of Inl _ \<Rightarrow> False | Inr _ \<Rightarrow> True)"

text \<open>
  The methods of \<open>internalKey\<close>.  A nil key is \<open>None\<close>; \<open>assert\<close> panics on it and on keys
  too short to hold the trailer.  \<open>q\<close> prints a key as \<open>%q\<close> does.
\<close>

definition ik_assert :: "(byte list \<Rightarrow> string) \<Rightarrow> byte list option \<Rightarrow> go_panic + byte list" where
  "ik_assert q ik =
     (case ik of
        None \<Rightarrow> Inl (Panic_msg ''ipfsdb: nil internalKey'')
      | Some k \<Rightarrow>
          if length k < 8
          then Inl (Panic_msg (''ipfsdb: internal key '' @ q k @ '', len='' @ dec_nat (length k)
                      @ '': invalid length''))
          else Inr k)"

definition ik_ukey :: "(byte list \<Rightarrow> string) \<Rightarrow> byte list option \<Rightarrow> go_panic + byte list" where
  "ik_ukey q ik = bind_go (ik_assert q ik) (\<lambda>k. Inr (take (length k - 8) k))"

definition ik_num :: "(byte list \<Rightarrow> string) \<Rightarrow> byte list option \<Rightarrow> go_panic + u64" where
  "ik_num q ik = bind_go (ik_assert q ik) (\<lambda>k. Inr (key_trailer k))"

text \<open>
  \<open>%#x\<close> of a \<open>keyType\<close> in the last panic goes through its \<open>String\<close> method, as in
  \<open>fd_string\<close>.
\<close>

definition ik_parseNum :: "(byte list \<Rightarrow> string) \<Rightarrow> byte list option \<Rightarrow> go_panic + (u64 \<times> key_type)" where
  "ik_parseNum q ik =
     bind_go (ik_num q ik) (\<lambda>num.
       let seq = drop_bit 8 num; kt = num AND 255
       in if keyTypeVal < kt
          then Inl (Panic_msg (''ipfsdb: internal key '' @ q (case ik of None \<Rightarrow> [] | Some k \<Rightarrow> k)
                 @ '', len='' @ dec_nat (length (case ik of None \<Rightarrow> [] | Some k \<Rightarrow> k))
                 @ '': invalid type '' @ hex_string (key_type_string kt)))
          else Inr (seq, kt))"

definition shorten :: "string \<Rightarrow> string" where
  "shorten s = (if length s \<le> 8 then s else take 3 s @ ''..'' @ drop (length s - 3) s)"

definition bytes_to_string :: "byte list \<Rightarrow> string" where
  "bytes_to_string bs = map (\<lambda>b. char_of (unat b)) bs"

text \<open>
  In \<open>String\<close> the verb \<open>%s%d\<close> prints the type by its \<open>String\<close> method and the sequence
  number in decimal; an invalid key is printed as the hexadecimal of its bytes.
\<close>

definition ik_string :: "byte list option \<Rightarrow> string" where
  "ik_string ik =
     (case ik of
        None \<Rightarrow> ''<nil>''
      | Some k \<Rightarrow>
          (case parseInternalKey k of
             Inr (ukey, seq, kt) \<Rightarrow>
               shorten (bytes_to_string ukey) @ '','' @ key_type_string kt @ dec_nat (unat seq)
           | Inl _ \<Rightarrow> ''<invalid:0x'' @ hex_bytes k @ ''>''))"

subsection \<open>Properties of the codec\<close>

lemma le_keyMaxSeq: "seq \<le> keyMaxSeq \<longleftrightarrow> take_bit 56 seq = seq"
proof -
  have "seq \<le> keyMaxSeq \<longleftrightarrow> seq < 2 ^ 56"
    by (simp add: keyMaxSeq_def word_le_nat_alt word_less_nat_alt less_Suc_eq_le [symmetric])
  also have "\<dots> \<longleftrightarrow> take_bit 56 seq = seq"
    by (simp add: word_less_nat_alt word_unat_eq_iff unsigned_take_bit_eq take_bit_nat_eq_self_iff)
  finally show ?thesis .
qed

lemma seq_le_bits: "seq \<le> keyMaxSeq \<Longrightarrow> bit seq n \<Longrightarrow> n < 56"
  by (metis bit_take_bit_iff le_keyMaxSeq)

lemma key_type_le: "kt \<le> keyTypeVal \<longleftrightarrow> kt = keyTypeDel \<or> kt = keyTypeVal"
proof -
  have "kt \<le> keyTypeVal \<longleftrightarrow> unat kt \<le> 1" by (simp add: key_type_defs word_le_nat_alt)
  also have "\<dots> \<longleftrightarrow> unat kt = unat (0 :: u64) \<or> unat kt = unat (1 :: u64)"
    by (simp only: unat_0 unat_1) arith
  finally show ?thesis by (simp only: key_type_defs word_unat_eq_iff)
qed

lemma packed_seq:
  assumes "seq \<le> keyMaxSeq" and "kt \<le> keyTypeVal"
  shows "drop_bit 8 (push_bit 8 seq OR kt) = seq" and "(push_bit 8 seq OR kt) AND 255 = kt"
proof -
  have kt: "kt = 0 \<or> kt = 1" using assms(2) unfolding key_type_le by (simp add: key_type_defs)
  have high: "bit seq n \<Longrightarrow> n < 56" for n by (rule seq_le_bits [OF assms(1)])
  show "drop_bit 8 (push_bit 8 seq OR kt) = seq"
    using kt high by (intro bit_eqI) (auto simp: bit_simps)
  have "(push_bit 8 seq OR kt) AND mask 8 = kt"
    using kt by (intro bit_eqI) (auto simp: bit_simps)
  then show "(push_bit 8 seq OR kt) AND 255 = kt" by (simp add: mask_eq_exp_minus_1)
qed

lemma ensureBuffer_ok: "slice_ok (ensureBuffer b n) \<and> s_len (ensureBuffer b n) = n"
  by (auto simp: ensureBuffer_def slice_ok_def s_cap_def make_slice_def)

lemma makeInternalKey_content:
  assumes "seq \<le> keyMaxSeq" and "kt \<le> keyTypeVal"
  obtains dst' where "makeInternalKey dst ukey seq kt = Inr dst'" and "slice_ok dst'"
    and "content dst' = ukey @ le_bytes 8 (push_bit 8 seq OR kt)"
proof -
  let ?d = "ensureBuffer dst (length ukey + 8)"
  let ?tr = "le_bytes 8 (push_bit 8 seq OR kt)"
  let ?a = "overwrite (overwrite (s_arr ?d) 0 ukey) (length ukey) ?tr"
  have ok: "length ukey + 8 \<le> length (s_arr ?d)" and len: "s_len ?d = length ukey + 8"
    using ensureBuffer_ok [of dst "length ukey + 8"] by (auto simp: slice_ok_def s_cap_def)
  have "take (length ukey + length ?tr) ?a = take (length ukey) (overwrite (s_arr ?d) 0 ukey) @ ?tr"
    by (rule take_overwrite) (use ok in simp)
  also have "take (length ukey) (overwrite (s_arr ?d) 0 ukey) = ukey"
    using take_overwrite [of 0 ukey "s_arr ?d"] ok by simp
  finally have "content (?d\<lparr>s_arr := ?a\<rparr>) = ukey @ ?tr"
    using len by (simp add: content_def)
  moreover have "slice_ok (?d\<lparr>s_arr := ?a\<rparr>)"
    using ok len by (simp add: slice_ok_def s_cap_def)
  ultimately show thesis
    using assms that by (simp add: makeInternalKey_def Let_def not_less [symmetric])
qed

lemma parse_encoded_key:
  assumes "seq \<le> keyMaxSeq" and "kt \<le> keyTypeVal"
  shows "parseInternalKey (ukey @ le_bytes 8 (push_bit 8 seq OR kt)) = Inr (ukey, seq, kt)"
  using packed_seq [OF assms] assms(2)
  by (simp add: parseInternalKey_def key_trailer_def le_word_le_bytes_id Let_def not_less)

text \<open>
  What parses is rebuilt byte for byte, so parsing loses nothing: the trailer of a valid
  key is exactly the packed sequence number and type.
\<close>

lemma trailer_split: "push_bit 8 (drop_bit 8 num) OR (num AND 255) = (num :: u64)"
proof -
  have "push_bit 8 (drop_bit 8 num) OR (num AND mask 8) = num"
    by (rule bit_eqI) (auto simp: bit_simps dest: bit_imp_le_length)
  then show ?thesis by (simp add: mask_eq_exp_minus_1)
qed

lemma drop_bit_8_le: "drop_bit 8 (num :: u64) \<le> keyMaxSeq"
proof -
  have "take_bit 56 (drop_bit 8 num) = drop_bit 8 num"
    by (rule bit_eqI) (auto simp: bit_simps dest: bit_imp_le_length)
  then show ?thesis by (simp only: le_keyMaxSeq)
qed

lemma parse_inverse:
  assumes "parseInternalKey ik = Inr (ukey, seq, kt)"
  shows "ik = ukey @ le_bytes 8 (push_bit 8 seq OR kt)" and "seq \<le> keyMaxSeq" and "kt \<le> keyTypeVal"
proof -
  let ?num = "key_trailer ik"
  have len: "8 \<le> length ik" and parts: "ukey = take (length ik - 8) ik" "seq = drop_bit 8 ?num"
    "kt = ?num AND 255" "kt \<le> keyTypeVal"
    using assms by (auto simp: parseInternalKey_def Let_def split: if_splits)
  have "le_bytes (length (drop (length ik - 8) ik)) (le_word (drop (length ik - 8) ik) :: u64)
      = drop (length ik - 8) ik"
    by (rule le_bytes_le_word) (use len in simp)
  then have "le_bytes 8 ?num = drop (length ik - 8) ik"
    using len by (simp add: key_trailer_def)
  then show "ik = ukey @ le_bytes 8 (push_bit 8 seq OR kt)"
    using trailer_split [of ?num] parts by simp
  show "seq \<le> keyMaxSeq" "kt \<le> keyTypeVal" using parts drop_bit_8_le by simp_all
qed

lemma ik_methods_of_valid:
  assumes "parseInternalKey ik = Inr (ukey, seq, kt)"
  shows "ik_ukey q (Some ik) = Inr ukey" and "ik_parseNum q (Some ik) = Inr (seq, kt)"
  using assms
  by (auto simp: parseInternalKey_def ik_ukey_def ik_num_def ik_parseNum_def ik_assert_def Let_def
      split: if_splits)

subsection \<open>Properties\<close>

text \<open>
  C8: A key built from a user key, a sequence number of at most 56 bits and a valid type is
  the user key and eight more bytes, whatever buffer it is built into, and both
  \<open>parseInternalKey\<close> and the panicking accessors read the same parts back.
\<close>

theorem internal_key_roundtrip:
  assumes "seq \<le> keyMaxSeq" and "kt \<le> keyTypeVal"
  shows "\<exists>dst'. makeInternalKey dst ukey seq kt = Inr dst' \<and> slice_ok dst' \<and>
    s_len dst' = length ukey + 8 \<and>
    parseInternalKey (content dst') = Inr (ukey, seq, kt) \<and>
    ik_ukey q (Some (content dst')) = Inr ukey \<and>
    ik_parseNum q (Some (content dst')) = Inr (seq, kt)"
proof -
  obtain dst' where make: "makeInternalKey dst ukey seq kt = Inr dst'" and ok: "slice_ok dst'"
    and bytes: "content dst' = ukey @ le_bytes 8 (push_bit 8 seq OR kt)"
    using makeInternalKey_content [OF assms] .
  have parse: "parseInternalKey (content dst') = Inr (ukey, seq, kt)"
    unfolding bytes by (rule parse_encoded_key [OF assms])
  have "s_len dst' = length ukey + 8"
    using length_content [OF ok] by (simp add: bytes)
  with make ok parse ik_methods_of_valid [OF parse] show ?thesis by blast
qed

lemma internal_key_roundtrip_witness:
  "\<exists>dst'. makeInternalKey nil_slice [0x61, 0x62] 513 keyTypeVal = Inr dst' \<and> slice_ok dst' \<and>
    s_len dst' = length [0x61 :: byte, 0x62] + 8 \<and>
    parseInternalKey (content dst') = Inr ([0x61, 0x62], 513, keyTypeVal) \<and>
    ik_ukey (\<lambda>k. []) (Some (content dst')) = Inr [0x61, 0x62] \<and>
    ik_parseNum (\<lambda>k. []) (Some (content dst')) = Inr (513, keyTypeVal)"
  by (rule internal_key_roundtrip) (simp_all add: keyMaxSeq_def)

text \<open>
  C22: \<open>parseInternalKey\<close> accepts exactly the byte strings that are a user key followed by the
  packed little-endian trailer of a 56-bit sequence number and a type that is \<open>keyTypeDel\<close>
  or \<open>keyTypeVal\<close>, and it returns these parts; everything else is the error of a corrupted key.
\<close>

theorem internal_key_parse_exact:
  "(parseInternalKey ik = Inr (ukey, seq, kt)) =
   (ik = ukey @ le_bytes 8 (push_bit 8 seq OR kt) \<and> seq \<le> keyMaxSeq \<and> (kt = keyTypeDel \<or> kt = keyTypeVal))"
  using parse_inverse [of ik ukey seq kt] parse_encoded_key [of seq kt ukey] key_type_le [of kt] by blast

end
