(* ===== verification/Batch.thy ===== *)
theory Batch
  imports Internal_Key
begin

text \<open>
  The write batch of \<open>taudb/batch.go\<close>: a byte buffer of encoded records with an index of
  where each record's key and value lie, its construction (\<open>Put\<close>, \<open>Delete\<close>, \<open>append\<close>,
  \<open>Reset\<close>), its decoding (\<open>Load\<close>) and its replay.  Positions and lengths are Go \<open>int\<close>s with
  their wrap-around, since the decoder computes them from untrusted input.
\<close>

subsection \<open>Data\<close>

definition newErrBatchCorrupted :: "string \<Rightarrow> go_error" where
  "newErrBatchCorrupted reason = NewErrCorrupted zero_fd (ErrBatchCorrupted reason)"

definition batchGrowRec :: nat where "batchGrowRec = 3000"
definition MaxVarintLen32 :: nat where "MaxVarintLen32 = 5"

text \<open>The calls of the interface \<open>BatchReplay\<close>, which are also the operations of a batch.\<close>

datatype batch_op = Put "byte list" "byte list" | Delete "byte list"

record batch_index =
  bi_keyType :: key_type
  bi_keyPos :: int
  bi_keyLen :: int
  bi_valuePos :: int
  bi_valueLen :: int

definition zero_index :: batch_index where
  "zero_index = \<lparr>bi_keyType = 0, bi_keyPos = 0, bi_keyLen = 0, bi_valuePos = 0, bi_valueLen = 0\<rparr>"

text \<open>Slicing checks its bounds against the capacity, so the whole array is passed.\<close>

definition index_k :: "batch_index \<Rightarrow> slice \<Rightarrow> go_panic + byte list" where
  "index_k ix data = sub_bytes (s_arr data) (bi_keyPos ix) (wrap64 (bi_keyPos ix + bi_keyLen ix))"

definition index_v :: "batch_index \<Rightarrow> slice \<Rightarrow> go_panic + byte list" where
  "index_v ix data =
     (if bi_valueLen ix \<noteq> 0
      then sub_bytes (s_arr data) (bi_valuePos ix) (wrap64 (bi_valuePos ix + bi_valueLen ix))
      else Inr [])"

definition index_kv :: "batch_index \<Rightarrow> slice \<Rightarrow> go_panic + (byte list \<times> byte list)" where
  "index_kv ix data =
     bind_go (index_k ix data) (\<lambda>k. bind_go (index_v ix data) (\<lambda>v. Inr (k, v)))"

record batch =
  b_data :: slice
  b_index :: "batch_index list"
  b_internalLen :: int

definition newBatch :: batch where
  "newBatch = \<lparr>b_data = nil_slice, b_index = [], b_internalLen = 0\<rparr>"

definition MakeBatch :: "nat \<Rightarrow> batch" where
  "MakeBatch n = \<lparr>b_data = make_slice 0 n, b_index = [], b_internalLen = 0\<rparr>"

subsection \<open>Building a batch\<close>

definition batch_grow :: "nat \<Rightarrow> batch \<Rightarrow> batch" where
  "batch_grow n b =
     (let p = s_len (b_data b) in
      if s_cap (b_data b) - p < n
      then let d = (if batchGrowRec < length (b_index b) then length (b_index b) div batchGrowRec else 1);
               arr = overwrite (replicate (p + n + p div d) 0) 0 (content (b_data b))
           in b\<lparr>b_data := \<lparr>s_arr = arr, s_len = p\<rparr>\<rparr>
      else b)"

text \<open>
  \<open>binary.PutUvarint(data[p:], x)\<close> into an array of which \<open>lim\<close> bytes are visible: it
  panics when the number does not fit, otherwise it returns the number of bytes written.
\<close>

definition put_uvarint_at :: "byte list \<Rightarrow> nat \<Rightarrow> nat \<Rightarrow> u64 \<Rightarrow> go_panic + (byte list \<times> nat)" where
  "put_uvarint_at arr lim p x =
     (if p + length (put_uvarint x) \<le> lim
      then Inr (overwrite arr p (put_uvarint x), length (put_uvarint x))
      else Inl Index_out_of_range)"

text \<open>\<open>copy(data[p:], xs)\<close> under the same limit, with the number of bytes copied.\<close>

definition copy_at :: "byte list \<Rightarrow> nat \<Rightarrow> nat \<Rightarrow> byte list \<Rightarrow> byte list \<times> nat" where
  "copy_at arr lim p xs =
     (overwrite arr p (take (lim - p) xs), min (lim - p) (length xs))"

definition appendRec :: "key_type \<Rightarrow> byte list \<Rightarrow> byte list \<Rightarrow> batch \<Rightarrow> go_panic + batch" where
  "appendRec kt key value b =
     (let n0 = 1 + MaxVarintLen32 + length key;
          n = (if kt = keyTypeVal then n0 + MaxVarintLen32 + length value else n0);
          b1 = batch_grow n b;
          p0 = s_len (b_data b1);
          lim = p0 + n
      in if s_cap (b_data b1) < lim then Inl Slice_bounds
         else
           let arr1 = overwrite (s_arr (b_data b1)) p0 [ucast kt]
           in bind_go (put_uvarint_at arr1 lim (p0 + 1) (of_nat (length key))) (\<lambda>(arr2, w).
                let kp = p0 + 1 + w;
                    (arr3, ck) = copy_at arr2 lim kp key;
                    p3 = kp + ck;
                    ix = zero_index\<lparr>bi_keyType := kt, bi_keyPos := int kp, bi_keyLen := int (length key)\<rparr>
                in bind_go
                     (if kt = keyTypeVal
                      then bind_go (put_uvarint_at arr3 lim p3 (of_nat (length value))) (\<lambda>(arr4, w').
                             let vp = p3 + w';
                                 (arr5, cv) = copy_at arr4 lim vp value
                             in Inr (arr5, vp + cv,
                                  ix\<lparr>bi_valuePos := int vp, bi_valueLen := int (length value)\<rparr>))
                      else Inr (arr3, p3, ix))
                     (\<lambda>(arr, p, ix').
                        Inr (b1\<lparr>b_data := \<lparr>s_arr = arr, s_len = p\<rparr>,
                                b_index := b_index b1 @ [ix'],
                                b_internalLen := wrap64 (b_internalLen b1 + bi_keyLen ix' + bi_valueLen ix' + 8)\<rparr>))))"

definition batch_Put :: "byte list \<Rightarrow> byte list \<Rightarrow> batch \<Rightarrow> go_panic + batch" where
  "batch_Put key value b = appendRec keyTypeVal key value b"

definition batch_Delete :: "byte list \<Rightarrow> batch \<Rightarrow> go_panic + batch" where
  "batch_Delete key b = appendRec keyTypeDel key [] b"

definition batch_Dump :: "batch \<Rightarrow> slice" where
  "batch_Dump b = b_data b"

definition batch_Len :: "batch \<Rightarrow> nat" where
  "batch_Len b = length (b_index b)"

definition batch_Reset :: "batch \<Rightarrow> batch" where
  "batch_Reset b = b\<lparr>b_data := (b_data b)\<lparr>s_len := 0\<rparr>, b_index := [], b_internalLen := 0\<rparr>"

text \<open>
  The built-in \<open>append\<close> writes in place when the capacity allows it and moves to a new
  array otherwise; how much room the new array has beyond the contents is up to the
  run-time system and is taken to be none.
\<close>

definition append_bytes :: "slice \<Rightarrow> byte list \<Rightarrow> slice" where
  "append_bytes s xs =
     (if s_len s + length xs \<le> s_cap s
      then \<lparr>s_arr = overwrite (s_arr s) (s_len s) xs, s_len = s_len s + length xs\<rparr>
      else slice_of (content s @ xs))"

definition shift_index :: "int \<Rightarrow> batch_index \<Rightarrow> batch_index" where
  "shift_index ob ix =
     (let ix1 = ix\<lparr>bi_keyPos := wrap64 (bi_keyPos ix + ob)\<rparr>
      in if bi_valueLen ix1 \<noteq> 0 then ix1\<lparr>bi_valuePos := wrap64 (bi_valuePos ix1 + ob)\<rparr> else ix1)"

definition batch_append :: "batch \<Rightarrow> batch \<Rightarrow> batch" where
  "batch_append b p =
     (let ob = s_len (b_data b) in
      b\<lparr>b_data := append_bytes (b_data b) (content (b_data p)),
        b_index := b_index b @ (if ob \<noteq> 0 then map (shift_index (int ob)) (b_index p) else b_index p),
        b_internalLen := wrap64 (b_internalLen b + b_internalLen p)\<rparr>)"

subsection \<open>Replay\<close>

fun replay_loop :: "slice \<Rightarrow> batch_index list \<Rightarrow> go_panic + batch_op list" where
  "replay_loop data [] = Inr []"
| "replay_loop data (ix # ixs) =
     bind_go
       (if bi_keyType ix = keyTypeVal
        then bind_go (index_k ix data) (\<lambda>k. bind_go (index_v ix data) (\<lambda>v. Inr [Put k v]))
        else if bi_keyType ix = keyTypeDel
        then bind_go (index_k ix data) (\<lambda>k. Inr [Delete k])
        else Inr [])
       (\<lambda>call. bind_go (replay_loop data ixs) (\<lambda>calls. Inr (call @ calls)))"

text \<open>The calls \<open>Replay\<close> makes, in order; its error result is always nil.\<close>

definition batch_Replay :: "batch \<Rightarrow> go_panic + batch_op list" where
  "batch_Replay b = replay_loop (b_data b) (b_index b)"

subsection \<open>Decoding\<close>

text \<open>
  \<open>decodeBatch\<close> as a loop with fuel: \<open>None\<close> when the fuel runs out before the loop ends.
  The variable \<open>index\<close> is declared outside the Go loop and survives its iterations; \<open>fn\<close>
  is the callback, which updates a state of type \<open>'s\<close> and may return an error.
\<close>

fun decode_loop ::
  "nat \<Rightarrow> byte list \<Rightarrow> (int \<Rightarrow> batch_index \<Rightarrow> 's \<Rightarrow> 's \<times> go_error option) \<Rightarrow>
   int \<Rightarrow> int \<Rightarrow> batch_index \<Rightarrow> 's \<Rightarrow> (go_panic + ('s \<times> go_error option)) option" where
  "decode_loop 0 data fn i p index s = None"
| "decode_loop (Suc fuel) data fn i p index s =
     (if \<not> p < int (length data) then Some (Inr (s, None))
      else if p < 0 then Some (Inl Index_out_of_range)
      else
        let index1 = index\<lparr>bi_keyType := ucast (data ! nat p)\<rparr> in
        if keyTypeVal < bi_keyType index1
        then Some (Inr (s, Some (newErrBatchCorrupted
               (''bad record: invalid type '' @ hex_number (unat (bi_keyType index1))))))
        else
          let p1 = p + 1;
              (x, n) = uvarint (drop (nat p1) data);
              p2 = wrap64 (p1 + n)
          in if n \<le> 0 \<or> int (length data) < wrap64 (p2 + int_of_u64 x)
             then Some (Inr (s, Some (newErrBatchCorrupted ''bad record: invalid key length'')))
             else
               let index2 = index1\<lparr>bi_keyPos := p2, bi_keyLen := int_of_u64 x\<rparr>;
                   p3 = wrap64 (p2 + int_of_u64 x)
               in if bi_keyType index2 = keyTypeVal
                  then if p3 < 0 \<or> int (length data) < p3 then Some (Inl Slice_bounds)
                  else
                    let (y, m) = uvarint (drop (nat p3) data);
                        p4 = wrap64 (p3 + m)
                    in if m \<le> 0 \<or> int (length data) < wrap64 (p4 + int_of_u64 y)
                       then Some (Inr (s, Some (newErrBatchCorrupted ''bad record: invalid value length'')))
                       else
                         let index3 = index2\<lparr>bi_valuePos := p4, bi_valueLen := int_of_u64 y\<rparr>
                         in (case fn i index3 s of
                               (s', Some e) \<Rightarrow> Some (Inr (s', Some e))
                             | (s', None) \<Rightarrow>
                                 decode_loop fuel data fn (i + 1) (wrap64 (p4 + int_of_u64 y)) index3 s')
                  else
                    let index3 = index2\<lparr>bi_valuePos := 0, bi_valueLen := 0\<rparr>
                    in (case fn i index3 s of
                          (s', Some e) \<Rightarrow> Some (Inr (s', Some e))
                        | (s', None) \<Rightarrow> decode_loop fuel data fn (i + 1) p3 index3 s'))"

declare decode_loop.simps(2) [simp del]

definition decodeBatch ::
  "nat \<Rightarrow> byte list \<Rightarrow> (int \<Rightarrow> batch_index \<Rightarrow> 's \<Rightarrow> 's \<times> go_error option) \<Rightarrow> 's
   \<Rightarrow> (go_panic + ('s \<times> go_error option)) option" where
  "decodeBatch fuel data fn s = decode_loop fuel data fn 0 0 zero_index s"

definition record_index :: "int \<Rightarrow> batch_index \<Rightarrow> batch \<Rightarrow> batch \<times> go_error option" where
  "record_index i ix b =
     (b\<lparr>b_index := b_index b @ [ix],
        b_internalLen := wrap64 (b_internalLen b + bi_keyLen ix + bi_valueLen ix + 8)\<rparr>, None)"

definition batch_decode ::
  "nat \<Rightarrow> slice \<Rightarrow> int \<Rightarrow> batch \<Rightarrow> (go_panic + (batch \<times> go_error option)) option" where
  "batch_decode fuel data expectedLen b =
     (case decodeBatch fuel (content data) record_index
             (b\<lparr>b_data := data, b_index := [], b_internalLen := 0\<rparr>) of
        None \<Rightarrow> None
      | Some (Inl p) \<Rightarrow> Some (Inl p)
      | Some (Inr (b', Some e)) \<Rightarrow> Some (Inr (b', Some e))
      | Some (Inr (b', None)) \<Rightarrow>
          if 0 \<le> expectedLen \<and> int (length (b_index b')) \<noteq> expectedLen
          then Some (Inr (b', Some (newErrBatchCorrupted
                 (''invalid records length: '' @ dec_int expectedLen @ '' vs ''
                  @ dec_nat (length (b_index b'))))))
          else Some (Inr (b', None)))"

definition batch_Load :: "nat \<Rightarrow> slice \<Rightarrow> batch \<Rightarrow> (go_panic + (batch \<times> go_error option)) option" where
  "batch_Load fuel data b = batch_decode fuel data (-1) b"

end
