(* ===== verification/Batch_Correct.thy ===== *)
theory Batch_Correct
  imports Batch
begin

text \<open>
  Correctness of the write batch: what a batch represents (a list of operations), and
  that building, replaying, appending, dumping and loading respect it.
\<close>

subsection \<open>The record format\<close>

fun op_type :: "batch_op \<Rightarrow> key_type" where
  "op_type (Put k v) = keyTypeVal"
| "op_type (Delete k) = keyTypeDel"

fun op_key :: "batch_op \<Rightarrow> byte list" where
  "op_key (Put k v) = k"
| "op_key (Delete k) = k"

fun op_value :: "batch_op \<Rightarrow> byte list" where
  "op_value (Put k v) = v"
| "op_value (Delete k) = []"

definition len_bytes :: "byte list \<Rightarrow> byte list" where
  "len_bytes xs = put_uvarint (of_nat (length xs)) @ xs"

fun enc_op :: "batch_op \<Rightarrow> byte list" where
  "enc_op (Put k v) = ucast keyTypeVal # len_bytes k @ len_bytes v"
| "enc_op (Delete k) = ucast keyTypeDel # len_bytes k"

definition op_size :: "batch_op \<Rightarrow> int" where
  "op_size a = int (length (op_key a)) + int (length (op_value a)) + 8"

text \<open>Lengths that \<open>MaxVarintLen32\<close> bytes can hold; longer ones would not fit a 5-byte varint.\<close>

definition op_short :: "batch_op \<Rightarrow> bool" where
  "op_short a \<longleftrightarrow> length (op_key a) < 2 ^ 35 \<and> length (op_value a) < 2 ^ 35"

fun index_at :: "nat \<Rightarrow> batch_op \<Rightarrow> batch_index" where
  "index_at p (Put k v) =
     \<lparr>bi_keyType = keyTypeVal,
      bi_keyPos = int (p + 1 + length (put_uvarint (of_nat (length k)))), bi_keyLen = int (length k),
      bi_valuePos = int (p + 1 + length (len_bytes k) + length (put_uvarint (of_nat (length v)))),
      bi_valueLen = int (length v)\<rparr>"
| "index_at p (Delete k) =
     \<lparr>bi_keyType = keyTypeDel,
      bi_keyPos = int (p + 1 + length (put_uvarint (of_nat (length k)))), bi_keyLen = int (length k),
      bi_valuePos = 0, bi_valueLen = 0\<rparr>"

fun indices_from :: "nat \<Rightarrow> batch_op list \<Rightarrow> batch_index list" where
  "indices_from p [] = []"
| "indices_from p (a # as) = index_at p a # indices_from (p + length (enc_op a)) as"

definition enc_ops :: "batch_op list \<Rightarrow> byte list" where
  "enc_ops as = concat (map enc_op as)"

lemma enc_ops_simps [simp]:
  "enc_ops [] = []" "enc_ops (a # as) = enc_op a @ enc_ops as" "enc_ops (as @ bs) = enc_ops as @ enc_ops bs"
  by (simp_all add: enc_ops_def)

text \<open>An index entry points at the key and the value of an operation inside \<open>bs\<close>.\<close>

definition points_at :: "byte list \<Rightarrow> batch_index \<Rightarrow> batch_op \<Rightarrow> bool" where
  "points_at bs ix a \<longleftrightarrow>
     bi_keyType ix = op_type a \<and>
     bi_keyLen ix = int (length (op_key a)) \<and> bi_valueLen ix = int (length (op_value a)) \<and>
     sub_bytes bs (bi_keyPos ix) (bi_keyPos ix + bi_keyLen ix) = Inr (op_key a) \<and>
     (bi_valueLen ix \<noteq> 0 \<longrightarrow>
        sub_bytes bs (bi_valuePos ix) (bi_valuePos ix + bi_valueLen ix) = Inr (op_value a))"

lemma sub_bytes_append: "sub_bytes xs lo hi = Inr r \<Longrightarrow> sub_bytes (xs @ ys) lo hi = Inr r"
  by (auto simp: sub_bytes_def split: if_splits)

lemma sub_bytes_shift:
  "sub_bytes xs lo hi = Inr r \<Longrightarrow> sub_bytes (ys @ xs) (lo + int (length ys)) (hi + int (length ys)) = Inr r"
  by (auto simp: sub_bytes_def nat_add_distrib split: if_splits)

lemma sub_bytes_range: "sub_bytes xs lo hi = Inr r \<Longrightarrow> 0 \<le> lo \<and> lo \<le> hi \<and> hi \<le> int (length xs)"
  by (auto simp: sub_bytes_def split: if_splits)

lemma points_at_append: "points_at bs ix a \<Longrightarrow> points_at (bs @ cs) ix a"
  by (auto simp: points_at_def sub_bytes_append)

lemma index_at_key:
  "sub_bytes (pre @ enc_op a @ post) (bi_keyPos (index_at (length pre) a))
     (bi_keyPos (index_at (length pre) a) + bi_keyLen (index_at (length pre) a)) = Inr (op_key a)"
proof (cases a)
  case (Put k v)
  have "sub_bytes ((pre @ ucast keyTypeVal # put_uvarint (of_nat (length k))) @ k @ len_bytes v @ post)
      (int (length (pre @ ucast keyTypeVal # put_uvarint (of_nat (length k)))))
      (int (length (pre @ ucast keyTypeVal # put_uvarint (of_nat (length k)))) + int (length k)) = Inr k"
    by (rule sub_bytes_middle)
  with Put show ?thesis by (simp add: len_bytes_def)
next
  case (Delete k)
  have "sub_bytes ((pre @ ucast keyTypeDel # put_uvarint (of_nat (length k))) @ k @ post)
      (int (length (pre @ ucast keyTypeDel # put_uvarint (of_nat (length k)))))
      (int (length (pre @ ucast keyTypeDel # put_uvarint (of_nat (length k)))) + int (length k)) = Inr k"
    by (rule sub_bytes_middle)
  with Delete show ?thesis by (simp add: len_bytes_def)
qed

lemma index_at_value:
  "sub_bytes (pre @ enc_op (Put k v) @ post) (bi_valuePos (index_at (length pre) (Put k v)))
     (bi_valuePos (index_at (length pre) (Put k v)) + int (length v)) = Inr v"
proof -
  let ?front = "pre @ ucast keyTypeVal # len_bytes k @ put_uvarint (of_nat (length v))"
  have "sub_bytes (?front @ v @ post) (int (length ?front)) (int (length ?front) + int (length v)) = Inr v"
    by (rule sub_bytes_middle)
  then show ?thesis by (simp add: len_bytes_def add.assoc)
qed

lemma points_at_index_at: "points_at (pre @ enc_op a @ post) (index_at (length pre) a) a"
  using index_at_key [of pre a post] index_at_value [of pre _ _ post]
  by (cases a) (auto simp: points_at_def)

lemma points_at_indices:
  "list_all2 (points_at (pre @ enc_ops as @ post)) (indices_from (length pre) as) as"
proof (induction as arbitrary: pre)
  case Nil
  show ?case by simp
next
  case (Cons a as)
  have "points_at (pre @ enc_op a @ enc_ops as @ post) (index_at (length pre) a) a"
    by (rule points_at_index_at)
  with Cons [of "pre @ enc_op a"] show ?case by simp
qed

subsection \<open>What a batch represents\<close>

text \<open>
  Everything a batch is used for: its bytes are the encoding of the operations, each index
  entry points into them, and \<open>internalLen\<close> is the sum it is documented to be.  The bound
  keeps every position and the sum inside an \<open>int\<close>.
\<close>

definition batch_repr :: "batch \<Rightarrow> batch_op list \<Rightarrow> bool" where
  "batch_repr b as \<longleftrightarrow>
     slice_ok (b_data b) \<and> content (b_data b) = enc_ops as \<and> length (enc_ops as) < 2 ^ 60 \<and>
     list_all2 (points_at (enc_ops as)) (b_index b) as \<and>
     b_internalLen b = sum_list (map op_size as) \<and> list_all op_short as"

definition append_op :: "batch_op \<Rightarrow> batch \<Rightarrow> go_panic + batch" where
  "append_op a b = (case a of Put k v \<Rightarrow> batch_Put k v b | Delete k \<Rightarrow> batch_Delete k b)"

fun append_ops :: "batch_op list \<Rightarrow> batch \<Rightarrow> go_panic + batch" where
  "append_ops [] b = Inr b"
| "append_ops (a # as) b = bind_go (append_op a b) (append_ops as)"

lemma len_varint:
  assumes "n < 2 ^ 35"
  shows "length (put_uvarint (of_nat n)) \<le> 5"
proof -
  have "unat (of_nat n :: u64) = n"
    using assms by (simp add: unsigned_of_nat take_bit_nat_eq_self)
  with assms length_put_uvarint [of "of_nat n" 4] show ?thesis by simp
qed

lemma put_uvarint_pos: "1 \<le> length (put_uvarint x)"
  by (simp add: Suc_le_eq)

lemma op_size_le: "op_size a \<le> 4 * int (length (enc_op a))" and op_size_pos: "8 \<le> op_size a"
  using put_uvarint_pos [of "of_nat (length (op_key a))"] put_uvarint_pos [of "of_nat (length (op_value a))"]
  by (cases a; simp add: op_size_def len_bytes_def)+

lemma sum_op_size:
  "0 \<le> sum_list (map op_size as) \<and> sum_list (map op_size as) \<le> 4 * int (length (enc_ops as))"
proof (induction as)
  case (Cons a as)
  then show ?case using op_size_le [of a] op_size_pos [of a] by simp
qed simp

subsection \<open>Building\<close>

lemma batch_grow_ok:
  assumes "slice_ok (b_data b)"
  shows "slice_ok (b_data (batch_grow n b))" and "content (b_data (batch_grow n b)) = content (b_data b)"
    and "s_len (b_data (batch_grow n b)) = s_len (b_data b)"
    and "s_len (b_data b) + n \<le> s_cap (b_data (batch_grow n b))"
    and "b_index (batch_grow n b) = b_index b" and "b_internalLen (batch_grow n b) = b_internalLen b"
  using assms length_content [OF assms]
  by (auto simp: batch_grow_def Let_def slice_ok_def s_cap_def content_def overwrite_def min_def)

lemma put_uvarint_at_fits:
  "p + length (put_uvarint x) \<le> lim \<Longrightarrow>
   put_uvarint_at arr lim p x = Inr (overwrite arr p (put_uvarint x), length (put_uvarint x))"
  by (simp add: put_uvarint_at_def)

lemma copy_at_fits:
  "p + length xs \<le> lim \<Longrightarrow> copy_at arr lim p xs = (overwrite arr p xs, length xs)"
  by (simp add: copy_at_def)

lemma extend_prefix:
  "take p arr = pre \<Longrightarrow> p + length xs \<le> length arr \<Longrightarrow>
   take (p + length xs) (overwrite arr p xs) = pre @ xs"
  by (simp add: take_overwrite)

text \<open>The two shapes of \<open>appendRec\<close>, with every write in its place.\<close>

lemma appendRec_Delete:
  assumes ok: "slice_ok (b_data b)" and short: "length k < 2 ^ 35"
  shows "\<exists>b'. appendRec keyTypeDel k [] b = Inr b' \<and> slice_ok (b_data b') \<and>
    content (b_data b') = content (b_data b) @ enc_op (Delete k) \<and>
    b_index b' = b_index b @ [index_at (s_len (b_data b)) (Delete k)] \<and>
    b_internalLen b' = wrap64 (b_internalLen b + int (length k) + 8)"
proof -
  let ?n = "1 + MaxVarintLen32 + length k"
  let ?b1 = "batch_grow ?n b"
  let ?p = "s_len (b_data b)"
  let ?U = "put_uvarint (of_nat (length k))"
  define arr where "arr = s_arr (b_data ?b1)"
  define arr1 where "arr1 = overwrite arr ?p [ucast keyTypeDel]"
  define arr2 where "arr2 = overwrite arr1 (?p + 1) ?U"
  define arr3 where "arr3 = overwrite arr2 (?p + 1 + length ?U) k"
  note g = batch_grow_ok [OF ok, of ?n]
  have U: "length ?U \<le> 5" using short by (rule len_varint)
  have cap: "?p + ?n \<le> length arr" using g(4) by (simp add: arr_def s_cap_def)
  have L: "length arr1 = length arr" "length arr2 = length arr" "length arr3 = length arr"
    using cap U by (simp_all add: arr1_def arr2_def arr3_def MaxVarintLen32_def)
  have t: "take ?p arr = content (b_data b)" using g(2,3) by (simp add: content_def arr_def)
  have t1: "take (?p + 1) arr1 = content (b_data b) @ [ucast keyTypeDel]"
    using extend_prefix [OF t, of "[ucast keyTypeDel]"] cap by (simp add: arr1_def)
  have t2: "take (?p + 1 + length ?U) arr2 = (content (b_data b) @ [ucast keyTypeDel]) @ ?U"
    unfolding arr2_def by (rule extend_prefix [OF t1]) (use cap U L in \<open>simp add: MaxVarintLen32_def\<close>)
  have t3: "take (?p + 1 + length ?U + length k) arr3 = ((content (b_data b) @ [ucast keyTypeDel]) @ ?U) @ k"
    unfolding arr3_def by (rule extend_prefix [OF t2]) (use cap U L in \<open>simp add: MaxVarintLen32_def\<close>)
  have "put_uvarint_at arr1 (?p + ?n) (?p + 1) (of_nat (length k)) = Inr (arr2, length ?U)"
    using U by (simp add: put_uvarint_at_fits arr2_def MaxVarintLen32_def)
  moreover have "copy_at arr2 (?p + ?n) (?p + 1 + length ?U) k = (arr3, length k)"
    unfolding arr3_def by (rule copy_at_fits) (use U in \<open>simp add: MaxVarintLen32_def\<close>)
  ultimately have run: "appendRec keyTypeDel k [] b = Inr (?b1\<lparr>
      b_data := \<lparr>s_arr = arr3, s_len = ?p + 1 + length ?U + length k\<rparr>,
      b_index := b_index ?b1 @ [index_at ?p (Delete k)],
      b_internalLen := wrap64 (b_internalLen ?b1 + int (length k) + 8)\<rparr>)"
    using g(3,4) by (simp add: appendRec_def Let_def key_type_defs arr1_def arr_def zero_index_def)
  have "slice_ok \<lparr>s_arr = arr3, s_len = ?p + 1 + length ?U + length k\<rparr>"
    using cap U L by (simp add: slice_ok_def s_cap_def MaxVarintLen32_def)
  with run t3 g(5,6) show ?thesis
    by (simp add: content_def len_bytes_def add.assoc)
qed

lemma appendRec_Put:
  assumes ok: "slice_ok (b_data b)" and short: "length k < 2 ^ 35" "length v < 2 ^ 35"
  shows "\<exists>b'. appendRec keyTypeVal k v b = Inr b' \<and> slice_ok (b_data b') \<and>
    content (b_data b') = content (b_data b) @ enc_op (Put k v) \<and>
    b_index b' = b_index b @ [index_at (s_len (b_data b)) (Put k v)] \<and>
    b_internalLen b' = wrap64 (b_internalLen b + int (length k) + int (length v) + 8)"
proof -
  let ?n = "1 + MaxVarintLen32 + length k + (MaxVarintLen32 + length v)"
  let ?b1 = "batch_grow ?n b"
  let ?p = "s_len (b_data b)"
  let ?U = "put_uvarint (of_nat (length k))"
  let ?V = "put_uvarint (of_nat (length v))"
  define arr where "arr = s_arr (b_data ?b1)"
  define arr1 where "arr1 = overwrite arr ?p [ucast keyTypeVal]"
  define arr2 where "arr2 = overwrite arr1 (?p + 1) ?U"
  define arr3 where "arr3 = overwrite arr2 (?p + 1 + length ?U) k"
  define arr4 where "arr4 = overwrite arr3 (?p + 1 + length ?U + length k) ?V"
  define arr5 where "arr5 = overwrite arr4 (?p + 1 + length ?U + length k + length ?V) v"
  note defs = arr1_def arr2_def arr3_def arr4_def arr5_def MaxVarintLen32_def
  note g = batch_grow_ok [OF ok, of ?n]
  have UV: "length ?U \<le> 5" "length ?V \<le> 5" using short by (simp_all add: len_varint)
  have cap: "?p + ?n \<le> length arr" using g(4) by (simp add: arr_def s_cap_def)
  have L: "length arr1 = length arr" "length arr2 = length arr" "length arr3 = length arr"
    "length arr4 = length arr" "length arr5 = length arr"
    using cap UV by (simp_all add: defs)
  note fit = cap UV L MaxVarintLen32_def
  have t: "take ?p arr = content (b_data b)" using g(2,3) by (simp add: content_def arr_def)
  have "take (?p + 1) arr1 = content (b_data b) @ [ucast keyTypeVal]"
    using extend_prefix [OF t, of "[ucast keyTypeVal]"] cap by (simp add: arr1_def)
  from extend_prefix [OF this, of ?U]
  have "take (?p + 1 + length ?U) arr2 = (content (b_data b) @ [ucast keyTypeVal]) @ ?U"
    using fit by (simp add: arr2_def)
  from extend_prefix [OF this, of k] have "take (?p + 1 + length ?U + length k) arr3 =
      ((content (b_data b) @ [ucast keyTypeVal]) @ ?U) @ k"
    using fit by (simp add: arr3_def)
  from extend_prefix [OF this, of ?V] have "take (?p + 1 + length ?U + length k + length ?V) arr4 =
      (((content (b_data b) @ [ucast keyTypeVal]) @ ?U) @ k) @ ?V"
    using fit by (simp add: arr4_def)
  from extend_prefix [OF this, of v] have t5: "take (?p + 1 + length ?U + length k + length ?V + length v) arr5 =
      ((((content (b_data b) @ [ucast keyTypeVal]) @ ?U) @ k) @ ?V) @ v"
    using fit by (simp add: arr5_def)
  have "put_uvarint_at arr1 (?p + ?n) (?p + 1) (of_nat (length k)) = Inr (arr2, length ?U)"
    and "copy_at arr2 (?p + ?n) (?p + 1 + length ?U) k = (arr3, length k)"
    and "put_uvarint_at arr3 (?p + ?n) (?p + 1 + length ?U + length k) (of_nat (length v)) = Inr (arr4, length ?V)"
    and "copy_at arr4 (?p + ?n) (?p + 1 + length ?U + length k + length ?V) v = (arr5, length v)"
    using UV by (simp_all add: put_uvarint_at_fits copy_at_fits defs)
  then have run: "appendRec keyTypeVal k v b = Inr (?b1\<lparr>
      b_data := \<lparr>s_arr = arr5, s_len = ?p + 1 + length ?U + length k + length ?V + length v\<rparr>,
      b_index := b_index ?b1 @ [index_at ?p (Put k v)],
      b_internalLen := wrap64 (b_internalLen ?b1 + int (length k) + int (length v) + 8)\<rparr>)"
    using g(3,4) by (simp add: appendRec_def Let_def arr1_def arr_def zero_index_def add.assoc len_bytes_def)
  have "slice_ok \<lparr>s_arr = arr5, s_len = ?p + 1 + length ?U + length k + length ?V + length v\<rparr>"
    using fit by (simp add: slice_ok_def s_cap_def)
  with run t5 g(5,6) show ?thesis
    by (simp add: content_def len_bytes_def add.assoc)
qed

lemma append_op_correct:
  assumes repr: "batch_repr b as" and short: "op_short a"
    and room: "length (enc_ops as) + length (enc_op a) < 2 ^ 60"
  shows "\<exists>b'. append_op a b = Inr b' \<and> batch_repr b' (as @ [a])"
proof -
  let ?p = "s_len (b_data b)"
  have ok: "slice_ok (b_data b)" using repr by (simp add: batch_repr_def)
  have p: "?p = length (enc_ops as)"
    using repr length_content [OF ok] by (simp add: batch_repr_def)
  have "\<exists>b'. append_op a b = Inr b' \<and> slice_ok (b_data b') \<and>
      content (b_data b') = content (b_data b) @ enc_op a \<and>
      b_index b' = b_index b @ [index_at ?p a] \<and>
      b_internalLen b' = wrap64 (b_internalLen b + op_size a)"
    using appendRec_Put [OF ok] appendRec_Delete [OF ok] short
    by (cases a) (fastforce simp: append_op_def batch_Put_def batch_Delete_def op_short_def op_size_def add.assoc)+
  moreover have "wrap64 (b_internalLen b + op_size a) = b_internalLen b + op_size a"
    using repr sum_op_size [of as] op_size_le [of a] op_size_pos [of a] room
    by (intro wrap64_nonneg) (auto simp: batch_repr_def)
  moreover have "points_at (enc_ops as @ enc_op a) (index_at ?p a) a"
    using points_at_index_at [of "enc_ops as" a "[]"] p by simp
  ultimately show ?thesis
    using repr short room
    by (auto simp: batch_repr_def list_all2_appendI intro!: list_all2_appendI
        elim!: list_all2_mono intro: points_at_append)
qed

lemma newBatch_repr: "batch_repr newBatch []"
  by (simp add: batch_repr_def newBatch_def slice_simps)

lemma MakeBatch_repr: "batch_repr (MakeBatch n) []"
  by (simp add: batch_repr_def MakeBatch_def make_slice_def slice_ok_def content_def)

lemma batch_Reset_repr: "batch_repr (batch_Reset b) []"
  by (simp add: batch_repr_def batch_Reset_def slice_ok_def content_def)

lemma batch_Len_repr: "batch_repr b as \<Longrightarrow> batch_Len b = length as"
  by (auto simp: batch_repr_def batch_Len_def dest: list_all2_lengthD)

lemma append_ops_correct:
  assumes "batch_repr b as" and "list_all op_short bs" and "length (enc_ops (as @ bs)) < 2 ^ 60"
  shows "\<exists>b'. append_ops bs b = Inr b' \<and> batch_repr b' (as @ bs)"
  using assms
proof (induction bs arbitrary: b as)
  case (Cons a bs)
  then obtain b1 where "append_op a b = Inr b1" "batch_repr b1 (as @ [a])"
    using append_op_correct [of b as a] by auto
  with Cons.IH [of b1 "as @ [a]"] Cons.prems show ?case by simp
qed simp

subsection \<open>Replay\<close>

lemma index_k_points:
  assumes "slice_ok d" and "content d = bs" and "length bs < 2 ^ 63" and "points_at bs ix a"
  shows "index_k ix d = Inr (op_key a)" and "index_v ix d = Inr (op_value a)"
proof -
  have arr: "s_arr d = bs @ drop (s_len d) (s_arr d)"
    using assms(2) by (auto simp: content_def)
  note pt = assms(4) [unfolded points_at_def]
  have "sub_bytes (s_arr d) (bi_keyPos ix) (bi_keyPos ix + bi_keyLen ix) = Inr (op_key a)"
    by (subst arr, rule sub_bytes_append) (use pt in blast)
  moreover have "wrap64 (bi_keyPos ix + bi_keyLen ix) = bi_keyPos ix + bi_keyLen ix"
    using pt sub_bytes_range [of bs "bi_keyPos ix"] assms(3) by (intro wrap64_nonneg) fastforce+
  ultimately show "index_k ix d = Inr (op_key a)" by (simp add: index_k_def)
  show "index_v ix d = Inr (op_value a)"
  proof (cases "bi_valueLen ix = 0")
    case True
    with pt show ?thesis by (simp add: index_v_def)
  next
    case False
    with pt have "sub_bytes bs (bi_valuePos ix) (bi_valuePos ix + bi_valueLen ix) = Inr (op_value a)"
      by blast
    note sub = this
    have "sub_bytes (s_arr d) (bi_valuePos ix) (bi_valuePos ix + bi_valueLen ix) = Inr (op_value a)"
      by (subst arr, rule sub_bytes_append, rule sub)
    moreover have "wrap64 (bi_valuePos ix + bi_valueLen ix) = bi_valuePos ix + bi_valueLen ix"
      using sub_bytes_range [OF sub] assms(3) by (intro wrap64_nonneg) auto
    ultimately have "sub_bytes (s_arr d) (bi_valuePos ix) (wrap64 (bi_valuePos ix + bi_valueLen ix))
        = Inr (op_value a)" by simp
    with False show ?thesis by (simp add: index_v_def)
  qed
qed

lemma replay_loop_points:
  assumes "slice_ok d" and "content d = bs" and "length bs < 2 ^ 63"
    and "list_all2 (points_at bs) ixs as"
  shows "replay_loop d ixs = Inr as"
  using assms(4)
proof (induction rule: list_all2_induct)
  case (Cons ix ixs a as)
  note kv = index_k_points [OF assms(1-3) Cons.hyps(1)]
  from Cons.hyps(1) have "bi_keyType ix = op_type a" by (simp add: points_at_def)
  with kv Cons.IH show ?case by (cases a) (simp_all add: key_type_defs)
qed simp

lemma batch_Replay_repr: "batch_repr b as \<Longrightarrow> batch_Replay b = Inr as"
  unfolding batch_Replay_def batch_repr_def
  by (rule replay_loop_points [where bs = "enc_ops as"]) auto

subsection \<open>Appending one batch to another\<close>

lemma append_bytes_ok:
  assumes "slice_ok s"
  shows "slice_ok (append_bytes s xs)" and "content (append_bytes s xs) = content s @ xs"
  using assms take_overwrite [of "s_len s" xs "s_arr s"]
  by (auto simp: append_bytes_def slice_simps) (auto simp: slice_ok_def s_cap_def content_def)

lemma points_at_shift:
  assumes "points_at bs ix a" and "length bs + length pre < 2 ^ 63"
  shows "points_at (pre @ bs) (shift_index (int (length pre)) ix) a"
proof -
  have shift: "sub_bytes (pre @ bs) (wrap64 (lo + int (length pre)))
      (wrap64 (lo + int (length pre)) + n) = Inr r" if "sub_bytes bs lo (lo + n) = Inr r" for lo n r
  proof -
    from sub_bytes_range [OF that] assms(2)
    have "wrap64 (lo + int (length pre)) = lo + int (length pre)" by (intro wrap64_nonneg) auto
    with sub_bytes_shift [OF that, of pre] show ?thesis by (simp add: algebra_simps)
  qed
  from assms(1) show ?thesis
    by (auto simp: points_at_def shift_index_def Let_def intro!: shift)
qed

lemma batch_append_repr:
  assumes b: "batch_repr b as" and p: "batch_repr p bs"
    and room: "length (enc_ops as) + length (enc_ops bs) < 2 ^ 60"
  shows "batch_repr (batch_append b p) (as @ bs)"
proof -
  let ?ob = "s_len (b_data b)"
  have ok: "slice_ok (b_data b)" and ob: "?ob = length (enc_ops as)"
    using b length_content [of "b_data b"] by (auto simp: batch_repr_def)
  have "list_all2 (points_at (enc_ops as @ enc_ops bs))
      (if ?ob \<noteq> 0 then map (shift_index (int ?ob)) (b_index p) else b_index p) bs"
  proof (cases "?ob = 0")
    case True
    with ob have "enc_ops as = []" by simp
    with p True show ?thesis by (simp add: batch_repr_def)
  next
    case False
    with p ob room show ?thesis
      by (auto simp: batch_repr_def list_all2_map1 elim!: list_all2_mono intro!: points_at_shift)
  qed
  moreover have "list_all2 (points_at (enc_ops as @ enc_ops bs)) (b_index b) as"
    using b by (auto simp: batch_repr_def elim!: list_all2_mono intro: points_at_append)
  moreover have "wrap64 (b_internalLen b + b_internalLen p) = b_internalLen b + b_internalLen p"
    using b p sum_op_size [of as] sum_op_size [of bs] room
    by (intro wrap64_nonneg) (auto simp: batch_repr_def)
  ultimately show ?thesis
    using b p room append_bytes_ok [OF ok, of "content (b_data p)"]
    by (auto simp: batch_repr_def batch_append_def Let_def intro!: list_all2_appendI)
qed

subsection \<open>Properties\<close>

text \<open>
  C21: A batch built from a list of \<open>Put\<close>s and \<open>Delete\<close>s replays exactly these calls in order;
  \<open>Len\<close> counts them, \<open>internalLen\<close> is the size of the internal keys and values they stand
  for, and \<open>Dump\<close> is the concatenation of the encoded records.
\<close>

theorem batch_build_replay:
  assumes "list_all op_short as" and "length (enc_ops as) < 2 ^ 60"
  shows "\<exists>b. append_ops as (MakeBatch n) = Inr b \<and> batch_Replay b = Inr as \<and> batch_Len b = length as \<and>
    b_internalLen b = sum_list (map op_size as) \<and> content (batch_Dump b) = enc_ops as"
proof -
  obtain b where run: "append_ops as (MakeBatch n) = Inr b" and repr: "batch_repr b as"
    using append_ops_correct [OF MakeBatch_repr, of as] assms by auto
  then have "b_internalLen b = sum_list (map op_size as)" "content (batch_Dump b) = enc_ops as"
    by (simp_all add: batch_repr_def batch_Dump_def)
  with run batch_Replay_repr [OF repr] batch_Len_repr [OF repr] show ?thesis by blast
qed

lemma batch_build_replay_witness:
  "\<exists>b. append_ops [Put [1] [2, 3], Delete [1], Put [] []] (MakeBatch 4) = Inr b \<and>
    batch_Replay b = Inr [Put [1] [2, 3], Delete [1], Put [] []] \<and>
    batch_Len b = length [Put [1] [2, 3], Delete [1], Put [] []] \<and>
    b_internalLen b = sum_list (map op_size [Put [1] [2, 3], Delete [1], Put [] []]) \<and>
    content (batch_Dump b) = enc_ops [Put [1] [2, 3], Delete [1], Put [] []]"
  by (rule batch_build_replay) (simp_all add: op_short_def len_bytes_def put_uvarint_short)

text \<open>
  C20: Appending a batch to another gives the batch of both lists of operations: the shifted
  index entries still point at the right keys and values, and replay yields the first
  list followed by the second.
\<close>

theorem batch_append_replay:
  assumes "append_ops as newBatch = Inr b" and "append_ops bs newBatch = Inr p"
    and "list_all op_short (as @ bs)" and "length (enc_ops (as @ bs)) < 2 ^ 60"
  shows "batch_Replay (batch_append b p) = Inr (as @ bs) \<and>
    batch_Len (batch_append b p) = length as + length bs \<and>
    b_internalLen (batch_append b p) = b_internalLen b + b_internalLen p"
proof -
  have as: "batch_repr b as" and bs: "batch_repr p bs"
    using append_ops_correct [OF newBatch_repr, of as] append_ops_correct [OF newBatch_repr, of bs] assms
    by auto
  have "batch_repr (batch_append b p) (as @ bs)"
    by (rule batch_append_repr [OF as bs]) (use assms(4) in simp)
  with as bs batch_Replay_repr [OF this] batch_Len_repr [OF this] show ?thesis
    by (simp add: batch_repr_def)
qed

lemma batch_append_replay_witness:
  "\<exists>b p. append_ops [Put [1] [2]] newBatch = Inr b \<and> append_ops [Delete [7]] newBatch = Inr p \<and>
    batch_Replay (batch_append b p) = Inr ([Put [1] [2]] @ [Delete [7]])"
proof -
  obtain b where b: "append_ops [Put [1] [2]] newBatch = Inr b"
    using append_ops_correct [OF newBatch_repr, of "[Put [1] [2]]"] by (auto simp: op_short_def len_bytes_def put_uvarint_short)
  obtain p where p: "append_ops [Delete [7]] newBatch = Inr p"
    using append_ops_correct [OF newBatch_repr, of "[Delete [7]]"] by (auto simp: op_short_def len_bytes_def put_uvarint_short)
  have "batch_Replay (batch_append b p) = Inr ([Put [1] [2]] @ [Delete [7]])"
    using batch_append_replay [OF b p] by (simp add: op_short_def len_bytes_def put_uvarint_short)
  with b p show ?thesis by blast
qed

end
