(* ===== verification/Batch_Decode.thy ===== *)
theory Batch_Decode
  imports Batch_Correct
begin

text \<open>
  Decoding of batches: what was encoded is decoded back, decoding stops and stays in
  bounds when every length field is below \<open>2 ^ 62\<close>, and an eleven-byte input on which
  the decoder never stops.
\<close>

subsection \<open>Round trip\<close>

lemma ucast_key_type [simp]:
  "ucast (ucast keyTypeVal :: byte) = keyTypeVal" "ucast (ucast keyTypeDel :: byte) = keyTypeDel"
  "\<not> keyTypeVal < keyTypeDel" "keyTypeDel \<noteq> keyTypeVal" "keyTypeVal \<noteq> keyTypeDel"
  by (simp_all add: key_type_defs)

lemma int_of_u64_len: "length xs < 2 ^ 60 \<Longrightarrow> int_of_u64 (of_nat (length xs)) = int (length xs)"
  by (rule int_of_u64_of_nat) simp

text \<open>One turn of the loop, with every intermediate value named.\<close>

lemma decode_step_Del:
  assumes "0 \<le> p" and "p < int (length data)" and "ucast (data ! nat p) = keyTypeDel"
    and "uvarint (drop (nat (p + 1)) data) = (x, n)" and "0 < n" and "wrap64 (p + 1 + n) = kp"
    and "int_of_u64 x = kl" and "wrap64 (kp + kl) = ke" and "ke \<le> int (length data)"
  shows "decode_loop (Suc fuel) data fn i p ix s =
    (case fn i \<lparr>bi_keyType = keyTypeDel, bi_keyPos = kp, bi_keyLen = kl, bi_valuePos = 0, bi_valueLen = 0\<rparr> s of
       (s', Some e) \<Rightarrow> Some (Inr (s', Some e))
     | (s', None) \<Rightarrow> decode_loop fuel data fn (i + 1) ke
         \<lparr>bi_keyType = keyTypeDel, bi_keyPos = kp, bi_keyLen = kl, bi_valuePos = 0, bi_valueLen = 0\<rparr> s')"
  using assms by (cases ix) (simp add: decode_loop.simps(2) Let_def)

lemma decode_step_Val:
  assumes "0 \<le> p" and "p < int (length data)" and "ucast (data ! nat p) = keyTypeVal"
    and "uvarint (drop (nat (p + 1)) data) = (x, n)" and "0 < n" and "wrap64 (p + 1 + n) = kp"
    and "int_of_u64 x = kl" and "wrap64 (kp + kl) = ke" and "0 \<le> ke" and "ke \<le> int (length data)"
    and "uvarint (drop (nat ke) data) = (y, m)" and "0 < m" and "wrap64 (ke + m) = vp"
    and "int_of_u64 y = vl" and "wrap64 (vp + vl) = ve" and "ve \<le> int (length data)"
  shows "decode_loop (Suc fuel) data fn i p ix s =
    (case fn i \<lparr>bi_keyType = keyTypeVal, bi_keyPos = kp, bi_keyLen = kl, bi_valuePos = vp, bi_valueLen = vl\<rparr> s of
       (s', Some e) \<Rightarrow> Some (Inr (s', Some e))
     | (s', None) \<Rightarrow> decode_loop fuel data fn (i + 1) ve
         \<lparr>bi_keyType = keyTypeVal, bi_keyPos = kp, bi_keyLen = kl, bi_valuePos = vp, bi_valueLen = vl\<rparr> s')"
  using assms by (cases ix) (simp add: decode_loop.simps(2) Let_def)

lemma uvarint_len_bytes:
  "uvarint (len_bytes xs @ post) = (of_nat (length xs), int (length (put_uvarint (of_nat (length xs)))))"
  by (simp add: len_bytes_def uvarint_put)

lemma drop_nat_append: "n = int (length xs) \<Longrightarrow> drop (nat n) (xs @ ys) = ys"
  by simp

lemma decode_step_enc:
  assumes "length (pre @ enc_op a @ post) < 2 ^ 60"
  shows "decode_loop (Suc fuel) (pre @ enc_op a @ post) fn i (int (length pre)) ix s =
    (case fn i (index_at (length pre) a) s of
       (s', Some e) \<Rightarrow> Some (Inr (s', Some e))
     | (s', None) \<Rightarrow> decode_loop fuel (pre @ enc_op a @ post) fn (i + 1)
         (int (length pre + length (enc_op a))) (index_at (length pre) a) s')"
proof (cases a)
  case (Delete k)
  let ?U = "put_uvarint (of_nat (length k))"
  let ?p = "int (length pre)"
  have "drop (nat (?p + 1)) ((pre @ [ucast keyTypeDel]) @ len_bytes k @ post) = len_bytes k @ post"
    by (rule drop_nat_append) simp
  with assms Delete show ?thesis
    by (subst decode_step_Del [where x = "of_nat (length k)" and n = "int (length ?U)"
          and kp = "?p + 1 + int (length ?U)" and kl = "int (length k)"
          and ke = "?p + 1 + int (length ?U) + int (length k)"])
      (auto simp: uvarint_put int_of_u64_len nth_append len_bytes_def ac_simps intro!: wrap64_nonneg)
next
  case (Put k v)
  let ?U = "put_uvarint (of_nat (length k))"
  let ?V = "put_uvarint (of_nat (length v))"
  let ?p = "int (length pre)"
  have "drop (nat (?p + 1)) ((pre @ [ucast keyTypeVal]) @ len_bytes k @ len_bytes v @ post)
      = len_bytes k @ len_bytes v @ post"
    by (rule drop_nat_append) simp
  moreover have "drop (nat (?p + 1 + int (length (len_bytes k))))
      ((pre @ ucast keyTypeVal # len_bytes k) @ len_bytes v @ post) = len_bytes v @ post"
    by (rule drop_nat_append) simp
  ultimately show ?thesis
    using assms Put
    by (subst decode_step_Val [where x = "of_nat (length k)" and n = "int (length ?U)"
          and kp = "?p + 1 + int (length ?U)" and kl = "int (length k)"
          and ke = "?p + 1 + int (length (len_bytes k))"
          and y = "of_nat (length v)" and m = "int (length ?V)"
          and vp = "?p + 1 + int (length (len_bytes k)) + int (length ?V)" and vl = "int (length v)"
          and ve = "?p + 1 + int (length (len_bytes k)) + int (length ?V) + int (length v)"])
      (auto simp: uvarint_put int_of_u64_len nth_append len_bytes_def ac_simps intro!: wrap64_nonneg)
qed

lemma enc_op_nonempty: "0 < length (enc_op a)"
  by (cases a) simp_all

lemma length_enc_ops: "length as \<le> length (enc_ops as)"
proof (induction as)
  case (Cons a as)
  then show ?case using enc_op_nonempty [of a] by (simp del: length_greater_0_conv)
qed simp

text \<open>
  Decoding an encoded list of operations with one unit of fuel more than there are
  operations: the callback has seen exactly the index entries of the operations.
\<close>

lemma decode_loop_enc:
  assumes "length (pre @ enc_ops as) < 2 ^ 60" and "length as < fuel"
    and "0 \<le> b_internalLen b" and "b_internalLen b + sum_list (map op_size as) < 2 ^ 63"
  shows "decode_loop fuel (pre @ enc_ops as) record_index i (int (length pre)) ix b =
    Some (Inr (b\<lparr>b_index := b_index b @ indices_from (length pre) as,
                 b_internalLen := b_internalLen b + sum_list (map op_size as)\<rparr>, None))"
  using assms
proof (induction as arbitrary: pre fuel i ix b)
  case Nil
  then obtain f where "fuel = Suc f" by (cases fuel) auto
  then show ?case by (simp add: decode_loop.simps(2))
next
  case (Cons a as)
  obtain f where fuel: "fuel = Suc f" using Cons.prems(2) by (cases fuel) auto
  let ?b1 = "b\<lparr>b_index := b_index b @ [index_at (length pre) a],
      b_internalLen := b_internalLen b + op_size a\<rparr>"
  have size: "b_internalLen b + bi_keyLen (index_at (length pre) a) + bi_valueLen (index_at (length pre) a) + 8
      = b_internalLen b + op_size a"
    by (cases a) (simp_all add: op_size_def)
  have w: "wrap64 (b_internalLen b + op_size a) = b_internalLen b + op_size a"
    using Cons.prems(3,4) op_size_pos [of a] sum_op_size [of as] by (intro wrap64_nonneg) auto
  have call: "record_index i (index_at (length pre) a) b = (?b1, None)"
    by (simp add: record_index_def size w)
  have "decode_loop f ((pre @ enc_op a) @ enc_ops as) record_index (i + 1)
      (int (length (pre @ enc_op a))) (index_at (length pre) a) ?b1 =
    Some (Inr (?b1\<lparr>b_index := b_index ?b1 @ indices_from (length (pre @ enc_op a)) as,
                   b_internalLen := b_internalLen ?b1 + sum_list (map op_size as)\<rparr>, None))"
    by (rule Cons.IH) (use Cons.prems fuel op_size_pos [of a] in auto)
  then show ?case
    using decode_step_enc [of pre a "enc_ops as" f record_index i ix b] Cons.prems(1)
    by (simp add: fuel call add.assoc)
qed

lemma batch_Load_enc:
  assumes "slice_ok d" and "content d = enc_ops as" and "length (enc_ops as) < 2 ^ 60"
    and "list_all op_short as" and "length as < fuel"
  shows "\<exists>b'. batch_Load fuel d b = Some (Inr (b', None)) \<and> batch_repr b' as \<and> b_data b' = d"
proof -
  let ?b0 = "b\<lparr>b_data := d, b_index := [], b_internalLen := 0\<rparr>"
  let ?b1 = "?b0\<lparr>b_index := indices_from 0 as, b_internalLen := sum_list (map op_size as)\<rparr>"
  have "decode_loop fuel ([] @ enc_ops as) record_index 0 (int (length ([] :: byte list))) zero_index ?b0
      = Some (Inr (?b0\<lparr>b_index := b_index ?b0 @ indices_from (length ([] :: byte list)) as,
          b_internalLen := b_internalLen ?b0 + sum_list (map op_size as)\<rparr>, None))"
    by (rule decode_loop_enc) (use assms sum_op_size [of as] in auto)
  then have "batch_Load fuel d b = Some (Inr (?b1, None))"
    using assms(2) by (simp add: batch_Load_def batch_decode_def decodeBatch_def)
  moreover have "batch_repr ?b1 as"
    using assms points_at_indices [of "[]" as "[]"] by (simp add: batch_repr_def)
  ultimately show ?thesis by auto
qed

subsection \<open>Bounds and termination on arbitrary input\<close>

text \<open>
  No varint of the input, read at any position, is \<open>2 ^ 62\<close> or more.  The decoder trusts
  these lengths: it converts them to \<open>int\<close> and adds them to a position before it compares.
\<close>

definition lengths_small :: "byte list \<Rightarrow> bool" where
  "lengths_small data \<longleftrightarrow>
     list_all (\<lambda>p. let x = int_of_u64 (fst (uvarint (drop p data))) in 0 \<le> x \<and> x < 2 ^ 62)
       [0..<Suc (length data)]"

text \<open>An index entry whose key and value lie inside a buffer of \<open>n\<close> bytes.\<close>

definition index_in :: "int \<Rightarrow> batch_index \<Rightarrow> bool" where
  "index_in n ix \<longleftrightarrow>
     bi_keyType ix \<le> keyTypeVal \<and>
     0 \<le> bi_keyPos ix \<and> 0 \<le> bi_keyLen ix \<and> bi_keyPos ix + bi_keyLen ix \<le> n \<and>
     0 \<le> bi_valuePos ix \<and> 0 \<le> bi_valueLen ix \<and> bi_valuePos ix + bi_valueLen ix \<le> n"

lemma lengths_smallD:
  assumes "lengths_small data" and "p \<le> length data" and "uvarint (drop p data) = (x, n)"
  shows "0 \<le> int_of_u64 x \<and> int_of_u64 x < 2 ^ 62"
proof -
  have "p \<in> set [0..<Suc (length data)]" using assms(2) by auto
  with assms(1) have "let y = int_of_u64 (fst (uvarint (drop p data))) in 0 \<le> y \<and> y < 2 ^ 62"
    unfolding lengths_small_def list_all_iff by (rule bspec)
  with assms(3) show ?thesis by (simp add: Let_def)
qed

lemma uvarint_step:
  assumes "lengths_small data" and "length data < 2 ^ 62" and "0 \<le> q" and "q \<le> int (length data)"
    and "uvarint (drop (nat q) data) = (x, n)" and "0 < n"
  shows "wrap64 (q + n) = q + n" and "q + n \<le> int (length data)"
    and "wrap64 (q + n + int_of_u64 x) = q + n + int_of_u64 x" and "0 \<le> int_of_u64 x"
proof -
  have x: "0 \<le> int_of_u64 x \<and> int_of_u64 x < 2 ^ 62"
    by (rule lengths_smallD [OF assms(1) _ assms(5)]) (use assms(3,4) in simp)
  have "n \<le> int (length (drop (nat q) data))" by (rule uvarint_bound [OF assms(5)])
  then show le: "q + n \<le> int (length data)" using assms(3,4) by simp
  show "wrap64 (q + n) = q + n" using le assms(2,3,6) by (intro wrap64_nonneg) auto
  show "wrap64 (q + n + int_of_u64 x) = q + n + int_of_u64 x"
    using le x assms(2,3,6) by (intro wrap64_nonneg) auto
  show "0 \<le> int_of_u64 x" using x by simp
qed

text \<open>
  One turn of the loop on such an input: it ends the loop without a panic, or it moves
  forward and hands the callback an index entry inside the input.
\<close>

definition turn_ok :: "nat \<Rightarrow> byte list \<Rightarrow> int \<Rightarrow> int \<Rightarrow> batch_index \<Rightarrow> batch \<Rightarrow> bool" where
  "turn_ok fuel data i q ix b \<longleftrightarrow>
     (\<exists>r. decode_loop (Suc fuel) data record_index i q ix b = Some (Inr (b, r))) \<or>
     (\<exists>q' ix'. q < q' \<and> q' \<le> int (length data) \<and> index_in (int (length data)) ix' \<and>
        decode_loop (Suc fuel) data record_index i q ix b =
        decode_loop fuel data record_index (i + 1) q' ix' (fst (record_index i ix' b)))"

lemma turn_stops:
  assumes "0 \<le> q" and "q < int (length data)"
    and "uvarint (drop (nat (q + 1)) data) = (x, n)"
    and "keyTypeVal < (ucast (data ! nat q) :: key_type) \<or> n \<le> 0
      \<or> int (length data) < wrap64 (wrap64 (q + 1 + n) + int_of_u64 x)"
  shows "turn_ok fuel data i q ix b"
  using assms by (auto simp: turn_ok_def decode_loop.simps(2) Let_def)

lemma turn_Del:
  assumes q: "0 \<le> q" "q < int (length data)" and t: "ucast (data ! nat q) = keyTypeDel"
    and u: "uvarint (drop (nat (q + 1)) data) = (x, n)" "0 < n" "wrap64 (q + 1 + n) = q + 1 + n"
    and kl: "0 \<le> int_of_u64 x" "wrap64 (q + 1 + n + int_of_u64 x) = q + 1 + n + int_of_u64 x"
      "q + 1 + n + int_of_u64 x \<le> int (length data)"
  shows "turn_ok fuel data i q ix b"
proof -
  let ?ix = "\<lparr>bi_keyType = keyTypeDel, bi_keyPos = q + 1 + n, bi_keyLen = int_of_u64 x,
      bi_valuePos = 0, bi_valueLen = 0\<rparr>"
  have "index_in (int (length data)) ?ix" using q u(2) kl by (simp add: index_in_def key_type_defs)
  moreover have "decode_loop (Suc fuel) data record_index i q ix b =
      decode_loop fuel data record_index (i + 1) (q + 1 + n + int_of_u64 x) ?ix (fst (record_index i ?ix b))"
    using decode_step_Del [OF q t u refl kl(2,3), of fuel record_index i ix b] by (simp add: record_index_def)
  moreover have "q < q + 1 + n + int_of_u64 x" using u(2) kl(1) by simp
  ultimately show ?thesis using kl(3) unfolding turn_ok_def by blast
qed

lemma turn_Val:
  assumes small: "lengths_small data" "length data < 2 ^ 62"
    and q: "0 \<le> q" "q < int (length data)" and t: "ucast (data ! nat q) = keyTypeVal"
    and u: "uvarint (drop (nat (q + 1)) data) = (x, n)" "0 < n" "wrap64 (q + 1 + n) = q + 1 + n"
    and kl: "0 \<le> int_of_u64 x" "wrap64 (q + 1 + n + int_of_u64 x) = q + 1 + n + int_of_u64 x"
      "q + 1 + n + int_of_u64 x \<le> int (length data)"
  shows "turn_ok fuel data i q ix b"
proof -
  let ?ke = "q + 1 + n + int_of_u64 x"
  obtain y m where v: "uvarint (drop (nat ?ke) data) = (y, m)" by (cases "uvarint (drop (nat ?ke) data)")
  have ke: "0 \<le> ?ke" using q u(2) kl(1) by simp
  have "\<not> keyTypeVal < keyTypeVal" and nk: "\<not> ?ke < 0 \<and> \<not> int (length data) < ?ke" using ke kl(3) by auto
  show ?thesis
  proof (cases "m \<le> 0 \<or> int (length data) < wrap64 (wrap64 (?ke + m) + int_of_u64 y)")
    case True
    with q t u kl v nk show ?thesis
      by (auto simp: turn_ok_def decode_loop.simps(2) Let_def)
  next
    case False
    then have "0 < m" by simp
    note w = uvarint_step [OF small ke kl(3) v this]
    have ve: "?ke + m + int_of_u64 y \<le> int (length data)" using False w by simp
    let ?ix = "\<lparr>bi_keyType = keyTypeVal, bi_keyPos = q + 1 + n, bi_keyLen = int_of_u64 x,
        bi_valuePos = ?ke + m, bi_valueLen = int_of_u64 y\<rparr>"
    have "index_in (int (length data)) ?ix" using q u(2) kl ke ve w(4) \<open>0 < m\<close> by (simp add: index_in_def)
    moreover have "decode_loop (Suc fuel) data record_index i q ix b =
        decode_loop fuel data record_index (i + 1) (?ke + m + int_of_u64 y) ?ix (fst (record_index i ?ix b))"
      using decode_step_Val [OF q t u refl kl(2) ke kl(3) v \<open>0 < m\<close> w(1) refl w(3) ve, of fuel record_index i ix b]
      by (simp add: record_index_def)
    moreover have "q < ?ke + m + int_of_u64 y" using u(2) kl(1) w(4) \<open>0 < m\<close> by simp
    ultimately show ?thesis using ve unfolding turn_ok_def by blast
  qed
qed

lemma turn_small:
  assumes small: "lengths_small data" "length data < 2 ^ 62" and q: "0 \<le> q" "q < int (length data)"
  shows "turn_ok fuel data i q ix b"
proof -
  let ?kt = "ucast (data ! nat q) :: key_type"
  obtain x n where u: "uvarint (drop (nat (q + 1)) data) = (x, n)" by (cases "uvarint (drop (nat (q + 1)) data)")
  show ?thesis
  proof (cases "keyTypeVal < ?kt \<or> n \<le> 0 \<or> int (length data) < wrap64 (wrap64 (q + 1 + n) + int_of_u64 x)")
    case True
    then show ?thesis using turn_stops [OF q u] by blast
  next
    case False
    then have n: "0 < n" by simp
    have "0 \<le> q + 1" and "q + 1 \<le> int (length data)" using q by auto
    note k = uvarint_step [OF small this u n]
    have ke: "q + 1 + n + int_of_u64 x \<le> int (length data)" using False k by simp
    from False have "?kt = keyTypeDel \<or> ?kt = keyTypeVal" using key_type_le [of ?kt] by (auto simp: not_less)
    then show ?thesis
      using turn_Del [OF q _ u n k(1,4,3) ke] turn_Val [OF small q _ u n k(1,4,3) ke] by blast
  qed
qed

text \<open>
  The loop stops with a unit of fuel for each byte that is left, it never panics, and
  every index entry it leaves lies inside the input.
\<close>

lemma decode_loop_total:
  assumes "lengths_small data" and "length data < 2 ^ 62" and "0 \<le> q" and "q \<le> int (length data)"
    and "int (length data) - q < int fuel" and "list_all (index_in (int (length data))) (b_index b)"
  shows "\<exists>b' r. decode_loop fuel data record_index i q ix b = Some (Inr (b', r)) \<and>
    list_all (index_in (int (length data))) (b_index b') \<and> b_data b' = b_data b"
  using assms(3-)
proof (induction fuel arbitrary: q i ix b)
  case (Suc fuel)
  show ?case
  proof (cases "q < int (length data)")
    case False
    with Suc.prems show ?thesis by (simp add: decode_loop.simps(2))
  next
    case True
    from turn_small [OF assms(1,2) Suc.prems(1) True, of fuel i ix b] show ?thesis
      unfolding turn_ok_def
    proof (elim disjE exE conjE)
      fix r
      assume "decode_loop (Suc fuel) data record_index i q ix b = Some (Inr (b, r))"
      with Suc.prems show ?thesis by auto
    next
      fix q' ix'
      assume q': "q < q'" "q' \<le> int (length data)" "index_in (int (length data)) ix'"
        and eq: "decode_loop (Suc fuel) data record_index i q ix b =
          decode_loop fuel data record_index (i + 1) q' ix' (fst (record_index i ix' b))"
      have "list_all (index_in (int (length data))) (b_index (fst (record_index i ix' b)))"
        and "b_data (fst (record_index i ix' b)) = b_data b"
        using q'(3) Suc.prems(4) by (simp_all add: record_index_def)
      with Suc.IH [of q' "fst (record_index i ix' b)" "i + 1" ix'] q'(1,2) Suc.prems eq
      show ?thesis by auto
    qed
  qed
qed simp

lemma replay_loop_in:
  assumes "slice_ok d" and "s_len d < 2 ^ 62" and "list_all (index_in (int (s_len d))) ixs"
  shows "\<exists>calls. replay_loop d ixs = Inr calls"
  using assms(3)
proof (induction ixs)
  case (Cons ix ixs)
  from Cons.prems have ix: "index_in (int (s_len d)) ix" by simp
  have len: "int (s_len d) \<le> int (length (s_arr d))" using assms(1) by (simp add: slice_ok_def s_cap_def)
  have "wrap64 (bi_keyPos ix + bi_keyLen ix) = bi_keyPos ix + bi_keyLen ix"
    and "wrap64 (bi_valuePos ix + bi_valueLen ix) = bi_valuePos ix + bi_valueLen ix"
    using ix assms(2) by (auto simp: index_in_def intro!: wrap64_nonneg)
  then have "\<exists>k. index_k ix d = Inr k" and "\<exists>v. index_v ix d = Inr v"
    using ix len by (simp_all add: index_k_def index_v_def sub_bytes_def index_in_def)
  with Cons show ?case by auto
qed simp

subsection \<open>An input on which decoding does not stop\<close>

text \<open>
  One record: type 0 (a delete) and the ten-byte varint of \<open>2 ^ 64 - 11\<close>.  As an \<open>int\<close>
  that length is \<open>-11\<close>, so the check \<open>p + int(x) > len(data)\<close> passes and the position goes
  back from 11 to 0.
\<close>

definition looping_input :: "byte list" where
  "looping_input = [0, 0xF5, 0xFF, 0xFF, 0xFF, 0xFF, 0xFF, 0xFF, 0xFF, 0xFF, 0x01]"

lemma looping_varint: "uvarint (drop 1 looping_input) = (- 11, 10)"
  by (simp add: looping_input_def uvarint_def)

lemma looping_turn:
  "decode_loop (Suc fuel) looping_input fn i 0 ix s =
    (let ix' = \<lparr>bi_keyType = keyTypeDel, bi_keyPos = 11, bi_keyLen = - 11, bi_valuePos = 0, bi_valueLen = 0\<rparr>
     in case fn i ix' s of
       (s', Some e) \<Rightarrow> Some (Inr (s', Some e))
     | (s', None) \<Rightarrow> decode_loop fuel looping_input fn (i + 1) 0 ix' s')"
proof -
  have "int_of_u64 (- 11) = - 11" and "length looping_input = 11"
    by (simp_all add: int_of_u64_def looping_input_def)
  then show ?thesis
    using looping_varint
    by (subst decode_step_Del [where x = "- 11" and n = 10 and kp = 11 and kl = "- 11" and ke = 0])
      (simp_all add: wrap64_def Let_def key_type_defs looping_input_def)
qed

lemma looping_decode: "decode_loop fuel looping_input record_index i 0 ix b = None"
  by (induction fuel arbitrary: i ix b) (simp_all add: looping_turn record_index_def Let_def)

subsection \<open>Properties\<close>

text \<open>
  C2: What \<open>Dump\<close> returns for a batch of operations loads into any other batch without an
  error, and the loaded batch replays the same operations with the same \<open>Len\<close> and
  \<open>internalLen\<close>.  One unit of fuel per record and one more are enough.
\<close>

theorem batch_dump_load:
  assumes "list_all op_short as" and "length (enc_ops as) < 2 ^ 60"
    and "append_ops as newBatch = Inr b" and "length as < fuel"
  shows "\<exists>b'. batch_Load fuel (batch_Dump b) b0 = Some (Inr (b', None)) \<and> batch_Replay b' = Inr as \<and>
    batch_Len b' = batch_Len b \<and> b_internalLen b' = b_internalLen b"
proof -
  have repr: "batch_repr b as"
    using append_ops_correct [OF newBatch_repr, of as] assms by auto
  obtain b' where load: "batch_Load fuel (batch_Dump b) b0 = Some (Inr (b', None))" and repr': "batch_repr b' as"
    using batch_Load_enc [of "b_data b" as fuel b0] repr assms by (auto simp: batch_repr_def batch_Dump_def)
  from repr repr' have "b_internalLen b' = b_internalLen b" by (simp add: batch_repr_def)
  with load batch_Replay_repr [OF repr'] batch_Len_repr [OF repr] batch_Len_repr [OF repr'] show ?thesis
    by simp
qed

lemma batch_dump_load_witness:
  "\<exists>b b'. append_ops [Put [1] [2], Delete [3]] newBatch = Inr b \<and>
    batch_Load 3 (batch_Dump b) newBatch = Some (Inr (b', None)) \<and>
    batch_Replay b' = Inr [Put [1] [2], Delete [3]]"
proof -
  obtain b where b: "append_ops [Put [1] [2], Delete [3]] newBatch = Inr b"
    using append_ops_correct [OF newBatch_repr, of "[Put [1] [2], Delete [3]]"]
    by (auto simp: op_short_def len_bytes_def put_uvarint_short)
  then show ?thesis
    using batch_dump_load [OF _ _ b, of 3 newBatch] by (auto simp: op_short_def len_bytes_def put_uvarint_short)
qed

text \<open>
  C3: On any input, well-formed or not, whose varints are all below \<open>2 ^ 62\<close>, \<open>Load\<close> returns
  after at most one turn per byte, without a panic, and whatever it leaves in the index
  can be replayed without a panic.
\<close>

theorem batch_load_safe:
  assumes "lengths_small (content d)" and "slice_ok d" and "s_len d < 2 ^ 62" and "s_len d < fuel"
  shows "\<exists>b' r. batch_Load fuel d b = Some (Inr (b', r)) \<and> (\<exists>calls. batch_Replay b' = Inr calls)"
proof -
  let ?b0 = "b\<lparr>b_data := d, b_index := [], b_internalLen := 0\<rparr>"
  have len: "length (content d) = s_len d" by (rule length_content [OF assms(2)])
  obtain b' r where dec: "decode_loop fuel (content d) record_index 0 0 zero_index ?b0 = Some (Inr (b', r))"
    and ix: "list_all (index_in (int (s_len d))) (b_index b')" and data: "b_data b' = d"
    using decode_loop_total [OF assms(1), of 0 fuel ?b0 0 zero_index] assms(3,4) len by auto
  have "\<exists>calls. batch_Replay b' = Inr calls"
    using replay_loop_in [OF assms(2,3) ix] data by (simp add: batch_Replay_def)
  with dec show ?thesis
    by (cases r) (auto simp: batch_Load_def batch_decode_def decodeBatch_def)
qed

lemma batch_load_safe_witness:
  "\<exists>b' r. batch_Load 4 (slice_of [0, 1, 9]) newBatch = Some (Inr (b', r)) \<and> (\<exists>calls. batch_Replay b' = Inr calls)"
  by (rule batch_load_safe)
    (simp_all add: slice_simps, simp_all add: slice_of_def lengths_small_def uvarint_def int_of_u64_def Let_def)

text \<open>
  C4: The bound on the varints is needed: on the eleven-byte record whose key length is
  \<open>2 ^ 64 - 11\<close> no amount of fuel lets \<open>Load\<close> return; it re-reads the same record for ever.
\<close>

theorem batch_load_diverges:
  "batch_Load fuel (slice_of looping_input) b = None"
  by (simp add: batch_Load_def batch_decode_def decodeBatch_def slice_simps looping_decode)

end
