(* ===== verification/Byte_Buffer.thy ===== *)
theory Byte_Buffer
  imports Db_Errors
begin

text \<open>
  The buffer of \<open>taudb/utils/buffer.go\<close>: a slice with a read offset, growing by sliding or
  by doubling.  The abstract view is the list of unread bytes.  \<open>lim\<close> is the largest size
  the allocator serves; \<open>makeSlice\<close> turns a failed allocation into the panic
  \<open>bytes.ErrTooLarge\<close>.
\<close>

named_theorems buffer_simps "the unread bytes after each operation"

record buffer =
  buf :: slice
  buf_nil :: bool
  off :: nat

definition MinRead :: nat where "MinRead = 512"
definition bootstrap_len :: nat where "bootstrap_len = 64"

definition zero_buffer :: buffer where
  "zero_buffer = \<lparr>buf = nil_slice, buf_nil = True, off = 0\<rparr>"

text \<open>The argument is \<open>None\<close> for a nil slice.\<close>

definition NewBuffer :: "slice option \<Rightarrow> buffer" where
  "NewBuffer p = \<lparr>buf = (case p of None \<Rightarrow> nil_slice | Some s \<Rightarrow> s), buf_nil = (p = None), off = 0\<rparr>"

definition makeSlice :: "nat \<Rightarrow> nat \<Rightarrow> go_panic + byte list" where
  "makeSlice lim n = (if n \<le> lim then Inr (replicate n 0) else Inl Too_large)"

subsection \<open>Operations\<close>

definition buffer_Bytes :: "buffer \<Rightarrow> go_panic + byte list" where
  "buffer_Bytes b =
     (if off b \<le> s_len (buf b) then Inr (drop (off b) (content (buf b))) else Inl Slice_bounds)"

text \<open>\<open>String\<close> of a nil pointer (\<open>None\<close>) is a fixed text.\<close>

definition buffer_String :: "buffer option \<Rightarrow> go_panic + string" where
  "buffer_String p =
     (case p of
        None \<Rightarrow> Inr ''<nil>''
      | Some b \<Rightarrow> bind_go (buffer_Bytes b) (\<lambda>bs. Inr (map (\<lambda>c. char_of (unat c)) bs)))"

definition buffer_Len :: "buffer \<Rightarrow> int" where
  "buffer_Len b = int (s_len (buf b)) - int (off b)"

definition Truncate :: "int \<Rightarrow> buffer \<Rightarrow> go_panic + buffer" where
  "Truncate n b =
     (if n < 0 \<or> buffer_Len b < n
      then Inl (Panic_msg ''ipfsdb/util.Buffer: truncation out of range'')
      else
        let q = (if n = 0 then 0 else off b)
        in bind_go (reslice (buf b) (q + nat n)) (\<lambda>s. Inr (b\<lparr>buf := s, off := q\<rparr>)))"

definition buffer_Reset :: "buffer \<Rightarrow> go_panic + buffer" where
  "buffer_Reset b = Truncate 0 b"

text \<open>
  \<open>grow\<close> returns the index where to write.  The three ways to make room, in the order of
  the code: the bootstrap array (zero bytes, used only while \<open>buf\<close> is nil), sliding the
  unread bytes down, a new array of twice the capacity.
\<close>

definition make_room :: "nat \<Rightarrow> nat \<Rightarrow> nat \<Rightarrow> buffer \<Rightarrow> go_panic + buffer" where
  "make_room lim m n b =
     bind_go
       (if buf_nil b \<and> n \<le> bootstrap_len then Inr (replicate bootstrap_len 0)
        else if m + n \<le> s_cap (buf b) div 2
        then Inr (overwrite (s_arr (buf b)) 0 (drop (off b) (content (buf b))))
        else bind_go (makeSlice lim (2 * s_cap (buf b) + n))
               (\<lambda>arr. Inr (overwrite arr 0 (drop (off b) (content (buf b))))))
       (\<lambda>arr. Inr \<lparr>buf = \<lparr>s_arr = arr, s_len = m\<rparr>, buf_nil = False, off = 0\<rparr>)"

definition buffer_grow :: "nat \<Rightarrow> nat \<Rightarrow> buffer \<Rightarrow> go_panic + (nat \<times> buffer)" where
  "buffer_grow lim n b =
     (let m = s_len (buf b) - off b in
      bind_go (if m = 0 \<and> off b \<noteq> 0 then Truncate 0 b else Inr b) (\<lambda>b1.
      bind_go (if s_cap (buf b1) < s_len (buf b1) + n then make_room lim m n b1 else Inr b1) (\<lambda>b2.
      bind_go (reslice (buf b2) (off b2 + m + n)) (\<lambda>s.
      Inr (off b2 + m, b2\<lparr>buf := s\<rparr>)))))"

text \<open>\<open>Alloc\<close> returns the new bytes, whatever the array held there, and their index.\<close>

definition Alloc :: "nat \<Rightarrow> int \<Rightarrow> buffer \<Rightarrow> go_panic + ((nat \<times> byte list) \<times> buffer)" where
  "Alloc lim n b =
     (if n < 0 then Inl (Panic_msg ''ipfsdb/util.Buffer.Alloc: negative count'')
      else bind_go (buffer_grow lim (nat n) b)
             (\<lambda>(m, b'). Inr ((m, drop m (content (buf b'))), b')))"

definition Grow :: "nat \<Rightarrow> int \<Rightarrow> buffer \<Rightarrow> go_panic + buffer" where
  "Grow lim n b =
     (if n < 0 then Inl (Panic_msg ''ipfsdb/util.Buffer.Grow: negative count'')
      else bind_go (buffer_grow lim (nat n) b)
             (\<lambda>(m, b'). bind_go (reslice (buf b') m) (\<lambda>s. Inr (b'\<lparr>buf := s\<rparr>))))"

definition store_at :: "nat \<Rightarrow> byte list \<Rightarrow> buffer \<Rightarrow> buffer" where
  "store_at m xs b =
     b\<lparr>buf := (buf b)\<lparr>s_arr := overwrite (s_arr (buf b)) m (take (s_len (buf b) - m) xs)\<rparr>\<rparr>"

definition Write :: "nat \<Rightarrow> byte list \<Rightarrow> buffer \<Rightarrow> go_panic + ((nat \<times> go_error option) \<times> buffer)" where
  "Write lim p b =
     bind_go (buffer_grow lim (length p) b)
       (\<lambda>(m, b'). Inr ((min (s_len (buf b') - m) (length p), None), store_at m p b'))"

definition WriteByte :: "nat \<Rightarrow> byte \<Rightarrow> buffer \<Rightarrow> go_panic + buffer" where
  "WriteByte lim c b =
     bind_go (buffer_grow lim 1 b)
       (\<lambda>(m, b'). if m < s_len (buf b') then Inr (store_at m [c] b') else Inl Index_out_of_range)"

text \<open>\<open>Read\<close> into a slice of length \<open>k\<close>: the bytes copied, and the error.\<close>

definition Read :: "nat \<Rightarrow> buffer \<Rightarrow> go_panic + ((byte list \<times> go_error option) \<times> buffer)" where
  "Read k b =
     (if s_len (buf b) \<le> off b
      then bind_go (Truncate 0 b) (\<lambda>b'. Inr (([], if k = 0 then None else Some EOF), b'))
      else let xs = take k (drop (off b) (content (buf b)))
           in Inr ((xs, None), b\<lparr>off := off b + length xs\<rparr>))"

definition Next :: "int \<Rightarrow> buffer \<Rightarrow> go_panic + (byte list \<times> buffer)" where
  "Next n b =
     (let m = buffer_Len b; k = (if m < n then m else n)
      in bind_go (sub_bytes (s_arr (buf b)) (int (off b)) (int (off b) + k))
           (\<lambda>xs. Inr (xs, b\<lparr>off := nat (int (off b) + k)\<rparr>)))"

definition ReadByte :: "buffer \<Rightarrow> go_panic + ((byte \<times> go_error option) \<times> buffer)" where
  "ReadByte b =
     (if s_len (buf b) \<le> off b
      then bind_go (Truncate 0 b) (\<lambda>b'. Inr ((0, Some EOF), b'))
      else Inr ((content (buf b) ! off b, None), b\<lparr>off := Suc (off b)\<rparr>))"

fun index_byte :: "byte list \<Rightarrow> byte \<Rightarrow> nat option" where
  "index_byte [] c = None"
| "index_byte (x # xs) c = (if x = c then Some 0 else map_option Suc (index_byte xs c))"

definition readSlice :: "byte \<Rightarrow> buffer \<Rightarrow> go_panic + ((byte list \<times> go_error option) \<times> buffer)" where
  "readSlice delim b =
     bind_go (buffer_Bytes b) (\<lambda>bs.
       let (stop, err) = (case index_byte bs delim of
                            Some i \<Rightarrow> (off b + i + 1, None)
                          | None \<Rightarrow> (s_len (buf b), Some EOF))
       in Inr ((drop (off b) (take stop (content (buf b))), err), b\<lparr>off := stop\<rparr>))"

definition ReadBytes :: "byte \<Rightarrow> buffer \<Rightarrow> go_panic + ((byte list \<times> go_error option) \<times> buffer)" where
  "ReadBytes delim b = readSlice delim b"

text \<open>
  \<open>WriteTo\<close>: the writer is an interface, here the count and the error it returns for the
  bytes it is handed.
\<close>

definition WriteTo ::
  "(byte list \<Rightarrow> nat \<times> go_error option) \<Rightarrow> buffer \<Rightarrow> go_panic + ((nat \<times> go_error option) \<times> buffer)" where
  "WriteTo w b =
     (if off b < s_len (buf b)
      then
        let nBytes = s_len (buf b) - off b;
            (m, e) = w (drop (off b) (content (buf b)));
            b1 = b\<lparr>off := off b + m\<rparr>
        in if nBytes < m then Inl (Panic_msg ''ipfsdb/util.Buffer.WriteTo: invalid Write count'')
           else case e of
                  Some err \<Rightarrow> Inr ((m, Some err), b1)
                | None \<Rightarrow>
                    if m \<noteq> nBytes then Inr ((m, Some ErrShortWrite), b1)
                    else bind_go (Truncate 0 b1) (\<lambda>b2. Inr ((m, None), b2))
      else bind_go (Truncate 0 b) (\<lambda>b2. Inr ((0, None), b2)))"

text \<open>
  \<open>ReadFrom\<close>: the reader is an interface with a state \<open>'s\<close>; asked for at most \<open>k\<close> bytes it
  returns what it stored, and an error.  The loop ends with the first error, so it needs
  fuel: \<open>None\<close> is a reader that has not reported one yet.
\<close>

definition read_room :: "nat \<Rightarrow> buffer \<Rightarrow> go_panic + buffer" where
  "read_room lim b =
     (let free = s_cap (buf b) - s_len (buf b) in
      if free < MinRead
      then bind_go
             (if off b + free < MinRead then makeSlice lim (2 * s_cap (buf b) + MinRead)
              else Inr (s_arr (buf b)))
             (\<lambda>arr. Inr (b\<lparr>buf := \<lparr>s_arr = overwrite arr 0 (drop (off b) (content (buf b))),
                                 s_len = s_len (buf b) - off b\<rparr>,
                          buf_nil := False, off := 0\<rparr>))
      else Inr b)"

fun ReadFrom_loop ::
  "nat \<Rightarrow> nat \<Rightarrow> ('s \<Rightarrow> nat \<Rightarrow> (byte list \<times> go_error option) \<times> 's) \<Rightarrow> 's \<Rightarrow> nat \<Rightarrow> buffer
   \<Rightarrow> (go_panic + ((nat \<times> go_error option) \<times> buffer \<times> 's)) option" where
  "ReadFrom_loop 0 lim rd s n b = None"
| "ReadFrom_loop (Suc fuel) lim rd s n b =
     (case read_room lim b of
        Inl p \<Rightarrow> Some (Inl p)
      | Inr b1 \<Rightarrow>
          let l = s_len (buf b1);
              ((xs, e), s') = rd s (s_cap (buf b1) - l)
          in case reslice (buf b1) (l + length xs) of
               Inl p \<Rightarrow> Some (Inl p)
             | Inr sl \<Rightarrow>
                 let b2 = b1\<lparr>buf := sl\<lparr>s_arr := overwrite (s_arr sl) l xs\<rparr>\<rparr>; n' = n + length xs
                 in case e of
                      Some EOF \<Rightarrow> Some (Inr ((n', None), b2, s'))
                    | Some err \<Rightarrow> Some (Inr ((n', Some err), b2, s'))
                    | None \<Rightarrow> ReadFrom_loop fuel lim rd s' n' b2)"

definition ReadFrom ::
  "nat \<Rightarrow> nat \<Rightarrow> ('s \<Rightarrow> nat \<Rightarrow> (byte list \<times> go_error option) \<times> 's) \<Rightarrow> 's \<Rightarrow> buffer
   \<Rightarrow> (go_panic + ((nat \<times> go_error option) \<times> buffer \<times> 's)) option" where
  "ReadFrom fuel lim rd s b =
     (case (if s_len (buf b) \<le> off b then Truncate 0 b else Inr b) of
        Inl p \<Rightarrow> Some (Inl p)
      | Inr b1 \<Rightarrow> ReadFrom_loop fuel lim rd s 0 b1)"

subsection \<open>Invariant and abstraction\<close>

definition buffer_ok :: "buffer \<Rightarrow> bool" where
  "buffer_ok b \<longleftrightarrow>
     slice_ok (buf b) \<and> off b \<le> s_len (buf b) \<and> (buf_nil b \<longrightarrow> s_cap (buf b) = 0)"

definition unread :: "buffer \<Rightarrow> byte list" where
  "unread b = drop (off b) (content (buf b))"

lemma length_unread: "buffer_ok b \<Longrightarrow> length (unread b) = s_len (buf b) - off b"
  by (simp add: buffer_ok_def unread_def length_content)

lemma buffer_ok_zero [simp]: "buffer_ok zero_buffer" and unread_zero [simp]: "unread zero_buffer = []"
  by (simp_all add: buffer_ok_def unread_def zero_buffer_def slice_ok_def nil_slice_def s_cap_def content_def)

lemma buffer_ok_New: "slice_ok s \<Longrightarrow> buffer_ok (NewBuffer (Some s))"
  and unread_New: "unread (NewBuffer (Some s)) = content s"
  and NewBuffer_nil: "NewBuffer None = zero_buffer"
  by (simp_all add: buffer_ok_def unread_def NewBuffer_def zero_buffer_def)

lemma Truncate_ok:
  assumes "buffer_ok b" and "0 \<le> n" and "n \<le> int (length (unread b))"
  obtains b' where "Truncate n b = Inr b'" and "buffer_ok b'" and "unread b' = take (nat n) (unread b)"
    and "s_arr (buf b') = s_arr (buf b)" and "buf_nil b' = buf_nil b" and "n = 0 \<Longrightarrow> off b' = 0"
proof -
  let ?q = "if n = 0 then 0 else off b"
  let ?b' = "b\<lparr>buf := (buf b)\<lparr>s_len := ?q + nat n\<rparr>, off := ?q\<rparr>"
  have le: "off b + nat n \<le> s_len (buf b)" and cap: "s_len (buf b) \<le> s_cap (buf b)"
    using assms length_unread [OF assms(1)] by (auto simp: buffer_ok_def slice_ok_def)
  then have "Truncate n b = Inr ?b'"
    using assms length_unread [OF assms(1)]
    by (auto simp: Truncate_def buffer_Len_def reslice_def Let_def buffer_ok_def)
  moreover have "buffer_ok ?b'"
    using assms(1) le cap by (auto simp: buffer_ok_def slice_ok_def s_cap_def)
  moreover have "unread ?b' = take (nat n) (unread b)"
    using le by (auto simp: unread_def content_def drop_take min_def)
  ultimately show thesis using that by simp
qed

text \<open>Making room keeps the unread bytes and moves them to the front.\<close>

lemma make_room_ok:
  assumes ok: "buffer_ok b" and m: "m = length (unread b)" and run: "make_room lim m n b = Inr b'"
  shows "buffer_ok b'" and "unread b' = unread b" and "off b' = 0" and "s_len (buf b') = m"
    and "m + n \<le> s_cap (buf b')"
proof -
  have le: "m \<le> s_cap (buf b)"
    using m length_unread [OF ok] ok by (auto simp: buffer_ok_def slice_ok_def)
  have front: "take m (overwrite arr 0 (unread b)) = unread b" if "m \<le> length arr" for arr
    using that take_overwrite [of 0 "unread b" arr] m by simp
  from run obtain arr where b': "b' = \<lparr>buf = \<lparr>s_arr = arr, s_len = m\<rparr>, buf_nil = False, off = 0\<rparr>"
    and arr: "(buf_nil b \<and> n \<le> bootstrap_len \<and> arr = replicate bootstrap_len 0) \<or>
      (m + n \<le> s_cap (buf b) div 2 \<and> arr = overwrite (s_arr (buf b)) 0 (unread b)) \<or>
      arr = overwrite (replicate (2 * s_cap (buf b) + n) 0) 0 (unread b)"
    by (auto simp: make_room_def bind_go_Inr_iff makeSlice_def unread_def split: if_splits)
  have "m + n \<le> length arr \<and> take m arr = unread b"
    using arr le front [of "s_arr (buf b)"] front [of "replicate (2 * s_cap (buf b) + n) 0"] ok m
    by (auto simp: buffer_ok_def s_cap_def)
  then show "buffer_ok b'" "unread b' = unread b" "off b' = 0" "s_len (buf b') = m"
    "m + n \<le> s_cap (buf b')"
    using b' by (simp_all add: buffer_ok_def slice_ok_def s_cap_def unread_def content_def)
qed

lemma make_room_total:
  assumes "2 * s_cap (buf b) + n \<le> lim"
  shows "\<exists>b'. make_room lim m n b = Inr b'"
  using assms by (simp add: make_room_def makeSlice_def)

lemma make_room_panic: "make_room lim m n b = Inl p \<Longrightarrow> p = Too_large \<and> lim < 2 * s_cap (buf b) + n"
  by (auto simp: make_room_def makeSlice_def split: if_splits)

definition grown :: "nat \<Rightarrow> buffer \<Rightarrow> nat \<Rightarrow> buffer \<Rightarrow> bool" where
  "grown n b m b' \<longleftrightarrow>
     buffer_ok b' \<and> off b' \<le> m \<and> s_len (buf b') = m + n \<and>
     drop (off b') (take m (s_arr (buf b'))) = unread b"

lemma grow_reset:
  assumes "buffer_ok b"
  obtains b1 where "(if s_len (buf b) - off b = 0 \<and> off b \<noteq> 0 then Truncate 0 b else Inr b) = Inr b1"
    and "buffer_ok b1" and "unread b1 = unread b" and "s_arr (buf b1) = s_arr (buf b)"
proof (cases "s_len (buf b) - off b = 0 \<and> off b \<noteq> 0")
  case True
  then have "unread b = []" using length_unread [OF assms] by simp
  with True Truncate_ok [OF assms, of 0] show thesis using that by auto
next
  case False
  then have "(if s_len (buf b) - off b = 0 \<and> off b \<noteq> 0 then Truncate 0 b else Inr b) = Inr b"
    by (simp only: if_False)
  then show thesis using that [of b] assms by blast
qed

lemma buffer_grow_correct:
  assumes ok: "buffer_ok b"
  shows "(\<exists>m b'. buffer_grow lim n b = Inr (m, b') \<and> grown n b m b') \<or>
    (buffer_grow lim n b = Inl Too_large \<and> lim < 2 * s_cap (buf b) + n)"
proof -
  let ?m = "s_len (buf b) - off b"
  obtain b1 where b1: "(if ?m = 0 \<and> off b \<noteq> 0 then Truncate 0 b else Inr b) = Inr b1"
    and ok1: "buffer_ok b1" and un1: "unread b1 = unread b" and arr1: "s_arr (buf b1) = s_arr (buf b)"
    using grow_reset [OF ok] by blast
  have m: "?m = length (unread b1)" using length_unread [OF ok] un1 by simp
  have len1: "off b1 + ?m = s_len (buf b1)" using m length_unread [OF ok1] ok1 by (simp add: buffer_ok_def)
  have finish: "\<exists>m b'. bind_go (reslice (buf b2) (off b2 + ?m + n))
        (\<lambda>s. Inr (off b2 + ?m, b2\<lparr>buf := s\<rparr>)) = Inr (m, b') \<and> grown n b m b'"
    if "buffer_ok b2" "unread b2 = unread b" "off b2 + ?m = s_len (buf b2)" "off b2 + ?m + n \<le> s_cap (buf b2)"
      "n = 0 \<or> \<not> buf_nil b2 \<or> s_cap (buf b2) = 0" for b2
    using that by (auto simp: reslice_def grown_def buffer_ok_def slice_ok_def s_cap_def unread_def content_def)
  show ?thesis
  proof (cases "s_cap (buf b1) < s_len (buf b1) + n")
    case False
    with finish [of b1] ok1 un1 len1 b1 show ?thesis
      by (simp add: buffer_grow_def buffer_ok_def)
  next
    case True
    show ?thesis
    proof (cases "make_room lim ?m n b1")
      case (Inl p)
      with True b1 arr1 show ?thesis
        using make_room_panic [OF Inl] by (simp add: buffer_grow_def s_cap_def)
    next
      case (Inr b2)
      note room = make_room_ok [OF ok1 m Inr]
      then have "\<exists>m b'. bind_go (reslice (buf b2) (off b2 + ?m + n))
          (\<lambda>s. Inr (off b2 + ?m, b2\<lparr>buf := s\<rparr>)) = Inr (m, b') \<and> grown n b m b'"
        using un1 Inr by (intro finish) (auto simp: make_room_def bind_go_Inr_iff)
      with True b1 Inr show ?thesis by (simp add: buffer_grow_def Let_def)
    qed
  qed
qed

subsection \<open>What each operation does to the unread bytes\<close>

lemma buffer_grow_cases:
  assumes "buffer_ok b"
  obtains m b' where "buffer_grow lim n b = Inr (m, b')" and "grown n b m b'"
  | "buffer_grow lim n b = Inl Too_large" and "lim < 2 * s_cap (buf b) + n"
  using buffer_grow_correct [OF assms, of lim n] by blast

lemma store_grown:
  assumes "grown (length p) b m b'"
  shows "buffer_ok (store_at m p b')" and "unread (store_at m p b') = unread b @ p"
    and "s_len (buf b') - m = length p"
proof -
  from assms have ok: "buffer_ok b'" and le: "off b' \<le> m" and len: "s_len (buf b') = m + length p"
    and un: "drop (off b') (take m (s_arr (buf b'))) = unread b"
    by (simp_all add: grown_def)
  have fits: "m + length p \<le> length (s_arr (buf b'))"
    using ok len by (simp add: buffer_ok_def slice_ok_def s_cap_def)
  then have "s_cap (buf (store_at m p b')) = s_cap (buf b')"
    by (simp add: store_at_def s_cap_def)
  then show "buffer_ok (store_at m p b')"
    using ok len le by (simp add: buffer_ok_def slice_ok_def) (simp add: store_at_def)
  show "unread (store_at m p b') = unread b @ p"
    using fits le len un by (simp add: unread_def store_at_def content_def drop_overwrite_below)
  show "s_len (buf b') - m = length p" using len by simp
qed

lemma Write_cases:
  assumes "buffer_ok b"
  shows "(\<exists>b'. Write lim p b = Inr ((length p, None), b') \<and> buffer_ok b' \<and> unread b' = unread b @ p) \<or>
    (Write lim p b = Inl Too_large \<and> lim < 2 * s_cap (buf b) + length p)"
proof (cases rule: buffer_grow_cases [OF assms, of lim "length p"])
  case (1 m b')
  with store_grown [OF 1(2)] show ?thesis by (simp add: Write_def)
qed (simp add: Write_def)

lemma WriteByte_cases:
  assumes "buffer_ok b"
  shows "(\<exists>b'. WriteByte lim c b = Inr b' \<and> buffer_ok b' \<and> unread b' = unread b @ [c]) \<or>
    (WriteByte lim c b = Inl Too_large \<and> lim < 2 * s_cap (buf b) + 1)"
proof (cases rule: buffer_grow_cases [OF assms, of lim 1])
  case (1 m b')
  with store_grown [of "[c]" b m b'] show ?thesis by (auto simp: WriteByte_def grown_def)
qed (simp add: WriteByte_def)

lemma drop_split: "i \<le> m \<Longrightarrow> m \<le> length xs \<Longrightarrow> drop i xs = drop i (take m xs) @ drop m xs"
  using drop_append [of i "take m xs" "drop m xs"] by simp

lemma Alloc_cases:
  assumes "buffer_ok b"
  shows "(\<exists>m xs b'. Alloc lim (int n) b = Inr ((m, xs), b') \<and> buffer_ok b' \<and> length xs = n \<and>
      unread b' = unread b @ xs) \<or>
    (Alloc lim (int n) b = Inl Too_large \<and> lim < 2 * s_cap (buf b) + n)"
proof (cases rule: buffer_grow_cases [OF assms, of lim n])
  case (1 m b')
  then have ok: "buffer_ok b'" and le: "off b' \<le> m" and len: "s_len (buf b') = m + n"
    and un: "drop (off b') (take m (s_arr (buf b'))) = unread b"
    by (simp_all add: grown_def)
  from ok len have "length (content (buf b')) = m + n"
    by (simp add: buffer_ok_def length_content)
  moreover from len have "take m (content (buf b')) = take m (s_arr (buf b'))"
    by (simp add: content_def min_def)
  ultimately have "length (drop m (content (buf b'))) = n"
    and "unread b' = unread b @ drop m (content (buf b'))"
    using drop_split [OF le, of "content (buf b')"] un by (simp_all add: unread_def)
  with 1(1) ok show ?thesis by (simp add: Alloc_def)
qed (simp add: Alloc_def)

lemma Grow_cases:
  assumes "buffer_ok b"
  shows "(\<exists>b'. Grow lim (int n) b = Inr b' \<and> buffer_ok b' \<and> unread b' = unread b \<and>
      s_len (buf b') + n \<le> s_cap (buf b')) \<or>
    (Grow lim (int n) b = Inl Too_large \<and> lim < 2 * s_cap (buf b) + n)"
proof (cases rule: buffer_grow_cases [OF assms, of lim n])
  case (1 m b')
  then show ?thesis
    by (auto simp: Grow_def grown_def reslice_def buffer_ok_def slice_ok_def s_cap_def unread_def content_def)
qed (simp add: Grow_def)

lemma Truncate_zero:
  assumes "buffer_ok b"
  obtains b' where "Truncate 0 b = Inr b'" and "buffer_ok b'" and "unread b' = []"
    and "s_arr (buf b') = s_arr (buf b)"
  using Truncate_ok [OF assms, of 0] by auto

lemma advance_ok:
  assumes "buffer_ok b" and "k \<le> length (unread b)"
  shows "buffer_ok (b\<lparr>off := off b + k\<rparr>)" and "unread (b\<lparr>off := off b + k\<rparr>) = drop k (unread b)"
  using assms length_unread [OF assms(1)]
  by (auto simp: buffer_ok_def unread_def add.commute)

lemma empty_iff: "buffer_ok b \<Longrightarrow> s_len (buf b) \<le> off b \<longleftrightarrow> unread b = []"
  using length_unread [of b] by (auto simp: buffer_ok_def)

lemma Read_correct:
  assumes ok: "buffer_ok b"
  shows "\<exists>b'. Read k b = Inr ((take k (unread b), if unread b = [] \<and> 0 < k then Some EOF else None), b') \<and>
    buffer_ok b' \<and> unread b' = drop k (unread b) \<and> s_arr (buf b') = s_arr (buf b)"
proof (cases "unread b = []")
  case True
  with ok show ?thesis
    by (rule_tac Truncate_zero [OF ok]) (simp add: Read_def empty_iff)
next
  case False
  then have "Read k b = Inr ((take k (unread b), None), b\<lparr>off := off b + length (take k (unread b))\<rparr>)"
    using empty_iff [OF ok] by (simp add: Read_def unread_def Let_def)
  moreover have "drop (length (take k (unread b))) (unread b) = drop k (unread b)"
    by (simp add: min_def)
  ultimately show ?thesis
    using False advance_ok [OF ok, of "length (take k (unread b))"] by simp
qed

lemma Next_correct:
  assumes ok: "buffer_ok b"
  shows "\<exists>b'. Next (int n) b = Inr (take n (unread b), b') \<and> buffer_ok b' \<and> unread b' = drop n (unread b)"
proof -
  let ?k = "min n (length (unread b))"
  have len: "buffer_Len b = int (length (unread b))"
    using length_unread [OF ok] ok by (auto simp: buffer_Len_def buffer_ok_def)
  have "off b + length (unread b) \<le> length (s_arr (buf b))"
    using length_unread [OF ok] ok by (auto simp: buffer_ok_def slice_ok_def s_cap_def)
  moreover have "take ?k (drop (off b) (s_arr (buf b))) = take n (unread b)"
    using length_unread [OF ok] ok by (simp add: unread_def content_def drop_take min_def)
  ultimately have "Next (int n) b = Inr (take n (unread b), b\<lparr>off := off b + ?k\<rparr>)"
    by (auto simp: Next_def len sub_bytes_def Let_def min_def nat_int_add)
  with advance_ok [OF ok, of ?k] show ?thesis by (auto simp: min_def)
qed

lemma ReadByte_correct:
  assumes ok: "buffer_ok b"
  shows "\<exists>b'. ReadByte b = Inr (case unread b of [] \<Rightarrow> ((0, Some EOF), b') | c # cs \<Rightarrow> ((c, None), b')) \<and>
    buffer_ok b' \<and> unread b' = tl (unread b)"
proof (cases "unread b = []")
  case True
  with ok show ?thesis
    by (rule_tac Truncate_zero [OF ok]) (simp add: ReadByte_def empty_iff)
next
  case False
  then have "content (buf b) ! off b = hd (unread b)"
    by (simp add: unread_def hd_drop_conv_nth)
  with False have "ReadByte b = Inr ((hd (unread b), None), b\<lparr>off := off b + 1\<rparr>)"
    using empty_iff [OF ok] by (simp add: ReadByte_def)
  moreover obtain c cs where "unread b = c # cs" using False by (auto simp: neq_Nil_conv)
  ultimately show ?thesis using advance_ok [OF ok, of 1] by simp
qed

lemma index_byte_Some: "index_byte xs c = Some i \<Longrightarrow> i < length xs \<and> xs ! i = c \<and> c \<notin> set (take i xs)"
  by (induction xs c arbitrary: i rule: index_byte.induct) (auto split: if_splits)

lemma index_byte_None: "index_byte xs c = None \<longleftrightarrow> c \<notin> set xs"
  by (induction xs c rule: index_byte.induct) auto

definition line_length :: "byte \<Rightarrow> byte list \<Rightarrow> nat" where
  "line_length c xs = (case index_byte xs c of Some i \<Rightarrow> Suc i | None \<Rightarrow> length xs)"

lemma line_length_le: "line_length c xs \<le> length xs"
  by (auto simp: line_length_def Suc_le_eq dest: index_byte_Some split: option.split)

lemma ReadBytes_correct:
  fixes c :: byte
  assumes ok: "buffer_ok b"
  defines "k \<equiv> line_length c (unread b)"
  shows "\<exists>b'. ReadBytes c b = Inr ((take k (unread b), if c \<in> set (unread b) then None else Some EOF), b') \<and>
    buffer_ok b' \<and> unread b' = drop k (unread b)"
proof -
  have bs: "buffer_Bytes b = Inr (unread b)"
    using ok by (simp add: buffer_Bytes_def buffer_ok_def unread_def)
  have stop: "(case index_byte (unread b) c of Some i \<Rightarrow> (off b + i + 1, None) | None \<Rightarrow> (s_len (buf b), Some EOF))
      = (off b + k, if c \<in> set (unread b) then None else Some EOF)"
    using ok length_unread [OF ok] index_byte_None [of "unread b" c]
    by (auto simp: k_def line_length_def buffer_ok_def split: option.split)
  have "drop (off b) (take (off b + k) (content (buf b))) = take k (unread b)"
    by (simp add: unread_def drop_take)
  with bs stop advance_ok [OF ok line_length_le] show ?thesis
    by (simp add: ReadBytes_def readSlice_def k_def)
qed

text \<open>
  \<open>WriteTo\<close> under the contract of \<open>io.Writer\<close>: a count beyond the data is the panic of the
  code, a short count without an error becomes \<open>io.ErrShortWrite\<close>, and the bytes the writer
  did not take stay in the buffer.
\<close>

lemma WriteTo_correct:
  fixes w :: "byte list \<Rightarrow> nat \<times> go_error option"
  assumes ok: "buffer_ok b" and contract: "fst (w (unread b)) \<le> length (unread b)" and "unread b \<noteq> []"
  shows "\<exists>b'. WriteTo w b = Inr ((fst (w (unread b)),
      (case snd (w (unread b)) of
         Some e \<Rightarrow> Some e
       | None \<Rightarrow> if fst (w (unread b)) = length (unread b) then None else Some ErrShortWrite)), b') \<and>
    buffer_ok b' \<and> unread b' = drop (fst (w (unread b))) (unread b)"
proof -
  obtain m e where w: "w (unread b) = (m, e)" by (cases "w (unread b)")
  have some: "off b < s_len (buf b)" and n: "s_len (buf b) - off b = length (unread b)"
    using assms(3) empty_iff [OF ok] length_unread [OF ok] by auto
  let ?b1 = "b\<lparr>off := off b + m\<rparr>"
  note adv = advance_ok [OF ok, of m]
  have le: "m \<le> length (unread b)" using contract w by simp
  have eq: "WriteTo w b =
      (case e of Some err \<Rightarrow> Inr ((m, Some err), ?b1)
       | None \<Rightarrow> if m \<noteq> length (unread b) then Inr ((m, Some ErrShortWrite), ?b1)
           else bind_go (Truncate 0 ?b1) (\<lambda>b2. Inr ((m, None), b2)))"
    using some n w le by (simp add: WriteTo_def unread_def Let_def)
  obtain b2 where "Truncate 0 ?b1 = Inr b2" "buffer_ok b2" "unread b2 = []"
    using Truncate_zero [OF adv(1) [OF le]] by blast
  then show ?thesis
    using eq adv le w by (cases e) auto
qed

lemma WriteTo_empty:
  assumes ok: "buffer_ok b" and "unread b = []"
  shows "\<exists>b'. WriteTo w b = Inr ((0, None), b') \<and> buffer_ok b' \<and> unread b' = []"
proof -
  have "\<not> off b < s_len (buf b)" using assms(2) empty_iff [OF ok] by linarith
  moreover obtain b' where "Truncate 0 b = Inr b'" "buffer_ok b'" "unread b' = []"
    using Truncate_zero [OF ok] by blast
  ultimately show ?thesis by (simp add: WriteTo_def)
qed

subsection \<open>Reading a whole stream\<close>

lemma moved_ok:
  assumes "length xs + k \<le> length arr"
    and "b' = b\<lparr>buf := \<lparr>s_arr = overwrite arr 0 xs, s_len = length xs\<rparr>, buf_nil := False, off := 0\<rparr>"
  shows "buffer_ok b'" and "unread b' = xs" and "s_len (buf b') + k \<le> s_cap (buf b')"
  using assms take_overwrite [of 0 xs arr]
  by (simp_all add: buffer_ok_def slice_ok_def s_cap_def unread_def content_def)

lemma read_room_cases:
  assumes ok: "buffer_ok b"
  shows "(\<exists>b'. read_room lim b = Inr b' \<and> buffer_ok b' \<and> unread b' = unread b \<and>
      s_len (buf b') + MinRead \<le> s_cap (buf b')) \<or>
    (read_room lim b = Inl Too_large \<and> lim < 2 * s_cap (buf b) + MinRead)"
proof -
  let ?free = "s_cap (buf b) - s_len (buf b)"
  have len: "length (unread b) = s_len (buf b) - off b" using length_unread [OF ok] .
  have cap: "off b \<le> s_len (buf b)" "s_len (buf b) \<le> s_cap (buf b)"
    using ok by (auto simp: buffer_ok_def slice_ok_def)
  let ?moved = "\<lambda>arr. b\<lparr>buf := \<lparr>s_arr = overwrite arr 0 (unread b), s_len = s_len (buf b) - off b\<rparr>,
             buf_nil := False, off := 0\<rparr>"
  have move: "buffer_ok (?moved arr) \<and> unread (?moved arr) = unread b \<and>
      s_len (buf (?moved arr)) + MinRead \<le> s_cap (buf (?moved arr))"
    if "length (unread b) + MinRead \<le> length arr" for arr
    using moved_ok [OF that, of _ b] unfolding len by blast
  consider "MinRead \<le> ?free" | "?free < MinRead" "off b + ?free < MinRead"
    | "?free < MinRead" "MinRead \<le> off b + ?free" by linarith
  then show ?thesis
  proof cases
    case 1
    with ok cap show ?thesis by (simp add: read_room_def Let_def)
  next
    case 2
    let ?arr = "replicate (2 * s_cap (buf b) + MinRead) (0 :: byte)"
    have "read_room lim b =
        (if 2 * s_cap (buf b) + MinRead \<le> lim then Inr (?moved ?arr) else Inl Too_large)"
      using 2 by (simp add: read_room_def Let_def makeSlice_def unread_def)
    moreover have "length (unread b) + MinRead \<le> length ?arr"
      using len cap by simp
    ultimately show ?thesis
      using move [of ?arr] by (cases "2 * s_cap (buf b) + MinRead \<le> lim") (simp_all only: if_True if_False not_le, blast+)
  next
    case 3
    then have "read_room lim b = Inr (?moved (s_arr (buf b)))"
      by (simp add: read_room_def Let_def unread_def)
    moreover have "length (unread b) + MinRead \<le> length (s_arr (buf b))"
      using 3 len cap by (simp add: s_cap_def)
    ultimately show ?thesis using move by blast
  qed
qed

text \<open>
  The interface of \<open>io.Reader\<close> as \<open>ReadFrom\<close> uses it: \<open>rest\<close> is what the reader has still to
  deliver; a call delivers a prefix of it that fits the slice, \<open>io.EOF\<close> comes only at the
  end, and a call with room that reports no error makes progress.
\<close>

locale io_reader =
  fixes rd :: "'s \<Rightarrow> nat \<Rightarrow> (byte list \<times> go_error option) \<times> 's"
    and inv :: "'s \<Rightarrow> bool"
    and rest :: "'s \<Rightarrow> byte list"
  assumes read_inv: "inv s \<Longrightarrow> rd s k = ((xs, e), s') \<Longrightarrow> inv s'"
    and read_rest: "inv s \<Longrightarrow> rd s k = ((xs, e), s') \<Longrightarrow> rest s = xs @ rest s'"
    and read_fits: "inv s \<Longrightarrow> rd s k = ((xs, e), s') \<Longrightarrow> length xs \<le> k"
    and read_eof: "inv s \<Longrightarrow> rd s k = ((xs, Some EOF), s') \<Longrightarrow> rest s' = []"
    and read_progress: "inv s \<Longrightarrow> 0 < k \<Longrightarrow> rd s k = ((xs, None), s') \<Longrightarrow> xs \<noteq> []"
begin

lemma store_read:
  assumes ok: "buffer_ok b" and fits: "s_len (buf b) + length xs \<le> s_cap (buf b)"
  shows "\<exists>sl. reslice (buf b) (s_len (buf b) + length xs) = Inr sl \<and>
    buffer_ok (b\<lparr>buf := sl\<lparr>s_arr := overwrite (s_arr sl) (s_len (buf b)) xs\<rparr>\<rparr>) \<and>
    unread (b\<lparr>buf := sl\<lparr>s_arr := overwrite (s_arr sl) (s_len (buf b)) xs\<rparr>\<rparr>) = unread b @ xs"
  using assms drop_overwrite_below [of "s_len (buf b)" xs "s_arr (buf b)" "off b"]
  by (auto simp: reslice_def buffer_ok_def slice_ok_def s_cap_def unread_def content_def overwrite_def)

lemma ReadFrom_loop_correct:
  assumes "buffer_ok b" and "inv s" and "length (rest s) < fuel"
  shows "ReadFrom_loop fuel lim rd s n b = Some (Inl Too_large) \<or>
    (\<exists>n' e b' s'. ReadFrom_loop fuel lim rd s n b = Some (Inr ((n', e), b', s')) \<and>
       buffer_ok b' \<and> inv s' \<and> n' + length (rest s') = n + length (rest s) \<and>
       unread b' @ rest s' = unread b @ rest s \<and> (e = None \<longrightarrow> rest s' = []) \<and>
       (e = None \<or> (\<exists>t k xs. inv t \<and> rd t k = ((xs, e), s'))))"
  using assms
proof (induction fuel arbitrary: b s n)
  case (Suc fuel)
  consider "read_room lim b = Inl Too_large"
    | b1 where "read_room lim b = Inr b1" "buffer_ok b1" "unread b1 = unread b"
      "s_len (buf b1) + MinRead \<le> s_cap (buf b1)"
    using read_room_cases [OF Suc.prems(1), of lim] by blast
  then show ?case
  proof cases
    case 1
    then show ?thesis by simp
  next
    case (2 b1)
    let ?k = "s_cap (buf b1) - s_len (buf b1)"
    obtain xs e s1 where rd: "rd s ?k = ((xs, e), s1)" by (metis prod.exhaust)
    have k: "0 < ?k" using 2(4) by (simp add: MinRead_def)
    note laws = read_inv [OF Suc.prems(2) rd] read_rest [OF Suc.prems(2) rd] read_fits [OF Suc.prems(2) rd]
    have "s_len (buf b1) + length xs \<le> s_cap (buf b1)" using laws(3) k by simp
    from store_read [OF 2(2) this] obtain sl
      where sl: "reslice (buf b1) (s_len (buf b1) + length xs) = Inr sl"
        and ok: "buffer_ok (b1\<lparr>buf := sl\<lparr>s_arr := overwrite (s_arr sl) (s_len (buf b1)) xs\<rparr>\<rparr>)"
        and un: "unread (b1\<lparr>buf := sl\<lparr>s_arr := overwrite (s_arr sl) (s_len (buf b1)) xs\<rparr>\<rparr>) = unread b @ xs"
      using 2(3) by auto
    let ?b2 = "b1\<lparr>buf := sl\<lparr>s_arr := overwrite (s_arr sl) (s_len (buf b1)) xs\<rparr>\<rparr>"
    have step: "ReadFrom_loop (Suc fuel) lim rd s n b =
        (case e of Some EOF \<Rightarrow> Some (Inr ((n + length xs, None), ?b2, s1))
         | Some err \<Rightarrow> Some (Inr ((n + length xs, Some err), ?b2, s1))
         | None \<Rightarrow> ReadFrom_loop fuel lim rd s1 (n + length xs) ?b2)"
      using 2(1) rd sl by (simp add: Let_def)
    show ?thesis
    proof (cases e)
      case None
      have "xs \<noteq> []" using read_progress [OF Suc.prems(2) k] rd None by simp
      then have less: "length (rest s1) < fuel" using Suc.prems(3) laws(2) by (cases xs) auto
      show ?thesis
        using Suc.IH [OF ok laws(1) less, of "n + length xs"] laws(2)
        unfolding step None option.case un by (auto simp: add.assoc)
    next
      case (Some err)
      have "err = EOF \<Longrightarrow> rest s1 = []" using read_eof [OF Suc.prems(2)] rd Some by blast
      then show ?thesis
        using step Some ok un laws rd Suc.prems(2) by (cases err) auto
    qed
  qed
qed simp

lemma ReadFrom_correct:
  assumes "buffer_ok b" and "inv s" and "length (rest s) < fuel"
  shows "ReadFrom fuel lim rd s b = Some (Inl Too_large) \<or>
    (\<exists>n e b' s'. ReadFrom fuel lim rd s b = Some (Inr ((n, e), b', s')) \<and>
       buffer_ok b' \<and> inv s' \<and> n + length (rest s') = length (rest s) \<and>
       unread b' @ rest s' = unread b @ rest s \<and> (e = None \<longrightarrow> rest s' = []) \<and>
       (e = None \<or> (\<exists>t k xs. inv t \<and> rd t k = ((xs, e), s'))))"
proof -
  obtain b1 where "(if s_len (buf b) \<le> off b then Truncate 0 b else Inr b) = Inr b1"
    and "buffer_ok b1" and "unread b1 = unread b"
    using assms(1) Truncate_zero [OF assms(1)] empty_iff [OF assms(1)] by metis
  with ReadFrom_loop_correct [OF _ assms(2,3), of b1 lim 0] show ?thesis
    by (simp add: ReadFrom_def)
qed

end

text \<open>A reader that fails only with \<open>io.EOF\<close> is read to its end.\<close>

locale clean_reader = io_reader +
  assumes read_clean: "inv s \<Longrightarrow> rd s k = ((xs, e), s') \<Longrightarrow> e = None \<or> e = Some EOF"
begin

lemma clean_loop:
  "inv s \<Longrightarrow> ReadFrom_loop fuel lim rd s n b = Some (Inr ((n', e), b', s')) \<Longrightarrow> e = None"
proof (induction fuel arbitrary: s n b)
  case (Suc fuel)
  from Suc.prems(2) show ?case
    apply (auto simp: Let_def split: sum.splits prod.splits option.splits go_error.splits)
    using Suc read_clean read_inv by blast+
qed simp

lemma ReadFrom_all:
  assumes "buffer_ok b" and "inv s" and "length (rest s) < fuel"
  shows "ReadFrom fuel lim rd s b = Some (Inl Too_large) \<or>
    (\<exists>b' s'. ReadFrom fuel lim rd s b = Some (Inr ((length (rest s), None), b', s')) \<and>
       buffer_ok b' \<and> unread b' = unread b @ rest s \<and> inv s' \<and> rest s' = [])"
proof -
  have "e = None" if "ReadFrom fuel lim rd s b = Some (Inr ((n, e), b', s'))" for n e b' s'
    using that clean_loop [OF assms(2), of fuel lim 0 _ n e b' s']
    by (simp add: ReadFrom_def split: sum.splits)
  then show ?thesis using ReadFrom_correct [OF assms, of lim] by fastforce
qed

end

text \<open>The buffer is itself such a reader; a panic of \<open>Read\<close> never happens on a sound buffer.\<close>

definition buffer_reader :: "buffer \<Rightarrow> nat \<Rightarrow> (byte list \<times> go_error option) \<times> buffer" where
  "buffer_reader b k = (case Read k b of Inr r \<Rightarrow> r | Inl p \<Rightarrow> (([], None), b))"

lemma buffer_reader_eq:
  assumes "buffer_ok b"
  obtains b' where "buffer_reader b k = ((take k (unread b), if unread b = [] \<and> 0 < k then Some EOF else None), b')"
    and "buffer_ok b'" and "unread b' = drop k (unread b)"
  using Read_correct [OF assms, of k] by (auto simp: buffer_reader_def)

lemma buffer_reader_laws:
  assumes "buffer_ok b" and "buffer_reader b k = ((xs, e), b')"
  shows "buffer_ok b'" and "unread b = xs @ unread b'" and "length xs \<le> k"
    and "e = Some EOF \<Longrightarrow> unread b' = []" and "0 < k \<Longrightarrow> e = None \<Longrightarrow> xs \<noteq> []"
    and "e = None \<or> e = Some EOF"
proof -
  obtain b1 where "buffer_reader b k = ((take k (unread b), if unread b = [] \<and> 0 < k then Some EOF else None), b1)"
    and "buffer_ok b1" and "unread b1 = drop k (unread b)"
    using buffer_reader_eq [OF assms(1)] .
  with assms(2) show "buffer_ok b'" "unread b = xs @ unread b'" "length xs \<le> k"
    "e = Some EOF \<Longrightarrow> unread b' = []" "0 < k \<Longrightarrow> e = None \<Longrightarrow> xs \<noteq> []" "e = None \<or> e = Some EOF"
    by (auto split: if_splits)
qed

interpretation buffer_io: clean_reader buffer_reader buffer_ok unread
  by unfold_locales (simp_all add: buffer_reader_laws)

subsection \<open>The buffer as a queue of bytes\<close>

text \<open>
  A client that only writes and reads sees a queue.  \<open>run_queue\<close> executes a list of
  commands and collects what the reads delivered; the laws below are all it needs.
\<close>

datatype queue_cmd = Put_bytes "byte list" | Get_bytes nat

fun run_queue ::
  "(byte list \<Rightarrow> 'q \<Rightarrow> go_panic + 'q) \<Rightarrow> (nat \<Rightarrow> 'q \<Rightarrow> go_panic + (byte list \<times> 'q))
   \<Rightarrow> queue_cmd list \<Rightarrow> 'q \<Rightarrow> go_panic + (byte list \<times> 'q)" where
  "run_queue put get [] q = Inr ([], q)"
| "run_queue put get (Put_bytes xs # cs) q = bind_go (put xs q) (run_queue put get cs)"
| "run_queue put get (Get_bytes n # cs) q =
     bind_go (get n q) (\<lambda>(ys, q1). bind_go (run_queue put get cs q1) (\<lambda>(zs, q2). Inr (ys @ zs, q2)))"

fun bytes_put :: "queue_cmd list \<Rightarrow> byte list" where
  "bytes_put [] = []"
| "bytes_put (Put_bytes xs # cs) = xs @ bytes_put cs"
| "bytes_put (Get_bytes n # cs) = bytes_put cs"

locale byte_queue =
  fixes put :: "byte list \<Rightarrow> 'q \<Rightarrow> go_panic + 'q"
    and get :: "nat \<Rightarrow> 'q \<Rightarrow> go_panic + (byte list \<times> 'q)"
    and ok :: "'q \<Rightarrow> bool"
    and pending :: "'q \<Rightarrow> byte list"
  assumes put_appends: "ok q \<Longrightarrow> put xs q = Inr q' \<Longrightarrow> ok q' \<and> pending q' = pending q @ xs"
    and put_panic: "ok q \<Longrightarrow> put xs q = Inl p \<Longrightarrow> p = Too_large"
    and get_takes: "ok q \<Longrightarrow> \<exists>q'. get n q = Inr (take n (pending q), q') \<and> ok q' \<and> pending q' = drop n (pending q)"
begin

lemma get_SomeE:
  assumes "ok q"
  obtains q' where "get n q = Inr (take n (pending q), q')" and "ok q'" and "pending q' = drop n (pending q)"
  using get_takes [OF assms] by blast

lemma run_queue_fifo:
  "ok q \<Longrightarrow> run_queue put get cs q = Inr (out, q') \<Longrightarrow>
   ok q' \<and> out @ pending q' = pending q @ bytes_put cs"
proof (induction cs arbitrary: q out)
  case (Cons c cs)
  show ?case
  proof (cases c)
    case (Put_bytes xs)
    with Cons.prems obtain q1 where "put xs q = Inr q1" "run_queue put get cs q1 = Inr (out, q')"
      by (auto simp: bind_go_Inr_iff)
    with Put_bytes Cons.IH [of q1 out] put_appends [OF Cons.prems(1)] show ?thesis by auto
  next
    case (Get_bytes n)
    obtain q1 where g: "get n q = Inr (take n (pending q), q1)" "ok q1" "pending q1 = drop n (pending q)"
      using get_SomeE [OF Cons.prems(1)] .
    with Get_bytes Cons.prems obtain zs where "run_queue put get cs q1 = Inr (zs, q')"
      and "out = take n (pending q) @ zs" by (auto simp: bind_go_Inr_iff)
    with Get_bytes Cons.IH [of q1 zs] g show ?thesis
      by (metis append.assoc append_take_drop_id bytes_put.simps(3))
  qed
qed simp

lemma run_queue_panic:
  "ok q \<Longrightarrow> run_queue put get cs q = Inl p \<Longrightarrow> p = Too_large"
proof (induction cs arbitrary: q)
  case (Cons c cs)
  show ?case
  proof (cases c)
    case (Put_bytes xs)
    with Cons put_appends [OF Cons.prems(1), of xs] put_panic [OF Cons.prems(1), of xs] show ?thesis
      by (cases "put xs q") auto
  next
    case (Get_bytes n)
    obtain q1 where g: "get n q = Inr (take n (pending q), q1)" "ok q1"
      using get_SomeE [OF Cons.prems(1)] .
    with Get_bytes Cons show ?thesis by (cases "run_queue put get cs q1") auto
  qed
qed simp

end

definition buffer_put :: "nat \<Rightarrow> byte list \<Rightarrow> buffer \<Rightarrow> go_panic + buffer" where
  "buffer_put lim xs b = bind_go (Write lim xs b) (\<lambda>(r, b'). Inr b')"

definition buffer_get :: "nat \<Rightarrow> buffer \<Rightarrow> go_panic + (byte list \<times> buffer)" where
  "buffer_get n b = bind_go (Read n b) (\<lambda>((xs, e), b'). Inr (xs, b'))"

interpretation buffer_queue: byte_queue "buffer_put lim" buffer_get buffer_ok unread for lim
proof unfold_locales
  fix q q' :: buffer and xs n p
  assume ok: "buffer_ok q"
  show "buffer_ok q' \<and> unread q' = unread q @ xs" if "buffer_put lim xs q = Inr q'"
    using that Write_cases [OF ok, of lim xs] by (auto simp: buffer_put_def)
  show "p = Too_large" if "buffer_put lim xs q = Inl p"
    using that Write_cases [OF ok, of lim xs] by (auto simp: buffer_put_def)
  show "\<exists>q'. buffer_get n q = Inr (take n (unread q), q') \<and> buffer_ok q' \<and> unread q' = drop n (unread q)"
    using Read_correct [OF ok, of n] by (auto simp: buffer_get_def)
qed

subsection \<open>Properties\<close>

text \<open>
  C6: Any sequence of writes and reads on a sound buffer behaves as a first-in first-out
  queue of bytes: what the reads returned, followed by what is unread at the end, is what
  was unread at the start followed by what was written; only an allocation can panic.
\<close>

theorem buffer_fifo:
  assumes "buffer_ok b"
  shows "case run_queue (buffer_put lim) buffer_get cs b of
      Inl p \<Rightarrow> p = Too_large
    | Inr (out, b') \<Rightarrow> buffer_ok b' \<and> out @ unread b' = unread b @ bytes_put cs"
  using buffer_queue.run_queue_fifo [OF assms] buffer_queue.run_queue_panic [OF assms]
  by (auto split: sum.split)

lemma buffer_fifo_witness:
  "case run_queue (buffer_put 200) buffer_get [Put_bytes [1, 2, 3], Get_bytes 2, Put_bytes [4]] zero_buffer of
      Inl p \<Rightarrow> p = Too_large
    | Inr (out, b') \<Rightarrow> buffer_ok b' \<and>
        out @ unread b' = unread zero_buffer @ bytes_put [Put_bytes [1, 2, 3], Get_bytes 2, Put_bytes [4]]"
  by (rule buffer_fifo) simp

text \<open>
  \<open>Write\<close> appends all of its argument and reports its length and no error; the only other
  outcome is the panic \<open>bytes.ErrTooLarge\<close>, and then the doubled capacity and the new bytes
  exceed what can be allocated.
\<close>

theorem buffer_write_appends:
  assumes "buffer_ok b"
  shows "(\<exists>b'. Write lim p b = Inr ((length p, None), b') \<and> buffer_ok b' \<and> unread b' = unread b @ p) \<or>
    (Write lim p b = Inl Too_large \<and> lim < 2 * s_cap (buf b) + length p)"
  by (rule Write_cases [OF assms])

lemma buffer_write_appends_witness:
  "(\<exists>b'. Write 0 [7, 8] zero_buffer = Inr ((length [7 :: byte, 8], None), b') \<and> buffer_ok b' \<and>
      unread b' = unread zero_buffer @ [7, 8]) \<or>
    (Write 0 [7, 8] zero_buffer = Inl Too_large \<and> 0 < 2 * s_cap (buf zero_buffer) + length [7 :: byte, 8])"
  by (rule buffer_write_appends) simp

text \<open>
  \<open>ReadBytes\<close> returns the unread bytes up to and including the first delimiter and leaves
  the rest; without a delimiter it returns everything with \<open>io.EOF\<close>.  It reports an error if and only
  if the line does not end in the delimiter.
\<close>

theorem buffer_read_bytes_line:
  assumes "buffer_ok b"
  shows "\<exists>line err b'. ReadBytes c b = Inr ((line, err), b') \<and> buffer_ok b' \<and>
    unread b = line @ unread b' \<and> (err = None \<or> err = Some EOF) \<and>
    (err = None) = (line \<noteq> [] \<and> last line = c) \<and> c \<notin> set (butlast line) \<and>
    (err \<noteq> None \<longrightarrow> unread b' = [])"
proof -
  let ?k = "line_length c (unread b)"
  obtain b' where b': "ReadBytes c b = Inr ((take ?k (unread b), if c \<in> set (unread b) then None else Some EOF), b')"
    "buffer_ok b'" "unread b' = drop ?k (unread b)"
    using ReadBytes_correct [OF assms] by blast
  show ?thesis
  proof (cases "index_byte (unread b) c")
    case None
    then have "?k = length (unread b)" by (simp add: line_length_def)
    moreover from None have "c \<notin> set (unread b)" by (simp add: index_byte_None)
    ultimately show ?thesis using b' by (auto dest: in_set_butlastD)
  next
    case (Some i)
    note i = index_byte_Some [OF Some]
    then have k: "?k = Suc i" and line: "take ?k (unread b) = take i (unread b) @ [c]"
      using Some by (simp_all add: line_length_def take_Suc_conv_app_nth)
    have "c \<in> set (unread b)" using i by auto
    moreover have "unread b = take ?k (unread b) @ drop ?k (unread b)" by simp
    ultimately show ?thesis using b' line i by (intro exI conjI) (auto simp: butlast_append)
  qed
qed

lemma buffer_read_bytes_line_witness:
  "\<exists>line err b'. ReadBytes 10 (NewBuffer (Some (slice_of [65, 10, 66]))) = Inr ((line, err), b') \<and> buffer_ok b' \<and>
    unread (NewBuffer (Some (slice_of [65, 10, 66]))) = line @ unread b' \<and> (err = None \<or> err = Some EOF) \<and>
    (err = None) = (line \<noteq> [] \<and> last line = 10) \<and> 10 \<notin> set (butlast line) \<and>
    (err \<noteq> None \<longrightarrow> unread b' = [])"
  by (rule buffer_read_bytes_line) (simp add: buffer_ok_New slice_simps)

text \<open>
  \<open>ReadFrom\<close> applied to another buffer returns after at most one turn per byte: it appends
  everything the source had left, reports how much that was and no error, and leaves the
  source empty, unless an allocation fails.
\<close>

theorem buffer_read_from_buffer:
  assumes "buffer_ok b" and "buffer_ok src" and "length (unread src) < fuel"
  shows "ReadFrom fuel lim buffer_reader src b = Some (Inl Too_large) \<or>
    (\<exists>b' src'. ReadFrom fuel lim buffer_reader src b = Some (Inr ((length (unread src), None), b', src')) \<and>
       buffer_ok b' \<and> unread b' = unread b @ unread src \<and> buffer_ok src' \<and> unread src' = [])"
  by (rule buffer_io.ReadFrom_all [OF assms])

lemma buffer_read_from_buffer_witness:
  "ReadFrom 3 2000 buffer_reader (NewBuffer (Some (slice_of [65, 66]))) zero_buffer = Some (Inl Too_large) \<or>
    (\<exists>b' src'. ReadFrom 3 2000 buffer_reader (NewBuffer (Some (slice_of [65, 66]))) zero_buffer =
         Some (Inr ((length (unread (NewBuffer (Some (slice_of [65, 66])))), None), b', src')) \<and>
       buffer_ok b' \<and> unread b' = unread zero_buffer @ unread (NewBuffer (Some (slice_of [65, 66]))) \<and>
       buffer_ok src' \<and> unread src' = [])"
  by (rule buffer_read_from_buffer) (simp_all add: buffer_ok_New unread_New slice_simps)

end
