(* ===== verification/Peer_Error.thy ===== *)
theory Peer_Error
  imports Go_Fmt Go_Prelude
begin

text \<open>
  Errors of the peer-to-peer layer (\<open>p2p/peer_error.go\<close> and the error variables of
  \<open>p2p/peer.go\<close> and \<open>tau/peer.go\<close>): peer errors with a code, reasons for a disconnect with
  their texts, and the reason derived from an error.
\<close>

type_synonym disc_reason = u64

definition DiscRequested :: disc_reason where "DiscRequested = 0"
definition DiscNetworkError :: disc_reason where "DiscNetworkError = 1"
definition DiscProtocolError :: disc_reason where "DiscProtocolError = 2"
definition DiscUselessPeer :: disc_reason where "DiscUselessPeer = 3"
definition DiscTooManyPeers :: disc_reason where "DiscTooManyPeers = 4"
definition DiscAlreadyConnected :: disc_reason where "DiscAlreadyConnected = 5"
definition DiscIncompatibleVersion :: disc_reason where "DiscIncompatibleVersion = 6"
definition DiscInvalidIdentity :: disc_reason where "DiscInvalidIdentity = 7"
definition DiscQuitting :: disc_reason where "DiscQuitting = 8"
definition DiscUnexpectedIdentity :: disc_reason where "DiscUnexpectedIdentity = 9"
definition DiscSelf :: disc_reason where "DiscSelf = 10"
definition DiscReadTimeout :: disc_reason where "DiscReadTimeout = 11"
definition DiscSubprotocolError :: disc_reason where "DiscSubprotocolError = 0x10"

lemmas disc_defs = DiscRequested_def DiscNetworkError_def DiscProtocolError_def DiscUselessPeer_def
  DiscTooManyPeers_def DiscAlreadyConnected_def DiscIncompatibleVersion_def DiscInvalidIdentity_def
  DiscQuitting_def DiscUnexpectedIdentity_def DiscSelf_def DiscReadTimeout_def DiscSubprotocolError_def

text \<open>The array is as long as its last index asks for; the elements between are empty strings.\<close>

definition discReasonToString :: "string list" where
  "discReasonToString =
     [''disconnect requested'', ''network error'', ''breach of protocol'', ''useless peer'',
      ''too many peers'', ''already connected'', ''incompatible p2p protocol version'',
      ''invalid node identity'', ''client quitting'', ''unexpected identity'', ''connected to self'',
      ''read timeout'', '''', '''', '''', '''', ''subprotocol error'']"

text \<open>The guard compares with \<open>int(d)\<close>, the index is the unsigned value.\<close>

definition disc_String :: "disc_reason \<Rightarrow> go_panic + string" where
  "disc_String d =
     (if int (length discReasonToString) < int_of_u64 d
      then Inr (''unknown disconnect reason '' @ dec_nat (unat d))
      else if unat d < length discReasonToString then Inr (discReasonToString ! unat d)
      else Inl Index_out_of_range)"

subsection \<open>Errors\<close>

definition errInvalidMsgTopic :: nat where "errInvalidMsgTopic = 0"
definition errInvalidMsg :: nat where "errInvalidMsg = 1"

definition errorToString :: "nat \<Rightarrow> string option" where
  "errorToString code =
     (if code = errInvalidMsgTopic then Some ''invalid message topic''
      else if code = errInvalidMsg then Some ''invalid message''
      else None)"

record peer_error =
  pe_code :: nat
  pe_message :: string

datatype p2p_error =
    Io_EOF
  | ErrShuttingDown
  | ErrReadTimeout
  | errProtocolReturned
  | Disc_reason disc_reason
  | Peer_err peer_error
  | errPeerSetClosed
  | errAlreadyRegistered
  | errNotRegistered
  | Other_error string

text \<open>\<open>detail\<close> is the formatted text, empty when the format is.\<close>

definition newPeerError :: "nat \<Rightarrow> string \<Rightarrow> go_panic + peer_error" where
  "newPeerError code detail =
     (case errorToString code of
        None \<Rightarrow> Inl (Panic_msg ''invalid error code'')
      | Some desc \<Rightarrow>
          Inr \<lparr>pe_code = code, pe_message = (if detail \<noteq> '''' then desc @ '': '' @ detail else desc)\<rparr>)"

fun p2p_error_text :: "p2p_error \<Rightarrow> go_panic + string" where
  "p2p_error_text Io_EOF = Inr ''EOF''"
| "p2p_error_text ErrShuttingDown = Inr ''shutting down''"
| "p2p_error_text ErrReadTimeout = Inr ''read timeout''"
| "p2p_error_text errProtocolReturned = Inr ''protocol returned''"
| "p2p_error_text (Disc_reason d) = disc_String d"
| "p2p_error_text (Peer_err e) = Inr (pe_message e)"
| "p2p_error_text errPeerSetClosed = Inr ''peer set is closed''"
| "p2p_error_text errAlreadyRegistered = Inr ''peer is already registered''"
| "p2p_error_text errNotRegistered = Inr ''peer is not registered''"
| "p2p_error_text (Other_error s) = Inr s"

fun is_disc_reason :: "p2p_error \<Rightarrow> bool" where
  "is_disc_reason (Disc_reason d) = True"
| "is_disc_reason e = False"

definition discReasonForError :: "p2p_error \<Rightarrow> disc_reason" where
  "discReasonForError err =
     (case err of
        Disc_reason r \<Rightarrow> r
      | errProtocolReturned \<Rightarrow> DiscQuitting
      | Peer_err e \<Rightarrow>
          (if pe_code e = errInvalidMsgTopic \<or> pe_code e = errInvalidMsg then DiscProtocolError
           else DiscSubprotocolError)
      | _ \<Rightarrow> DiscSubprotocolError)"

subsection \<open>Properties\<close>

lemma length_discReasonToString [simp]: "length discReasonToString = 17"
  by (simp add: discReasonToString_def)

lemma int_of_u64_uint:
  "int_of_u64 d = (if uint d < 2 ^ 63 then uint d else uint d - 2 ^ 64)"
proof -
  have range: "0 \<le> uint d" "uint d < 2 ^ 64" using uint_lt2p [of d] by simp_all
  have "int_of_u64 d = (uint d + 2 ^ 63) mod 2 ^ 64 - 2 ^ 63"
    by (simp add: int_of_u64_def sint_uint signed_take_bit_eq_take_bit_shift take_bit_eq_mod)
  moreover have "(uint d + 2 ^ 63) mod 2 ^ 64 = uint d + 2 ^ 63" if "uint d < 2 ^ 63"
    by (rule mod_pos_pos_trivial) (use that range in simp_all)
  moreover have "(uint d + 2 ^ 63) mod 2 ^ 64 = uint d - 2 ^ 63" if "\<not> uint d < 2 ^ 63"
  proof -
    have "(uint d + 2 ^ 63) mod 2 ^ 64 = (uint d - 2 ^ 63 + 2 ^ 64) mod 2 ^ 64"
      by (rule arg_cong [where f = "\<lambda>x. x mod 2 ^ 64"]) simp
    also have "\<dots> = (uint d - 2 ^ 63) mod 2 ^ 64" by (rule mod_add_self2)
    also have "\<dots> = uint d - 2 ^ 63" by (rule mod_pos_pos_trivial) (use that range in simp_all)
    finally show ?thesis .
  qed
  ultimately show ?thesis by simp
qed

text \<open>
  \<open>DiscReason.String\<close> panics on exactly the reason 17 and the reasons from \<open>2 ^ 63\<close> on,
  which \<open>int\<close> makes negative: the guard \<open>len < int(d)\<close> lets both reach the array access.
\<close>

theorem disc_string_panics_exactly:
  "(disc_String d = Inl Index_out_of_range) = (uint d = 17 \<or> 2 ^ 63 \<le> uint d)"
proof -
  have range: "0 \<le> uint d" "uint d < 2 ^ 64" using uint_lt2p [of d] by simp_all
  have "(unat d < 17) = (nat (uint d) < nat 17)" by (simp only: unat_eq_nat_uint) simp
  also have "\<dots> = (uint d < 17)" by (rule nat_less_eq_zless [OF range(1)])
  finally have "disc_String d = Inl Index_out_of_range \<longleftrightarrow> \<not> 17 < int_of_u64 d \<and> \<not> uint d < 17"
    unfolding disc_String_def length_discReasonToString by (simp only: split: if_split) auto
  also have "\<dots> \<longleftrightarrow> uint d = 17 \<or> 2 ^ 63 \<le> uint d"
    unfolding int_of_u64_uint using range by auto
  finally show ?thesis .
qed

text \<open>
  A reason derived from an error is one of the declared constants unless the error is
  itself a reason, so the derived reason always has a text, and protocol violations are
  told apart from other failures.
\<close>

theorem disc_reason_for_error_named:
  "(case err of
      Disc_reason r \<Rightarrow> discReasonForError err = r
    | errProtocolReturned \<Rightarrow> discReasonForError err = DiscQuitting
    | Peer_err e \<Rightarrow> discReasonForError err =
        (if errorToString (pe_code e) = None then DiscSubprotocolError else DiscProtocolError)
    | _ \<Rightarrow> discReasonForError err = DiscSubprotocolError) \<and>
   (is_disc_reason err \<or> (\<exists>text. disc_String (discReasonForError err) = Inr text \<and> text \<noteq> ''''))"
  by (cases err)
    (auto simp: discReasonForError_def errorToString_def disc_String_def disc_defs int_of_u64_uint
      discReasonToString_def)

end
