(* ===== verification/Go_Collections.thy ===== *)
theory Go_Collections
  imports Main "HOL-Library.AList" "HOL-Library.Sublist"
begin

text \<open>
  Go maps and the string functions the network code uses.  A map is an association list
  with distinct keys; its order is the order in which \<open>range\<close> visits it, which Go leaves
  open, so nothing is stated about the order of a result.
\<close>

named_theorems map_simps "lookup, keys and size after an update of a Go map"

type_synonym ('k, 'v) gomap = "('k \<times> 'v) list"

definition gm_ok :: "('k, 'v) gomap \<Rightarrow> bool" where
  "gm_ok m \<longleftrightarrow> distinct (map fst m)"

definition gm_keys :: "('k, 'v) gomap \<Rightarrow> 'k set" where
  "gm_keys m = set (map fst m)"

definition gm_get :: "('k, 'v) gomap \<Rightarrow> 'k \<Rightarrow> 'v option" where
  "gm_get m k = map_of m k"

definition gm_put :: "'k \<Rightarrow> 'v \<Rightarrow> ('k, 'v) gomap \<Rightarrow> ('k, 'v) gomap" where
  "gm_put k v m = AList.update k v m"

definition gm_del :: "'k \<Rightarrow> ('k, 'v) gomap \<Rightarrow> ('k, 'v) gomap" where
  "gm_del k m = AList.delete k m"

definition gm_len :: "('k, 'v) gomap \<Rightarrow> nat" where
  "gm_len m = length m"

lemma gm_ok_Nil [simp]: "gm_ok []" and gm_keys_Nil [simp]: "gm_keys [] = {}"
  and gm_get_Nil [simp]: "gm_get [] k = None" and gm_len_Nil [simp]: "gm_len [] = 0"
  by (simp_all add: gm_ok_def gm_keys_def gm_get_def gm_len_def)

lemma gm_get_put [map_simps]: "gm_get (gm_put k v m) k' = (if k' = k then Some v else gm_get m k')"
  by (simp add: gm_get_def gm_put_def update_conv')

lemma gm_get_del [map_simps]: "gm_get (gm_del k m) k' = (if k' = k then None else gm_get m k')"
  by (simp add: gm_get_def gm_del_def delete_conv')

lemma gm_ok_put [map_simps]: "gm_ok m \<Longrightarrow> gm_ok (gm_put k v m)"
  by (simp add: gm_ok_def gm_put_def distinct_update)

lemma gm_ok_del [map_simps]: "gm_ok m \<Longrightarrow> gm_ok (gm_del k m)"
  by (simp add: gm_ok_def gm_del_def distinct_delete)

lemma gm_keys_get: "k \<in> gm_keys m \<longleftrightarrow> gm_get m k \<noteq> None"
  by (simp add: gm_keys_def gm_get_def map_of_eq_None_iff)

lemma gm_get_None: "gm_get m k = None \<longleftrightarrow> k \<notin> gm_keys m"
  by (simp add: gm_keys_get)

lemma gm_keys_put [map_simps]: "gm_keys (gm_put k v m) = insert k (gm_keys m)"
  by (auto simp: gm_keys_get map_simps split: if_splits)

lemma gm_keys_del [map_simps]: "gm_keys (gm_del k m) = gm_keys m - {k}"
  by (auto simp: gm_keys_get map_simps split: if_splits)

lemma gm_len_keys: "gm_ok m \<Longrightarrow> gm_len m = card (gm_keys m)"
  using distinct_card [of "map fst m"] by (simp add: gm_ok_def gm_len_def gm_keys_def)

lemma finite_gm_keys [simp]: "finite (gm_keys m)"
  by (simp add: gm_keys_def)

lemma gm_len_put:
  "gm_ok m \<Longrightarrow> gm_len (gm_put k v m) = (if k \<in> gm_keys m then gm_len m else Suc (gm_len m))"
  by (simp add: gm_len_keys map_simps insert_absorb)

lemma gm_len_del:
  "gm_ok m \<Longrightarrow> gm_len (gm_del k m) = (if k \<in> gm_keys m then gm_len m - 1 else gm_len m)"
  by (simp add: gm_len_keys map_simps)

lemma gm_len_del_le: "gm_ok m \<Longrightarrow> gm_len (gm_del k m) \<le> gm_len m"
  by (simp add: gm_len_del)

lemma gm_in_set: "gm_ok m \<Longrightarrow> (k, v) \<in> set m \<longleftrightarrow> gm_get m k = Some v"
  by (simp add: gm_ok_def gm_get_def)

lemma find_append: "find P (xs @ ys) = (case find P xs of Some x \<Rightarrow> Some x | None \<Rightarrow> find P ys)"
  by (induction xs) auto

subsection \<open>Strings\<close>

definition has_prefix :: "string \<Rightarrow> string \<Rightarrow> bool" where
  "has_prefix s p \<longleftrightarrow> take (length p) s = p"

definition has_suffix :: "string \<Rightarrow> string \<Rightarrow> bool" where
  "has_suffix s t \<longleftrightarrow> length t \<le> length s \<and> drop (length s - length t) s = t"

fun str_contains :: "string \<Rightarrow> string \<Rightarrow> bool" where
  "str_contains [] t = (t = [])"
| "str_contains (c # s) t = (has_prefix (c # s) t \<or> str_contains s t)"

text \<open>\<open>strings.Split\<close> at a one-character separator.\<close>

fun split_at :: "char \<Rightarrow> string \<Rightarrow> string list" where
  "split_at d [] = [[]]"
| "split_at d (c # s) =
     (if c = d then [] # split_at d s
      else case split_at d s of [] \<Rightarrow> [[c]] | w # ws \<Rightarrow> (c # w) # ws)"

lemma has_prefix_iff: "has_prefix s p \<longleftrightarrow> prefix p s"
  by (metis append_take_drop_id has_prefix_def prefix_def take_is_prefix append_eq_conv_conj)

lemma has_suffix_iff: "has_suffix s t \<longleftrightarrow> suffix t s"
  by (auto simp: has_suffix_def suffix_def) (metis append_take_drop_id)

lemma has_suffix_append [simp]: "has_suffix (s @ t) t"
  by (simp add: has_suffix_def)

lemma str_contains_iff: "str_contains s t \<longleftrightarrow> sublist t s"
  by (induction s) (auto simp: has_prefix_iff sublist_Cons_right)

lemma split_at_nonempty [simp]: "split_at d s \<noteq> []"
  by (cases s) (auto split: list.split)

lemma split_at_first: "d \<notin> set w \<Longrightarrow> split_at d (w @ d # s) = w # split_at d s"
  by (induction w) auto

end
