(* ===== verification/Node_Db.thy ===== *)
theory Node_Db
  imports Go_Collections Go_Prelude
begin

text \<open>
  Nodes and the node database of \<open>p2p/tnode\<close>, the address filter and one round of the
  discovery loop of \<open>p2p/discover\<close>.  Connection information and multiaddresses come from
  libraries outside the repository: an address is a value of type \<open>'a\<close>, and \<open>show_addr\<close>
  stands for its \<open>String\<close> method.
\<close>

subsection \<open>Nodes\<close>

record 'a node =
  n_id :: string
  n_addr :: "'a option"
  n_pids :: "string list"

text \<open>What the program reads of \<open>iface.ConnectionInfo\<close>; the error of \<open>Streams\<close> is dropped.\<close>

record 'a conn_info =
  ci_id :: string
  ci_addr :: 'a
  ci_streams :: "string list"

definition ID_Bytes :: "string \<Rightarrow> byte list" where
  "ID_Bytes i = map of_char i"

text \<open>\<open>copy\<close> into the nil slice of a fresh node moves as many elements as the target has.\<close>

definition node_New :: "'a conn_info \<Rightarrow> 'a node" where
  "node_New con =
     \<lparr>n_id = ci_id con, n_addr = Some (ci_addr con), n_pids = overwrite [] 0 (ci_streams con)\<rparr>"

definition NewNode :: "string \<Rightarrow> 'a option \<Rightarrow> string list option \<Rightarrow> 'a node" where
  "NewNode i addr pids =
     \<lparr>n_id = i, n_addr = addr,
      n_pids = (case pids of None \<Rightarrow> [] | Some ps \<Rightarrow> overwrite [] 0 ps)\<rparr>"

fun make_nodes :: "'a conn_info list \<Rightarrow> (string, 'a node) gomap \<Rightarrow> (string, 'a node) gomap" where
  "make_nodes [] nodes = nodes"
| "make_nodes (c # conns) nodes =
     (let n = node_New c in make_nodes conns (gm_put (n_id n) n nodes))"

definition MakeNodesMap :: "'a conn_info list \<Rightarrow> (string, 'a node) gomap" where
  "MakeNodesMap conns = make_nodes conns []"

definition node_String :: "('a option \<Rightarrow> string) \<Rightarrow> 'a node \<Rightarrow> string" where
  "node_String show_addr n = ''node(id:'' @ n_id n @ '', addr:'' @ show_addr (n_addr n) @ '')''"

subsection \<open>The node database\<close>

definition DefaultSize :: "16 word" where "DefaultSize = 100"

record 'a node_db =
  db_home :: "'a node option"
  db_nodes :: "(string, 'a node) gomap"
  db_max :: "16 word"

definition NewDB :: "16 word \<Rightarrow> 'a node_db" where
  "NewDB m = \<lparr>db_home = None, db_nodes = [], db_max = (if m = 0 then DefaultSize else m)\<rparr>"

definition db_Home :: "'a node_db \<Rightarrow> 'a node option" where
  "db_Home db = db_home db"

definition SetHome :: "'a node \<Rightarrow> 'a node_db \<Rightarrow> 'a node_db" where
  "SetHome n db = db\<lparr>db_home := Some n\<rparr>"

definition db_Get :: "string \<Rightarrow> 'a node_db \<Rightarrow> 'a node option" where
  "db_Get i db = gm_get (db_nodes db) i"

definition db_Put :: "'a node \<Rightarrow> 'a node_db \<Rightarrow> 'a node_db" where
  "db_Put n db = db\<lparr>db_nodes := gm_put (n_id n) n (db_nodes db)\<rparr>"

definition db_Size :: "'a node_db \<Rightarrow> nat" where
  "db_Size db = gm_len (db_nodes db)"

text \<open>The nodes of one map that the other does not have, in the order \<open>range\<close> meets them.\<close>

definition missing_in :: "('k, 'v) gomap \<Rightarrow> ('k, 'v) gomap \<Rightarrow> 'v list" where
  "missing_in other m = map snd (filter (\<lambda>(k, v). gm_get other k = None) m)"

definition Choose :: "(string, 'a node) gomap \<Rightarrow> 'a node_db \<Rightarrow> 'a node list \<times> 'a node list" where
  "Choose news db = (missing_in (db_nodes db) news, missing_in news (db_nodes db))"

definition db_Replace :: "(string, 'a node) gomap \<Rightarrow> 'a node_db \<Rightarrow> 'a node_db" where
  "db_Replace news db = db\<lparr>db_nodes := news\<rparr>"

subsection \<open>The filter\<close>

definition P2pCircuit :: string where "P2pCircuit = ''p2p-circuit''"

definition isPrivateIP :: "string \<Rightarrow> bool" where
  "isPrivateIP ip \<longleftrightarrow> has_prefix ip ''10.'' \<or> has_prefix ip ''172.'' \<or> has_prefix ip ''192.''"

definition isP2pCircuit :: "('a \<Rightarrow> string) \<Rightarrow> 'a conn_info \<Rightarrow> bool" where
  "isP2pCircuit show_addr c = str_contains (show_addr (ci_addr c)) P2pCircuit"

definition isPrivate :: "('a \<Rightarrow> string) \<Rightarrow> 'a conn_info \<Rightarrow> bool" where
  "isPrivate show_addr c =
     (let s = split_at (CHR ''/'') (show_addr (ci_addr c)) in 2 \<le> length s \<and> isPrivateIP (s ! 1))"

fun filter_conns :: "('a \<Rightarrow> string) \<Rightarrow> 'a conn_info list \<Rightarrow> 'a conn_info list" where
  "filter_conns show_addr [] = []"
| "filter_conns show_addr (c # conns) =
     (if isP2pCircuit show_addr c \<or> isPrivate show_addr c then c # filter_conns show_addr conns
      else filter_conns show_addr conns)"

subsection \<open>One round of discovery\<close>

text \<open>
  \<open>self\<close> is the answer of \<open>Key().Self\<close>, \<open>None\<close> for an error; \<open>conns\<close> that of
  \<open>Swarm().Peers\<close>, empty for an error.  The result is the database and the nodes to send on
  \<open>Disc\<close> and then on \<open>Conn\<close>.
\<close>

definition discover_tick ::
  "('a \<Rightarrow> string) \<Rightarrow> string option \<Rightarrow> 'a conn_info list \<Rightarrow> 'a node_db
   \<Rightarrow> 'a node_db \<times> 'a node list \<times> 'a node list" where
  "discover_tick show_addr self conns db =
     (case (if db_Home db = None
            then map_option (\<lambda>i. SetHome (NewNode i None None) db) self
            else Some db) of
        None \<Rightarrow> (db, [], [])
      | Some db1 \<Rightarrow>
          if conns = [] \<and> db_Size db1 = 0 then (db1, [], [])
          else
            let latest = MakeNodesMap (filter_conns show_addr conns);
                (connected, disconnected) = Choose latest db1
            in (db_Replace latest db1, disconnected, connected))"

subsection \<open>Well-formed databases\<close>

definition keyed :: "(string, 'a node) gomap \<Rightarrow> bool" where
  "keyed m \<longleftrightarrow> gm_ok m \<and> list_all (\<lambda>(k, n). n_id n = k) m"

definition db_ok :: "'a node_db \<Rightarrow> bool" where
  "db_ok db \<longleftrightarrow> keyed (db_nodes db)"

definition node_ids :: "'a node list \<Rightarrow> string set" where
  "node_ids ns = n_id ` set ns"

lemma keyed_Nil [simp]: "keyed []"
  by (simp add: keyed_def)

lemma keyed_get: "keyed m \<Longrightarrow> gm_get m k = Some n \<Longrightarrow> n_id n = k"
  using gm_in_set [of m k n] by (auto simp: keyed_def list_all_iff)

lemma keyed_put:
  assumes "keyed m"
  shows "keyed (gm_put (n_id n) n m)"
proof -
  have ok: "gm_ok m" and get: "\<And>k v. gm_get m k = Some v \<Longrightarrow> n_id v = k"
    using assms by (auto simp: keyed_def dest: keyed_get [OF assms])
  have "n_id v = k" if "(k, v) \<in> set (gm_put (n_id n) n m)" for k v
    using that get gm_ok_put [OF ok] by (auto simp: gm_in_set map_simps split: if_splits)
  then show ?thesis using gm_ok_put [OF ok] by (auto simp: keyed_def list_all_iff)
qed

lemma keyed_make_nodes: "keyed m \<Longrightarrow> keyed (make_nodes conns m)"
  by (induction conns arbitrary: m) (simp_all add: Let_def keyed_put)

lemma keys_make_nodes: "gm_keys (make_nodes conns m) = gm_keys m \<union> ci_id ` set conns"
  by (induction conns arbitrary: m) (auto simp: Let_def map_simps node_New_def)

lemma MakeNodesMap_ok: "keyed (MakeNodesMap conns)" and MakeNodesMap_keys: "gm_keys (MakeNodesMap conns) = ci_id ` set conns"
  by (simp_all add: MakeNodesMap_def keyed_make_nodes keys_make_nodes)

lemma missing_in_ids:
  assumes "keyed m"
  shows "node_ids (missing_in other m) = gm_keys m - gm_keys other"
    and "distinct (map n_id (missing_in other m))"
proof -
  have id: "n_id v = k" if "(k, v) \<in> set m" for k v
    using assms that by (auto simp: keyed_def list_all_iff)
  have ids: "map n_id (missing_in other m) = map fst (filter (\<lambda>(k, v). gm_get other k = None) m)"
    unfolding missing_in_def by (auto simp: id)
  show "distinct (map n_id (missing_in other m))"
    unfolding ids using assms by (simp add: keyed_def gm_ok_def distinct_map_filter)
  have "node_ids (missing_in other m) = fst ` {x \<in> set m. case x of (k, v) \<Rightarrow> gm_get other k = None}"
    using arg_cong [OF ids, of set] by (simp add: node_ids_def)
  then show "node_ids (missing_in other m) = gm_keys m - gm_keys other"
    by (auto simp: gm_get_None gm_keys_def [of m])
qed

lemma missing_in_values:
  "gm_ok m \<Longrightarrow> n \<in> set (missing_in other m) \<Longrightarrow> \<exists>k. gm_get m k = Some n \<and> gm_get other k = None"
  by (auto simp: missing_in_def gm_in_set)

lemma filter_conns_eq: "filter_conns show_addr conns = filter (\<lambda>c. isP2pCircuit show_addr c \<or> isPrivate show_addr c) conns"
  by (induction conns) auto

text \<open>
  A multiaddress starts with a slash and a protocol name, so the second piece of the split
  address is that name and never an IP number.
\<close>

lemma isPrivate_multiaddr:
  assumes "show_addr (ci_addr c) = ''/'' @ proto @ ''/'' @ rest" and "CHR ''/'' \<notin> set proto"
  shows "isPrivate show_addr c = isPrivateIP proto"
  using split_at_first [OF assms(2), of rest] assms(1) by (simp add: isPrivate_def)

subsection \<open>Tables keyed by an identifier\<close>

text \<open>
  The part of the contract of a table of nodes or peers on which clients rely: looking up
  after an insertion, and the size as the number of different keys.
\<close>

locale keyed_table =
  fixes lookup :: "string \<Rightarrow> 't \<Rightarrow> 'v option"
    and insert_at :: "'v \<Rightarrow> 't \<Rightarrow> 't"
    and key :: "'v \<Rightarrow> string"
    and size_of :: "'t \<Rightarrow> nat"
    and ok :: "'t \<Rightarrow> bool"
    and keys_of :: "'t \<Rightarrow> string set"
  assumes insert_ok: "ok t \<Longrightarrow> ok (insert_at v t)"
    and lookup_insert: "ok t \<Longrightarrow> lookup k (insert_at v t) = (if k = key v then Some v else lookup k t)"
    and keys_insert: "ok t \<Longrightarrow> keys_of (insert_at v t) = insert (key v) (keys_of t)"
    and size_keys: "ok t \<Longrightarrow> size_of t = card (keys_of t)"
    and keys_finite: "ok t \<Longrightarrow> finite (keys_of t)"
begin

lemma fold_insert:
  "ok t \<Longrightarrow> ok (fold insert_at vs t) \<and> keys_of (fold insert_at vs t) = keys_of t \<union> key ` set vs"
  by (induction vs arbitrary: t) (auto simp: insert_ok keys_insert)

lemma size_fold_insert:
  "ok t \<Longrightarrow> size_of (fold insert_at vs t) = card (keys_of t \<union> key ` set vs)"
  using fold_insert [of t vs] size_keys by simp

lemma size_insert_le: "ok t \<Longrightarrow> size_of (insert_at v t) \<le> Suc (size_of t)"
  using size_keys insert_ok keys_insert keys_finite by (simp add: card_insert_if)

lemma lookup_fold_other:
  "ok t \<Longrightarrow> k \<notin> key ` set vs \<Longrightarrow> lookup k (fold insert_at vs t) = lookup k t"
  by (induction vs arbitrary: t) (auto simp: insert_ok lookup_insert)

lemma lookup_fold_last:
  "ok t \<Longrightarrow> key v \<notin> key ` set ws \<Longrightarrow> lookup (key v) (fold insert_at (vs @ v # ws) t) = Some v"
  using fold_insert [of t vs] by (simp add: lookup_fold_other insert_ok lookup_insert)

end

interpretation node_table: keyed_table db_Get db_Put n_id db_Size db_ok "\<lambda>db. gm_keys (db_nodes db)"
  by unfold_locales
    (auto simp: db_ok_def db_Get_def db_Put_def db_Size_def map_simps keyed_put gm_len_keys keyed_def
      intro: keyed_put [unfolded keyed_def, THEN conjunct1] keyed_put [unfolded keyed_def, THEN conjunct2])

subsection \<open>Properties\<close>

definition tick_good :: "'a node_db \<Rightarrow> 'a node_db \<times> 'a node list \<times> 'a node list \<Rightarrow> bool" where
  "tick_good db r \<longleftrightarrow>
     (case r of (db', disc, conn) \<Rightarrow>
        db_ok db' \<and>
        distinct (map n_id disc) \<and> distinct (map n_id conn) \<and>
        node_ids disc \<subseteq> gm_keys (db_nodes db) \<and> node_ids conn \<inter> gm_keys (db_nodes db) = {} \<and>
        gm_keys (db_nodes db') = gm_keys (db_nodes db) - node_ids disc \<union> node_ids conn \<and>
        (disc \<noteq> [] \<or> conn \<noteq> [] \<longrightarrow> db_home db' \<noteq> None))"

lemma tick_good_idle: "db_ok db \<Longrightarrow> db_nodes db' = db_nodes db \<Longrightarrow> tick_good db (db', [], [])"
  by (simp add: tick_good_def db_ok_def node_ids_def)

lemma tick_good_replace:
  assumes "db_ok db" and "keyed latest" and "db_nodes db1 = db_nodes db" and "db_home db1 \<noteq> None"
  shows "tick_good db (db_Replace latest db1, missing_in latest (db_nodes db), missing_in (db_nodes db) latest)"
  using assms missing_in_ids [of latest "db_nodes db"] missing_in_ids [of "db_nodes db" latest]
  by (auto simp: tick_good_def db_ok_def db_Replace_def)

lemma tick_good_tick:
  assumes "db_ok db"
  shows "tick_good db (discover_tick show_addr self conns db)"
proof -
  define db1 where "db1 = (if db_Home db = None then map_option (\<lambda>i. SetHome (NewNode i None None) db) self else Some db)"
  have nodes: "db_nodes d = db_nodes db \<and> db_home d \<noteq> None" if "db1 = Some d" for d
    using that by (auto simp: db1_def db_Home_def SetHome_def split: if_splits)
  show ?thesis
  proof (cases db1)
    case None
    with assms show ?thesis by (simp add: discover_tick_def db1_def [symmetric] tick_good_idle)
  next
    case (Some d)
    then show ?thesis
      using nodes [OF Some] tick_good_idle [OF assms, of d]
        tick_good_replace [OF assms MakeNodesMap_ok, of d "filter_conns show_addr conns"]
      by (simp add: discover_tick_def db1_def [symmetric] Choose_def Let_def)
  qed
qed

text \<open>
  One round of discovery keeps the database well formed and its notifications are exactly
  the change: no node is announced twice or as both connected and disconnected, removing
  the disconnected and adding the connected ids to the old id set gives the new one, and
  the home node is known whenever a notification is sent.
\<close>

theorem discover_tick_tracks:
  assumes "db_ok db"
  shows "tick_good db (discover_tick show_addr self conns db)"
  by (rule tick_good_tick [OF assms])

lemma discover_tick_tracks_witness:
  "tick_good (NewDB 0) (discover_tick (\<lambda>a. a) (Some ''home'')
     [\<lparr>ci_id = ''n1'', ci_addr = ''/p2p-circuit/ipfs/n1'', ci_streams = []\<rparr>] (NewDB 0))"
  by (rule discover_tick_tracks) (simp add: db_ok_def NewDB_def)

text \<open>
  On multiaddresses, which begin with a slash and the name of a protocol, the test for a
  private IP address looks at that name and never succeeds: the filter keeps exactly the
  relayed (\<open>p2p-circuit\<close>) connections.
\<close>

theorem filter_keeps_circuits_only:
  assumes "\<forall>c\<in>set conns. \<exists>proto rest. show_addr (ci_addr c) = ''/'' @ proto @ ''/'' @ rest \<and>
      CHR ''/'' \<notin> set proto \<and> proto \<noteq> [] \<and> hd proto \<notin> set ''0123456789''"
  shows "filter_conns show_addr conns = filter (isP2pCircuit show_addr) conns"
proof -
  have "\<not> isPrivate show_addr c" if "c \<in> set conns" for c
  proof -
    obtain proto rest where a: "show_addr (ci_addr c) = ''/'' @ proto @ ''/'' @ rest"
      and p: "CHR ''/'' \<notin> set proto" "proto \<noteq> []" "hd proto \<notin> set ''0123456789''"
      using assms \<open>c \<in> set conns\<close> by blast
    then have "\<not> isPrivateIP proto" by (cases proto) (auto simp: isPrivateIP_def has_prefix_def)
    then show ?thesis using isPrivate_multiaddr [of show_addr c proto rest] a p(1) by simp
  qed
  then show ?thesis by (auto simp: filter_conns_eq intro: filter_cong)
qed

lemma filter_keeps_circuits_only_witness:
  "filter_conns (\<lambda>a. a) [\<lparr>ci_id = ''n1'', ci_addr = ''/ip4/10.0.0.1/tcp/4001'', ci_streams = []\<rparr>] =
   filter (isP2pCircuit (\<lambda>a. a)) [\<lparr>ci_id = ''n1'', ci_addr = ''/ip4/10.0.0.1/tcp/4001'', ci_streams = []\<rparr>]"
proof (rule filter_keeps_circuits_only, intro ballI)
  fix c :: "string conn_info"
  assume "c \<in> set [\<lparr>ci_id = ''n1'', ci_addr = ''/ip4/10.0.0.1/tcp/4001'', ci_streams = []\<rparr>]"
  then have "ci_addr c = ''/'' @ ''ip4'' @ ''/'' @ ''10.0.0.1/tcp/4001''" by simp
  then show "\<exists>proto rest. ci_addr c = ''/'' @ proto @ ''/'' @ rest \<and> CHR ''/'' \<notin> set proto \<and> proto \<noteq> [] \<and>
      hd proto \<notin> set ''0123456789''"
    by (intro exI [of _ "''ip4''"] exI [of _ "''10.0.0.1/tcp/4001''"]) simp
qed

text \<open>
  A node never records the protocols it was built with: both constructors copy them into a
  nil slice.
\<close>

theorem node_protocols_lost:
  "n_pids (node_New con) = [] \<and> n_pids (NewNode i addr pids) = []"
  by (auto simp: node_New_def NewNode_def overwrite_def split: option.split)

end
