(* ===== verification/Protocol_Peer.thy ===== *)
theory Protocol_Peer
  imports Peer_Error Node_Db
begin

text \<open>
  Protocols and peers (\<open>p2p/protocol.go\<close>, \<open>p2p/message.go\<close>, \<open>p2p/peer.go\<close>): matching of
  protocols, topics and the delivery of messages.  The goroutines of a peer are in \<open>Peer_Run\<close>.
\<close>

subsection \<open>Protocols, messages and topics\<close>

record protocol =
  pr_Name :: string
  pr_Version :: nat
  pr_Topics :: "string list"

record proto_rw =
  rw_Protocol :: protocol
  rw_homeID :: string

text \<open>The payload is what \<open>ioutil.ReadAll\<close> makes of the reader: its bytes or an error.\<close>

record message =
  msg_From :: string
  msg_Topic :: string
  msg_Payload :: "p2p_error + byte list"

definition constructTopic :: "string \<Rightarrow> string \<Rightarrow> string" where
  "constructTopic i topic = i @ topic"

fun match_into :: "string \<Rightarrow> protocol list \<Rightarrow> (string, proto_rw) gomap \<Rightarrow> (string, proto_rw) gomap" where
  "match_into homeID [] result = result"
| "match_into homeID (proto # protocols) result =
     match_into homeID protocols
       (gm_put (pr_Name proto) \<lparr>rw_Protocol = proto, rw_homeID = homeID\<rparr> result)"

definition matchProtocols :: "protocol list \<Rightarrow> string \<Rightarrow> (string, proto_rw) gomap" where
  "matchProtocols protocols homeID = match_into homeID protocols []"

record 'a p2p_peer =
  pp_node :: "'a node"
  pp_running :: "(string, proto_rw) gomap"

definition newPeer :: "'a node \<Rightarrow> string \<Rightarrow> protocol list \<Rightarrow> 'a p2p_peer" where
  "newPeer node homeID protocols =
     \<lparr>pp_node = node, pp_running = matchProtocols protocols homeID\<rparr>"

definition peer_ID :: "'a p2p_peer \<Rightarrow> string" where
  "peer_ID p = n_id (pp_node p)"

definition RemoteAddr :: "('a \<Rightarrow> string) \<Rightarrow> 'a p2p_peer \<Rightarrow> go_panic + string" where
  "RemoteAddr show_addr p =
     (case n_addr (pp_node p) of None \<Rightarrow> Inl Nil_dereference | Some a \<Rightarrow> Inr (show_addr a))"

fun find_topic :: "string \<Rightarrow> (string, proto_rw) gomap \<Rightarrow> proto_rw option" where
  "find_topic topic [] = None"
| "find_topic topic ((name, proto) # running) =
     (if list_ex (has_suffix topic) (pr_Topics (rw_Protocol proto)) then Some proto
      else find_topic topic running)"

definition getProto :: "'a p2p_peer \<Rightarrow> string \<Rightarrow> p2p_error + proto_rw" where
  "getProto p topic =
     (case find_topic topic (pp_running p) of
        Some proto \<Rightarrow> Inr proto
      | None \<Rightarrow> (case newPeerError errInvalidMsgTopic topic of
                  Inr e \<Rightarrow> Inl (Peer_err e) | Inl _ \<Rightarrow> Inl (Other_error '''')))"

definition readLoopCount :: "'a p2p_peer \<Rightarrow> nat" where
  "readLoopCount p = sum_list (map (\<lambda>(name, proto). length (pr_Topics (rw_Protocol proto))) (pp_running p))"

text \<open>The topics the read loops subscribe to, one loop each.\<close>

definition read_topics :: "'a p2p_peer \<Rightarrow> string list" where
  "read_topics p =
     concat (map (\<lambda>(name, proto). map (constructTopic (peer_ID p)) (pr_Topics (rw_Protocol proto))) (pp_running p))"

text \<open>
  \<open>handle\<close>: the protocol that is offered the message on its channel \<open>in\<close>, or the error that
  ends the read loop.  When the peer is closed the delivery may be refused with \<open>io.EOF\<close>.
\<close>

definition peer_handle ::
  "'a p2p_peer \<Rightarrow> bool \<Rightarrow> string \<Rightarrow> byte list \<Rightarrow> string \<Rightarrow> p2p_error + (proto_rw \<times> message)" where
  "peer_handle p refused from data topic =
     (case getProto p topic of
        Inl e \<Rightarrow> Inl (Other_error (''msg topic out of range: '' @ topic))
      | Inr proto \<Rightarrow>
          if refused then Inl Io_EOF
          else Inr (proto, \<lparr>msg_From = from, msg_Topic = topic, msg_Payload = Inr data\<rparr>))"

subsection \<open>Reading\<close>

text \<open>\<open>ReadMsg\<close> at one of its three events: a message, the closed channel, the timeout.\<close>

datatype read_event = Delivered message | Peer_closed | Timed_out

definition ReadMsg :: "read_event \<Rightarrow> p2p_error + message" where
  "ReadMsg ev = (case ev of Delivered m \<Rightarrow> Inr m | Peer_closed \<Rightarrow> Inl Io_EOF | Timed_out \<Rightarrow> Inl ErrReadTimeout)"

subsection \<open>Matching and delivery\<close>

lemma gm_get_match_into:
  "gm_get (match_into homeID protocols result) name =
     (case find (\<lambda>proto. pr_Name proto = name) (rev protocols) of
        Some proto \<Rightarrow> Some \<lparr>rw_Protocol = proto, rw_homeID = homeID\<rparr>
      | None \<Rightarrow> gm_get result name)"
  by (induction protocols arbitrary: result)
    (auto simp: map_simps find_append split: option.split)

lemma gm_ok_match_into: "gm_ok result \<Longrightarrow> gm_ok (match_into homeID protocols result)"
  by (induction protocols arbitrary: result) (auto simp: map_simps)

lemma length_read_topics: "length (read_topics p) = readLoopCount p"
proof -
  have "length (concat (map (\<lambda>(name, proto). map (constructTopic i) (pr_Topics (rw_Protocol proto))) m))
      = sum_list (map (\<lambda>(name, proto). length (pr_Topics (rw_Protocol proto))) m)"
    for i :: string and m :: "(string, proto_rw) gomap"
    by (induction m) auto
  then show ?thesis by (simp add: read_topics_def readLoopCount_def)
qed

lemma find_topic_Some:
  "find_topic topic running = Some proto \<Longrightarrow>
   \<exists>name. (name, proto) \<in> set running \<and> list_ex (has_suffix topic) (pr_Topics (rw_Protocol proto))"
  by (induction topic running rule: find_topic.induct) (auto split: if_splits)

lemma find_topic_None:
  "find_topic topic running = None \<Longrightarrow> (name, proto) \<in> set running \<Longrightarrow>
   \<not> list_ex (has_suffix topic) (pr_Topics (rw_Protocol proto))"
  by (induction topic running rule: find_topic.induct) (auto split: if_splits)

definition claims :: "string \<Rightarrow> proto_rw \<Rightarrow> bool" where
  "claims topic proto \<longleftrightarrow> list_ex (has_suffix topic) (pr_Topics (rw_Protocol proto))"

lemma claims_own: "t \<in> set (pr_Topics (rw_Protocol proto)) \<Longrightarrow> claims (constructTopic i t) proto"
  by (auto simp: claims_def constructTopic_def list_ex_iff intro!: bexI [of _ t])

subsection \<open>Properties\<close>

text \<open>
  A message on a topic a read loop subscribed to is delivered: \<open>getProto\<close> finds a running
  protocol with a topic that ends the message's topic, and it is the protocol the loop was
  started for when no other running protocol claims such an ending.
\<close>

theorem peer_message_delivered:
  assumes "(name, proto) \<in> set (pp_running p)" and "t \<in> set (pr_Topics (rw_Protocol proto))"
  shows "\<exists>name' proto'. getProto p (constructTopic (peer_ID p) t) = Inr proto' \<and>
    (name', proto') \<in> set (pp_running p) \<and> claims (constructTopic (peer_ID p) t) proto' \<and>
    ((\<forall>x\<in>set (pp_running p). claims (constructTopic (peer_ID p) t) (snd x) \<longrightarrow> snd x = proto) \<longrightarrow> proto' = proto)"
proof -
  let ?topic = "constructTopic (peer_ID p) t"
  have own: "claims ?topic proto" by (rule claims_own [OF assms(2)])
  then obtain proto' where found: "find_topic ?topic (pp_running p) = Some proto'"
    using find_topic_None [OF _ assms(1), of ?topic] by (cases "find_topic ?topic (pp_running p)") (auto simp: claims_def)
  with find_topic_Some [OF found] show ?thesis
    by (auto simp: getProto_def claims_def)
qed

lemma peer_message_delivered_witness:
  "let p = newPeer (NewNode ''n'' None None :: unit node) ''h''
       [\<lparr>pr_Name = ''forum'', pr_Version = 1, pr_Topics = [''TIME'', ''HELLO'']\<rparr>];
     proto = \<lparr>rw_Protocol = \<lparr>pr_Name = ''forum'', pr_Version = 1, pr_Topics = [''TIME'', ''HELLO'']\<rparr>, rw_homeID = ''h''\<rparr>
   in \<exists>name' proto'. getProto p (constructTopic (peer_ID p) ''HELLO'') = Inr proto' \<and>
    (name', proto') \<in> set (pp_running p) \<and> claims (constructTopic (peer_ID p) ''HELLO'') proto' \<and>
    ((\<forall>x\<in>set (pp_running p). claims (constructTopic (peer_ID p) ''HELLO'') (snd x) \<longrightarrow> snd x = proto) \<longrightarrow> proto' = proto)"
  unfolding Let_def
  by (rule peer_message_delivered [where name = "''forum''"])
    (simp_all add: newPeer_def matchProtocols_def gm_put_def)

text \<open>
  The protocols a peer runs are the configured ones by name, the last of a name winning;
  each name once, bound to the home node, with one read loop for each of its topics.
\<close>

theorem match_protocols_last_wins:
  "gm_ok (pp_running (newPeer node homeID protocols)) \<and>
   gm_get (pp_running (newPeer node homeID protocols)) name =
     map_option (\<lambda>proto. \<lparr>rw_Protocol = proto, rw_homeID = homeID\<rparr>)
       (find (\<lambda>proto. pr_Name proto = name) (rev protocols)) \<and>
   length (read_topics (newPeer node homeID protocols)) = readLoopCount (newPeer node homeID protocols)"
  by (auto simp: newPeer_def matchProtocols_def gm_get_match_into gm_ok_match_into length_read_topics
      split: option.split)

end
