(* ===== verification/Tau_Peers.thy ===== *)
theory Tau_Peers
  imports Protocol_Peer
begin

text \<open>
  The sub-protocol \<open>tau\<close> (\<open>tau/protocol.go\<close>, \<open>tau/peer.go\<close>, \<open>tau/handler.go\<close>): the set of its
  peers and the protocol handlers, one goroutine for each connected peer, as a step relation.
  Every operation on the set holds its lock and is one step.
\<close>

subsection \<open>The protocol\<close>

definition tau_protocolName :: string where "tau_protocolName = ''tau''"
definition tau_protocolVersion :: nat where "tau_protocolVersion = 1"
definition ProtocolVersions :: "nat list" where "ProtocolVersions = [tau_protocolVersion]"
definition protocolLengths :: "(nat, nat) gomap" where "protocolLengths = [(tau_protocolVersion, 1)]"
definition blockList :: string where "blockList = ''BLKLIST''"
definition txList :: string where "txList = ''TXLIST''"
definition tau_protocolTopics :: "string list" where "tau_protocolTopics = [blockList, txList]"
definition maxPeers :: nat where "maxPeers = 32"

text \<open>\<open>copy(proto.Topics, protocolTopics)\<close> copies into the nil slice of the new protocol.\<close>

definition MakeProtocol :: "nat \<Rightarrow> go_panic + protocol" where
  "MakeProtocol version =
     (if gm_get protocolLengths version = None then Inl (Panic_msg ''makeProtocol for unknown version'')
      else Inr \<lparr>pr_Name = tau_protocolName, pr_Version = version,
                pr_Topics = overwrite [] 0 tau_protocolTopics\<rparr>)"

subsection \<open>Peers\<close>

record 'a tau_peer =
  tp_id :: string
  tp_Peer :: "'a p2p_peer"
  tp_version :: nat

text \<open>
  The slice a string converts to has the string's bytes and some spare capacity \<open>spare\<close>, zeroed,
  which the run-time system chooses; slicing to eight reaches into it.  \<open>hex_bytes\<close> is \<open>%x\<close>.
\<close>

definition id_slice :: "nat \<Rightarrow> string \<Rightarrow> slice" where
  "id_slice spare i = \<lparr>s_arr = ID_Bytes i @ replicate spare 0, s_len = length (ID_Bytes i)\<rparr>"

definition tau_newPeer :: "nat \<Rightarrow> nat \<Rightarrow> 'a p2p_peer \<Rightarrow> go_panic + 'a tau_peer" where
  "tau_newPeer spare version p =
     bind_go (reslice (id_slice spare (peer_ID p)) 8)
       (\<lambda>b. Inr \<lparr>tp_id = hex_bytes (content b), tp_Peer = p, tp_version = version\<rparr>)"

definition tau_peer_String :: "'a tau_peer \<Rightarrow> string" where
  "tau_peer_String p =
     (let v = dec_nat (tp_version p)
      in ''Peer '' @ tp_id p @ '' [eth/'' @ replicate (2 - length v) (CHR '' '') @ v @ '']'')"

subsection \<open>The set of peers\<close>

record 'a peer_set =
  ps_peers :: "(string, 'a tau_peer) gomap"
  ps_closed :: bool

definition newPeerSet :: "'a peer_set" where
  "newPeerSet = \<lparr>ps_peers = [], ps_closed = False\<rparr>"

definition ps_Register :: "'a tau_peer \<Rightarrow> 'a peer_set \<Rightarrow> p2p_error option \<times> 'a peer_set" where
  "ps_Register p ps =
     (if ps_closed ps then (Some errPeerSetClosed, ps)
      else if gm_get (ps_peers ps) (tp_id p) \<noteq> None then (Some errAlreadyRegistered, ps)
      else (None, ps\<lparr>ps_peers := gm_put (tp_id p) p (ps_peers ps)\<rparr>))"

definition ps_Unregister :: "string \<Rightarrow> 'a peer_set \<Rightarrow> p2p_error option \<times> 'a peer_set" where
  "ps_Unregister i ps =
     (if gm_get (ps_peers ps) i = None then (Some errNotRegistered, ps)
      else (None, ps\<lparr>ps_peers := gm_del i (ps_peers ps)\<rparr>))"

definition ps_Peer :: "string \<Rightarrow> 'a peer_set \<Rightarrow> 'a tau_peer option" where
  "ps_Peer i ps = gm_get (ps_peers ps) i"

definition ps_Len :: "'a peer_set \<Rightarrow> nat" where
  "ps_Len ps = gm_len (ps_peers ps)"

text \<open>\<open>Close\<close>, with the disconnects it sends.\<close>

definition ps_Close :: "'a peer_set \<Rightarrow> ('a tau_peer \<times> disc_reason) list \<times> 'a peer_set" where
  "ps_Close ps = (map (\<lambda>(i, p). (p, DiscQuitting)) (ps_peers ps), ps\<lparr>ps_closed := True\<rparr>)"

subsection \<open>Handlers\<close>

text \<open>
  Where the handler of a peer is: before the test of the number of peers, before \<open>Register\<close>,
  reading messages, and in the deferred \<open>removePeer\<close> before its lookup, before \<open>Unregister\<close>
  and before the disconnect of the peer it found, with the error the handler is going to return.
\<close>

datatype 'a phase =
    Ph_start
  | Ph_register
  | Ph_reading
  | Ph_lookup p2p_error
  | Ph_unregister p2p_error "'a tau_peer"
  | Ph_disconnect p2p_error "'a tau_peer"
  | Ph_done p2p_error

record 'a manager =
  pm_set :: "'a peer_set"
  pm_handlers :: "('a tau_peer \<times> 'a phase) list"
  pm_told :: "('a tau_peer \<times> disc_reason) list"

definition NewProtocolManager :: "'a manager" where
  "NewProtocolManager = \<lparr>pm_set = newPeerSet, pm_handlers = [], pm_told = []\<rparr>"

text \<open>A message of any topic is dropped without an error.\<close>

definition handleMsg :: "p2p_error + message \<Rightarrow> p2p_error option" where
  "handleMsg r = (case r of Inl e \<Rightarrow> Some e | Inr msg \<Rightarrow> None)"

text \<open>One step of the handler of \<open>p\<close>: its next phase, the set and the disconnects sent.\<close>

fun handler_next ::
  "'a tau_peer \<Rightarrow> 'a phase \<Rightarrow> p2p_error + message \<Rightarrow> 'a peer_set \<Rightarrow> 'a phase \<times> 'a peer_set \<times> ('a tau_peer \<times> disc_reason) list" where
  "handler_next p Ph_start r ps =
     (if maxPeers \<le> ps_Len ps then (Ph_done (Disc_reason DiscTooManyPeers), ps, []) else (Ph_register, ps, []))"
| "handler_next p Ph_register r ps =
     (case ps_Register p ps of (Some e, ps') \<Rightarrow> (Ph_done e, ps', []) | (None, ps') \<Rightarrow> (Ph_reading, ps', []))"
| "handler_next p Ph_reading r ps =
     (case handleMsg r of None \<Rightarrow> (Ph_reading, ps, []) | Some e \<Rightarrow> (Ph_lookup e, ps, []))"
| "handler_next p (Ph_lookup e) r ps =
     (case ps_Peer (tp_id p) ps of None \<Rightarrow> (Ph_done e, ps, []) | Some q \<Rightarrow> (Ph_unregister e q, ps, []))"
| "handler_next p (Ph_unregister e q) r ps = (Ph_disconnect e q, snd (ps_Unregister (tp_id p) ps), [])"
| "handler_next p (Ph_disconnect e q) r ps = (Ph_done e, ps, [(q, DiscUselessPeer)])"
| "handler_next p (Ph_done e) r ps = (Ph_done e, ps, [])"

inductive pm_step :: "nat \<Rightarrow> 'a manager \<Rightarrow> 'a manager \<Rightarrow> bool" for spare where
  connect: "tau_newPeer spare version q = Inr p \<Longrightarrow>
    pm_step spare s (s\<lparr>pm_handlers := pm_handlers s @ [(p, Ph_start)]\<rparr>)"
| handle: "i < length (pm_handlers s) \<Longrightarrow> pm_handlers s ! i = (p, ph) \<Longrightarrow>
    handler_next p ph r (pm_set s) = (ph', ps', told) \<Longrightarrow>
    pm_step spare s (s\<lparr>pm_set := ps', pm_handlers := (pm_handlers s)[i := (p, ph')], pm_told := pm_told s @ told\<rparr>)"
| close: "ps_Close (pm_set s) = (told, ps') \<Longrightarrow>
    pm_step spare s (s\<lparr>pm_set := ps', pm_told := pm_told s @ told\<rparr>)"

definition pm_reachable :: "nat \<Rightarrow> 'a manager \<Rightarrow> bool" where
  "pm_reachable spare s \<longleftrightarrow> (pm_step spare)\<^sup>*\<^sup>* NewProtocolManager s"

subsection \<open>Invariant\<close>

text \<open>The phases in which a handler answers for its peer in the set.\<close>

fun owning :: "'a phase \<Rightarrow> bool" where
  "owning Ph_reading = True"
| "owning (Ph_lookup e) = True"
| "owning (Ph_unregister e q) = True"
| "owning ph = False"

definition owner :: "('a tau_peer \<times> 'a phase) list \<Rightarrow> nat \<Rightarrow> 'a tau_peer \<Rightarrow> bool" where
  "owner hs i p \<longleftrightarrow> i < length hs \<and> fst (hs ! i) = p \<and> owning (snd (hs ! i))"

text \<open>The entries of the set are exactly the peers of owning handlers, one handler each.\<close>

definition pm_inv :: "('a tau_peer \<times> 'a phase) list \<Rightarrow> (string, 'a tau_peer) gomap \<Rightarrow> bool" where
  "pm_inv hs peers \<longleftrightarrow>
     gm_ok peers \<and>
     (\<forall>i p. owner hs i p \<longrightarrow> gm_get peers (tp_id p) = Some p) \<and>
     (\<forall>k p. gm_get peers k = Some p \<longrightarrow> tp_id p = k \<and> (\<exists>i. owner hs i p)) \<and>
     (\<forall>i j p q. owner hs i p \<longrightarrow> owner hs j q \<longrightarrow> tp_id p = tp_id q \<longrightarrow> i = j)"

lemma owner_update:
  "i < length hs \<Longrightarrow> owner (hs[i := (p, ph)]) j q \<longleftrightarrow> (if j = i then q = p \<and> owning ph else owner hs j q)"
  by (auto simp: owner_def nth_list_update)

lemma owner_snoc: "owner (hs @ [(p, Ph_start)]) j q = owner hs j q"
  by (auto simp: owner_def nth_append less_Suc_eq)

lemma pm_inv_same:
  assumes "pm_inv hs peers" and "i < length hs" and "hs ! i = (p, ph)" and "owning ph' = owning ph"
  shows "pm_inv (hs[i := (p, ph')]) peers"
proof -
  have "owner (hs[i := (p, ph')]) j q = owner hs j q" for j q
    using assms(2-4) by (auto simp: owner_update) (auto simp: owner_def)
  with assms(1) show ?thesis by (simp add: pm_inv_def)
qed

lemma pm_inv_register:
  assumes inv: "pm_inv hs peers" and i: "i < length hs" "hs ! i = (p, ph)" and "\<not> owning ph" and "owning ph'"
    and free: "gm_get peers (tp_id p) = None"
  shows "pm_inv (hs[i := (p, ph')]) (gm_put (tp_id p) p peers)"
proof -
  have ok: "gm_ok peers" and A: "\<And>i p. owner hs i p \<Longrightarrow> gm_get peers (tp_id p) = Some p"
    and B: "\<And>k p. gm_get peers k = Some p \<Longrightarrow> tp_id p = k \<and> (\<exists>i. owner hs i p)"
    and C: "\<And>i j p q. owner hs i p \<Longrightarrow> owner hs j q \<Longrightarrow> tp_id p = tp_id q \<Longrightarrow> i = j"
    using inv unfolding pm_inv_def by blast+
  have other: "tp_id q \<noteq> tp_id p" if "owner hs j q" for j q
    using A [OF that] free by auto
  have not: "\<not> owner hs i q" for q using i assms(4) by (auto simp: owner_def)
  show ?thesis
    unfolding pm_inv_def
  proof (intro conjI allI impI)
    show "gm_ok (gm_put (tp_id p) p peers)" using ok by (simp add: map_simps)
    show "gm_get (gm_put (tp_id p) p peers) (tp_id q) = Some q" if "owner (hs[i := (p, ph')]) j q" for j q
      using that A other by (auto simp: owner_update i(1) map_simps split: if_splits)
    fix k q
    assume q: "gm_get (gm_put (tp_id p) p peers) k = Some q"
    show "tp_id q = k" using q B by (auto simp: map_simps split: if_splits)
    show "\<exists>j. owner (hs[i := (p, ph')]) j q"
    proof (cases "k = tp_id p")
      case True
      with q have "q = p" by (simp add: map_simps)
      then have "owner (hs[i := (p, ph')]) i q" using assms(5) by (simp add: owner_update i(1))
      then show ?thesis ..
    next
      case False
      with q B obtain j where "owner hs j q" by (auto simp: map_simps)
      with not have "owner (hs[i := (p, ph')]) j q" by (auto simp: owner_update i(1))
      then show ?thesis ..
    qed
  next
    fix j j' q q'
    assume "owner (hs[i := (p, ph')]) j q" "owner (hs[i := (p, ph')]) j' q'" "tp_id q = tp_id q'"
    then show "j = j'" using C other [of j q] other [of j' q'] by (auto simp: owner_update i(1) split: if_splits)
  qed
qed

lemma pm_inv_unregister:
  assumes inv: "pm_inv hs peers" and i: "i < length hs" "hs ! i = (p, ph)" and "owning ph" and "\<not> owning ph'"
  shows "pm_inv (hs[i := (p, ph')]) (gm_del (tp_id p) peers)"
proof -
  have ok: "gm_ok peers" and A: "\<And>i p. owner hs i p \<Longrightarrow> gm_get peers (tp_id p) = Some p"
    and B: "\<And>k p. gm_get peers k = Some p \<Longrightarrow> tp_id p = k \<and> (\<exists>i. owner hs i p)"
    and C: "\<And>i j p q. owner hs i p \<Longrightarrow> owner hs j q \<Longrightarrow> tp_id p = tp_id q \<Longrightarrow> i = j"
    using inv unfolding pm_inv_def by blast+
  have own: "owner hs i p" using i assms(4) by (simp add: owner_def)
  have upd: "owner (hs[i := (p, ph')]) j q \<longleftrightarrow> j \<noteq> i \<and> owner hs j q" for j q
    using assms(5) by (auto simp: owner_update i(1))
  have other: "tp_id q \<noteq> tp_id p" if "owner hs j q" "j \<noteq> i" for j q
    using C [OF that(1) own] that(2) by blast
  show ?thesis
    unfolding pm_inv_def upd
  proof (intro conjI allI impI)
    show "gm_ok (gm_del (tp_id p) peers)" using ok by (simp add: map_simps)
    show "gm_get (gm_del (tp_id p) peers) (tp_id q) = Some q" if "j \<noteq> i \<and> owner hs j q" for j q
      using that A other by (auto simp: map_simps)
    fix k q
    assume q: "gm_get (gm_del (tp_id p) peers) k = Some q"
    then have q': "gm_get peers k = Some q" "k \<noteq> tp_id p" by (auto simp: map_simps split: if_splits)
    then obtain j where j: "owner hs j q" and k: "tp_id q = k" using B by blast
    show "tp_id q = k" by (rule k)
    have "j \<noteq> i" using j own k q'(2) by (auto simp: owner_def)
    with j show "\<exists>j. j \<noteq> i \<and> owner hs j q" by blast
  next
    fix j j' q q'
    assume "j \<noteq> i \<and> owner hs j q" "j' \<noteq> i \<and> owner hs j' q'" "tp_id q = tp_id q'"
    then show "j = j'" using C by blast
  qed
qed

lemma same_step:
  assumes "pm_inv hs (ps_peers ps)" and "i < length hs" and "hs ! i = (p, ph)" and "owning ph' = owning ph"
    and "ps_peers ps' = ps_peers ps"
  shows "pm_inv (hs[i := (p, ph')]) (ps_peers ps')"
  unfolding assms(5) by (rule pm_inv_same [OF assms(1-4)])

lemma owner_get:
  assumes "pm_inv hs peers" and "i < length hs" and "hs ! i = (p, ph)" and "owning ph"
  shows "gm_get peers (tp_id p) = Some p"
proof -
  have "owner hs i p" using assms(2-4) by (simp add: owner_def)
  with assms(1) show ?thesis unfolding pm_inv_def by blast
qed

lemma register_done:
  assumes "ps_Register p ps = (None, ps1)"
  shows "gm_get (ps_peers ps) (tp_id p) = None"
    and "handler_next p Ph_register r ps = (Ph_reading, ps\<lparr>ps_peers := gm_put (tp_id p) p (ps_peers ps)\<rparr>, [])"
  using assms by (auto simp: ps_Register_def split: if_splits)

lemma register_fails: "ps_Register p ps = (Some err, ps1) \<Longrightarrow> handler_next p Ph_register r ps = (Ph_done err, ps, [])"
  by (auto simp: ps_Register_def split: if_splits)

lemma handler_next_inv:
  assumes inv: "pm_inv hs (ps_peers ps)" and i: "i < length hs" "hs ! i = (p, ph)"
    and run: "handler_next p ph r ps = (ph', ps', told)"
  shows "pm_inv (hs[i := (p, ph')]) (ps_peers ps')"
proof (cases ph)
  case Ph_register
  show ?thesis
  proof (cases "ps_Register p ps")
    case (Pair e ps1)
    show ?thesis
    proof (cases e)
      case None
      have reg: "ps_Register p ps = (None, ps1)" using Pair None by blast
      note ok = register_done [OF reg]
      have "ph' = Ph_reading" "ps' = ps\<lparr>ps_peers := gm_put (tp_id p) p (ps_peers ps)\<rparr>"
        using run ok(2) by (simp_all add: Ph_register)
      moreover have "pm_inv (hs[i := (p, Ph_reading)]) (gm_put (tp_id p) p (ps_peers ps))"
        by (rule pm_inv_register [OF inv i _ _ ok(1)]) (simp_all add: Ph_register)
      ultimately show ?thesis by simp
    next
      case (Some err)
      have "handler_next p ph r ps = (Ph_done err, ps, [])"
        unfolding Ph_register by (rule register_fails) (use Pair Some in blast)
      with run have ph': "ph' = Ph_done err" and ps': "ps' = ps" by auto
      show ?thesis by (rule same_step [OF inv i]) (simp_all add: ph' ps' Ph_register)
    qed
  qed
next
  case (Ph_lookup e)
  have "gm_get (ps_peers ps) (tp_id p) = Some p"
    by (rule owner_get [OF inv i]) (simp add: Ph_lookup)
  with run Ph_lookup have "ph' = Ph_unregister e p" "ps' = ps" by (simp_all add: ps_Peer_def)
  then show ?thesis by (intro same_step [OF inv i]) (simp_all add: Ph_lookup)
next
  case (Ph_unregister e q)
  have "gm_get (ps_peers ps) (tp_id p) = Some p"
    by (rule owner_get [OF inv i]) (simp add: Ph_unregister)
  with run Ph_unregister have "ph' = Ph_disconnect e q" "ps' = ps\<lparr>ps_peers := gm_del (tp_id p) (ps_peers ps)\<rparr>"
    by (auto simp: ps_Unregister_def)
  moreover have "pm_inv (hs[i := (p, Ph_disconnect e q)]) (gm_del (tp_id p) (ps_peers ps))"
    by (rule pm_inv_unregister [OF inv i]) (simp_all add: Ph_unregister)
  ultimately show ?thesis by simp
next
  case Ph_start
  show ?thesis by (rule same_step [OF inv i]) (use run Ph_start in \<open>auto split: if_splits\<close>)
next
  case Ph_reading
  show ?thesis by (rule same_step [OF inv i]) (use run Ph_reading in \<open>auto split: option.splits\<close>)
next
  case (Ph_disconnect e q)
  show ?thesis by (rule same_step [OF inv i]) (use run Ph_disconnect in auto)
next
  case (Ph_done e)
  show ?thesis by (rule same_step [OF inv i]) (use run Ph_done in auto)
qed

lemma pm_step_inv:
  assumes "pm_step spare s t" and "pm_inv (pm_handlers s) (ps_peers (pm_set s))"
  shows "pm_inv (pm_handlers t) (ps_peers (pm_set t))"
  using assms
proof (induction rule: pm_step.induct)
  case (handle i s p ph r ph' ps' told)
  then show ?case using handler_next_inv [of "pm_handlers s" "pm_set s" i p ph r ph' ps' told] by simp
qed (auto simp: pm_inv_def owner_snoc ps_Close_def)

lemma pm_reachable_inv: "pm_reachable spare s \<Longrightarrow> pm_inv (pm_handlers s) (ps_peers (pm_set s))"
  unfolding pm_reachable_def
proof (induction rule: rtranclp_induct)
  case base
  show ?case by (simp add: pm_inv_def owner_def NewProtocolManager_def newPeerSet_def)
qed (rule pm_step_inv)

subsection \<open>The limit on the number of peers\<close>

text \<open>Handlers that all pass the test before any of them registers.\<close>

definition all_in :: "'a phase \<Rightarrow> 'a tau_peer list \<Rightarrow> ('a tau_peer \<times> 'a phase) list" where
  "all_in ph ps = map (\<lambda>p. (p, ph)) ps"

lemma reach_connect:
  assumes "\<forall>p\<in>set ps. \<exists>v q. tau_newPeer spare v q = Inr p"
  shows "pm_reachable spare (NewProtocolManager\<lparr>pm_handlers := all_in Ph_start ps\<rparr>)"
  using assms
proof (induction ps rule: rev_induct)
  case Nil
  show ?case by (simp add: pm_reachable_def all_in_def NewProtocolManager_def)
next
  case (snoc p ps)
  let ?s = "NewProtocolManager\<lparr>pm_handlers := all_in Ph_start ps\<rparr>"
  obtain v q where "tau_newPeer spare v q = Inr p" using snoc.prems by auto
  from pm_step.connect [OF this, of ?s] snoc show ?case
    by (auto simp: pm_reachable_def all_in_def intro: rtranclp.rtrancl_into_rtrancl)
qed

lemma nth_middle: "length xs = i \<Longrightarrow> (xs @ y # ys) ! i = y"
  by (simp add: nth_append)

lemma list_update_middle: "length xs = i \<Longrightarrow> (xs @ y # ys)[i := z] = xs @ z # ys"
  by (induction xs arbitrary: i) auto

lemma all_in_Cons: "all_in ph (p # ps) = (p, ph) # all_in ph ps" and all_in_snoc: "all_in ph (ps @ [p]) = all_in ph ps @ [(p, ph)]"
  and all_in_Nil: "all_in ph [] = []" and length_all_in: "length (all_in ph ps) = length ps"
  by (simp_all add: all_in_def)

lemma reach_enter:
  assumes "pm_reachable spare (NewProtocolManager\<lparr>pm_handlers := all_in Ph_start (qs @ ps)\<rparr>)"
  shows "pm_reachable spare (NewProtocolManager\<lparr>pm_handlers := all_in Ph_register qs @ all_in Ph_start ps\<rparr>)"
  using assms
proof (induction qs arbitrary: ps rule: rev_induct)
  case (snoc q qs)
  let ?s = "NewProtocolManager\<lparr>pm_handlers := all_in Ph_register qs @ all_in Ph_start (q # ps)\<rparr>"
  have "pm_reachable spare ?s" using snoc.IH [of "q # ps"] snoc.prems by simp
  moreover have "handler_next q Ph_start (Inl Io_EOF) (pm_set ?s) = (Ph_register, pm_set ?s, [])"
    by (simp add: NewProtocolManager_def newPeerSet_def ps_Len_def maxPeers_def)
  then have "pm_step spare ?s (?s\<lparr>pm_set := pm_set ?s,
      pm_handlers := (pm_handlers ?s)[length qs := (q, Ph_register)], pm_told := pm_told ?s @ []\<rparr>)"
    by (intro pm_step.handle [where r = "Inl Io_EOF"]) (simp_all add: all_in_def del: handler_next.simps, simp_all add: nth_middle)
  moreover have "(all_in Ph_register qs @ all_in Ph_start (q # ps))[length qs := (q, Ph_register)] =
      all_in Ph_register (qs @ [q]) @ all_in Ph_start ps"
    by (simp add: all_in_Cons all_in_snoc list_update_middle length_all_in)
  ultimately show ?case
    by (auto simp: pm_reachable_def NewProtocolManager_def intro: rtranclp.rtrancl_into_rtrancl)
qed (simp add: all_in_Nil)

lemma reach_register:
  assumes "pm_reachable spare (NewProtocolManager\<lparr>pm_handlers := all_in Ph_register (qs @ ps)\<rparr>)"
    and "distinct (map tp_id qs)"
  shows "\<exists>m. pm_reachable spare (NewProtocolManager\<lparr>pm_set := \<lparr>ps_peers = m, ps_closed = False\<rparr>,
      pm_handlers := all_in Ph_reading qs @ all_in Ph_register ps\<rparr>) \<and>
    gm_keys m = tp_id ` set qs \<and> gm_ok m"
  using assms
proof (induction qs arbitrary: ps rule: rev_induct)
  case Nil
  have "NewProtocolManager\<lparr>pm_set := \<lparr>ps_peers = [], ps_closed = False\<rparr>, pm_handlers := all_in Ph_register ps\<rparr> =
      NewProtocolManager\<lparr>pm_handlers := all_in Ph_register ps\<rparr>"
    by (simp add: NewProtocolManager_def newPeerSet_def)
  with Nil show ?case by (intro exI [of _ "[]"]) (simp add: all_in_Nil)
next
  case (snoc q qs)
  obtain m where m: "pm_reachable spare (NewProtocolManager\<lparr>pm_set := \<lparr>ps_peers = m, ps_closed = False\<rparr>,
      pm_handlers := all_in Ph_reading qs @ all_in Ph_register (q # ps)\<rparr>)"
    and keys: "gm_keys m = tp_id ` set qs" and ok: "gm_ok m"
    using snoc.IH [of "q # ps"] snoc.prems by auto
  let ?s = "NewProtocolManager\<lparr>pm_set := \<lparr>ps_peers = m, ps_closed = False\<rparr>,
      pm_handlers := all_in Ph_reading qs @ all_in Ph_register (q # ps)\<rparr>"
  let ?m = "gm_put (tp_id q) q m"
  have "tp_id q \<notin> gm_keys m" using snoc.prems(2) keys by auto
  then have "handler_next q Ph_register (Inl Io_EOF) (pm_set ?s) = (Ph_reading, \<lparr>ps_peers = ?m, ps_closed = False\<rparr>, [])"
    by (simp add: ps_Register_def gm_get_None)
  then have "pm_step spare ?s (?s\<lparr>pm_set := \<lparr>ps_peers = ?m, ps_closed = False\<rparr>,
      pm_handlers := (pm_handlers ?s)[length qs := (q, Ph_reading)], pm_told := pm_told ?s @ []\<rparr>)"
    by (intro pm_step.handle [where r = "Inl Io_EOF"]) (simp_all add: all_in_def del: handler_next.simps, simp_all add: nth_middle)
  moreover have "(all_in Ph_reading qs @ all_in Ph_register (q # ps))[length qs := (q, Ph_reading)] =
      all_in Ph_reading (qs @ [q]) @ all_in Ph_register ps"
    by (simp add: all_in_Cons all_in_snoc list_update_middle length_all_in)
  ultimately have "pm_reachable spare (NewProtocolManager\<lparr>pm_set := \<lparr>ps_peers = ?m, ps_closed = False\<rparr>,
      pm_handlers := all_in Ph_reading (qs @ [q]) @ all_in Ph_register ps\<rparr>)"
    using m by (auto simp: pm_reachable_def NewProtocolManager_def intro: rtranclp.rtrancl_into_rtrancl)
  moreover have "gm_keys ?m = tp_id ` set (qs @ [q])" "gm_ok ?m" using keys ok by (simp_all add: map_simps)
  ultimately show ?case by blast
qed

text \<open>Handlers that have all passed the test register one after the other.\<close>

lemma all_reading_reachable:
  assumes "\<forall>p\<in>set ps. \<exists>v q. tau_newPeer spare v q = Inr p" and "distinct (map tp_id ps)"
  shows "\<exists>s. pm_reachable spare s \<and> ps_Len (pm_set s) = length ps \<and> pm_handlers s = map (\<lambda>p. (p, Ph_reading)) ps"
proof -
  have "pm_reachable spare (NewProtocolManager\<lparr>pm_handlers := all_in Ph_register (ps @ [])\<rparr>)"
    using reach_enter [of spare ps "[]"] reach_connect [OF assms(1)] by (simp add: all_in_Nil)
  from reach_register [OF this assms(2)] obtain m where
    m: "pm_reachable spare (NewProtocolManager\<lparr>pm_set := \<lparr>ps_peers = m, ps_closed = False\<rparr>, pm_handlers := all_in Ph_reading ps\<rparr>)"
    and keys: "gm_keys m = tp_id ` set ps" "gm_ok m" by (auto simp: all_in_Nil)
  have "gm_len m = card (tp_id ` set ps)" using keys by (simp add: gm_len_keys)
  also have "\<dots> = length ps" using distinct_card [OF assms(2)] by simp
  finally have "gm_len m = length ps" .
  then show ?thesis
    by (intro exI [of _ "NewProtocolManager\<lparr>pm_set := \<lparr>ps_peers = m, ps_closed = False\<rparr>, pm_handlers := all_in Ph_reading ps\<rparr>"]
        conjI m) (simp_all add: ps_Len_def all_in_def)
qed

subsection \<open>Properties\<close>

text \<open>
  C7: The set of tau peers holds exactly the peers whose handler is between registering and
  unregistering, one handler for each entry; so the deferred removal always finds and removes
  its own peer, and when no handler is in between the set is empty: no entry leaks.
\<close>

theorem tau_peers_exact:
  assumes "pm_reachable spare s"
  shows "(\<forall>k p. gm_get (ps_peers (pm_set s)) k = Some p \<longleftrightarrow>
      tp_id p = k \<and> (\<exists>!i. i < length (pm_handlers s) \<and> fst (pm_handlers s ! i) = p \<and> owning (snd (pm_handlers s ! i)))) \<and>
    ((\<forall>h\<in>set (pm_handlers s). \<not> owning (snd h)) \<longrightarrow> ps_Len (pm_set s) = 0)"
proof -
  note inv = pm_reachable_inv [OF assms]
  have A: "\<And>i p. owner (pm_handlers s) i p \<Longrightarrow> gm_get (ps_peers (pm_set s)) (tp_id p) = Some p"
    and B: "\<And>k p. gm_get (ps_peers (pm_set s)) k = Some p \<Longrightarrow> tp_id p = k \<and> (\<exists>i. owner (pm_handlers s) i p)"
    and C: "\<And>i j p. owner (pm_handlers s) i p \<Longrightarrow> owner (pm_handlers s) j p \<Longrightarrow> i = j"
    using inv unfolding pm_inv_def by blast+
  have exact: "gm_get (ps_peers (pm_set s)) k = Some p \<longleftrightarrow> tp_id p = k \<and> (\<exists>!i. owner (pm_handlers s) i p)" for k p
    using A B C by blast
  have "ps_Len (pm_set s) = 0" if none: "\<forall>h\<in>set (pm_handlers s). \<not> owning (snd h)"
  proof -
    have "\<not> owner (pm_handlers s) i p" for i p using none by (auto simp: owner_def)
    with B have "gm_get (ps_peers (pm_set s)) k = None" for k by (metis option.exhaust)
    then have "gm_keys (ps_peers (pm_set s)) = {}" by (auto simp: gm_keys_get)
    then show ?thesis by (simp add: ps_Len_def gm_len_def gm_keys_def)
  qed
  with exact show ?thesis by (simp add: owner_def)
qed

text \<open>
  C30: The limit of 32 peers is a check before the act: any number of connections whose handlers
  all pass the test before the first of them registers are all registered at once.
\<close>

theorem tau_limit_race:
  assumes "\<forall>p\<in>set ps. \<exists>v q. tau_newPeer spare v q = Inr p" and "distinct (map tp_id ps)"
  shows "\<exists>s. pm_reachable spare s \<and> ps_Len (pm_set s) = length ps \<and> pm_handlers s = map (\<lambda>p. (p, Ph_reading)) ps"
  by (rule all_reading_reachable [OF assms])

text \<open>
  The id of a tau peer depends on the first eight bytes of its node id only, so of two nodes
  with a common beginning (every Ed25519 id begins with the same eight characters) only one can be
  registered at a time.
\<close>

theorem tau_id_collision:
  assumes "tau_newPeer spare v p = Inr a" and "tau_newPeer spare w q = Inr b"
    and "take 8 (peer_ID p) = take 8 (peer_ID q)" and "8 \<le> length (peer_ID p)" and "8 \<le> length (peer_ID q)"
    and "ps_Register a ps = (None, ps')"
  shows "tp_id a = tp_id b \<and> ps_Register b ps' = (Some errAlreadyRegistered, ps')"
proof -
  have i: "tp_id x = hex_bytes (map of_char (take 8 (peer_ID r)))"
    if "tau_newPeer spare u r = Inr x" "8 \<le> length (peer_ID r)" for u r and x :: "'a tau_peer"
    using that by (auto simp: tau_newPeer_def reslice_def content_def id_slice_def ID_Bytes_def take_map split: if_splits)
  have "tp_id a = tp_id b" using i [OF assms(1,4)] i [OF assms(2,5)] assms(3) by simp
  then show ?thesis using assms(6) by (auto simp: ps_Register_def map_simps split: if_splits)
qed

text \<open>
  The protocol that \<open>MakeProtocol\<close> returns has no topics, so a peer that runs it starts no
  read loop for it and hands it no message, whatever topic the message has.
\<close>

theorem tau_no_topics:
  assumes "MakeProtocol version = Inr proto"
  shows "pr_Name proto = ''tau'' \<and> pr_Version proto = 1 \<and> read_topics (newPeer node homeID [proto]) = [] \<and>
    (\<exists>e. peer_handle (newPeer node homeID [proto]) refused from data topic = Inl e)"
proof -
  have "version = 1" and "proto = \<lparr>pr_Name = ''tau'', pr_Version = version, pr_Topics = []\<rparr>"
    using assms by (auto simp: MakeProtocol_def protocolLengths_def tau_protocolVersion_def tau_protocolName_def
        gm_get_def overwrite_def split: if_splits)
  then show ?thesis
    by (simp add: read_topics_def newPeer_def matchProtocols_def gm_put_def peer_handle_def getProto_def
        newPeerError_def errorToString_def errInvalidMsgTopic_def)
qed

lemma tau_no_topics_witness:
  "\<exists>proto. MakeProtocol 1 = Inr proto \<and> read_topics (newPeer (NewNode ''n'' None None :: unit node) ''h'' [proto]) = []"
proof -
  obtain proto where "MakeProtocol 1 = Inr proto"
    by (simp add: MakeProtocol_def protocolLengths_def tau_protocolVersion_def gm_get_def)
  from tau_no_topics [OF this] this show ?thesis by blast
qed

subsection \<open>Witnesses\<close>

text \<open>Peers with given node ids.\<close>

definition sample_peer :: "string \<Rightarrow> unit p2p_peer" where
  "sample_peer i = newPeer (NewNode i None None) ''home'' []"

definition sample_tau :: "string \<Rightarrow> unit tau_peer" where
  "sample_tau i = \<lparr>tp_id = hex_bytes (map of_char (take 8 i)), tp_Peer = sample_peer i, tp_version = 1\<rparr>"

lemma sample_tau_new: "8 \<le> length i \<Longrightarrow> tau_newPeer 0 1 (sample_peer i) = Inr (sample_tau i)"
  by (simp add: tau_newPeer_def sample_tau_def sample_peer_def newPeer_def NewNode_def peer_ID_def reslice_def
      id_slice_def ID_Bytes_def s_cap_def content_def take_map)

lemma tau_peers_exact_witness:
  "\<exists>s :: unit manager. pm_reachable 0 s \<and> pm_handlers s = [(sample_tau ''QmPeerOne'', Ph_reading)] \<and>
    gm_get (ps_peers (pm_set s)) (tp_id (sample_tau ''QmPeerOne'')) = Some (sample_tau ''QmPeerOne'')"
proof -
  let ?p = "sample_tau ''QmPeerOne''"
  obtain s where s: "pm_reachable 0 s" "pm_handlers s = [(?p, Ph_reading)]"
    using all_reading_reachable [of "[?p]" 0] sample_tau_new [of "''QmPeerOne''"] by auto
  from tau_peers_exact [OF s(1)] have "gm_get (ps_peers (pm_set s)) (tp_id ?p) = Some ?p" by (auto simp: s(2))
  with s show ?thesis by blast
qed

text \<open>Forty peers, whose ids begin with different pairs of letters.\<close>

definition forty :: "unit tau_peer list" where
  "forty = map (\<lambda>n. sample_tau (char_of (65 + n) # ''mPeerId'')) [0..<40]"

lemma tau_limit_race_witness: "\<exists>s :: unit manager. pm_reachable 0 s \<and> ps_Len (pm_set s) = 40 \<and> maxPeers < ps_Len (pm_set s)"
proof -
  have new: "\<forall>p\<in>set forty. \<exists>v q. tau_newPeer 0 v q = Inr p"
  proof
    fix p
    assume "p \<in> set forty"
    then obtain n :: nat where "p = sample_tau (char_of (65 + n) # ''mPeerId'')" by (auto simp: forty_def)
    with sample_tau_new [of "char_of (65 + n) # ''mPeerId''"] show "\<exists>v q. tau_newPeer 0 v q = Inr p" by auto
  qed
  have ids: "distinct (map tp_id forty)"
    by code_simp
  have len: "length forty = 40" by (simp add: forty_def)
  obtain s :: "unit manager" where "pm_reachable 0 s" "ps_Len (pm_set s) = 40"
    using tau_limit_race [OF new ids] unfolding len by blast
  then show ?thesis by (intro exI [of _ s]) (simp add: maxPeers_def)
qed

lemma tau_id_collision_witness:
  "let a = sample_tau ''12D3KooWAlice''; b = sample_tau ''12D3KooWBob''; ps' = snd (ps_Register a newPeerSet) in
   tp_id a = tp_id b \<and> ps_Register b ps' = (Some errAlreadyRegistered, ps')"
  unfolding Let_def
  by (rule tau_id_collision [OF sample_tau_new sample_tau_new, where ps = newPeerSet])
    (simp_all add: sample_peer_def newPeer_def NewNode_def peer_ID_def ps_Register_def newPeerSet_def)

end
