(* ===== verification/Forum.thy ===== *)
theory Forum
  imports Tau_Peers
begin

text \<open>
  The sub-protocol \<open>forum\<close> (\<open>forum/forum.go\<close>) and the protocols the command of \<open>cmds/tau.go\<close>
  configures.  The handler and the greeting loop are functions of what their environment
  gives them: the results of \<open>ReadMsg\<close> and \<open>WriteMsg\<close> and the printed times.
\<close>

definition text_bytes :: "string \<Rightarrow> byte list" where
  "text_bytes s = map of_char s"

definition forum_protocolName :: string where "forum_protocolName = ''forum''"
definition forum_protocolVersion :: nat where "forum_protocolVersion = 1"
definition forum_protocolTopics :: "string list" where "forum_protocolTopics = [''HELLO'', ''TIME'', ''TIMERSP'']"

definition MakeForum :: protocol where
  "MakeForum = \<lparr>pr_Name = forum_protocolName, pr_Version = forum_protocolVersion, pr_Topics = forum_protocolTopics\<rparr>"

definition time_reply :: "string \<Rightarrow> message" where
  "time_reply now = \<lparr>msg_From = [], msg_Topic = ''TIMERSP'', msg_Payload = Inr (text_bytes (''Now:'' @ now))\<rparr>"

text \<open>
  One round of the handler: what \<open>ReadMsg\<close> returned, the current time and what \<open>WriteMsg\<close>
  returned if it was called.  The result: the messages written, and the error that ends
  the handler, none while it is still reading.
\<close>

type_synonym forum_round = "(p2p_error + message) \<times> string \<times> p2p_error option"

fun forum_handler :: "forum_round list \<Rightarrow> message list \<times> p2p_error option" where
  "forum_handler [] = ([], None)"
| "forum_handler ((Inl err, now, errw) # rounds) = ([], Some err)"
| "forum_handler ((Inr msg, now, errw) # rounds) =
     (if msg_Topic msg = ''TIME''
      then (case errw of
              Some e \<Rightarrow> ([time_reply now], Some e)
            | None \<Rightarrow> (case forum_handler rounds of (ms, r) \<Rightarrow> (time_reply now # ms, r)))
      else forum_handler rounds)"

definition sayhello :: "string \<Rightarrow> message" where
  "sayhello i = \<lparr>msg_From = [], msg_Topic = ''HELLO'', msg_Payload = Inr (text_bytes (''hello '' @ i))\<rparr>"

text \<open>The greeting loop over the results of its writes, one at each tick; it ends at the first error.\<close>

fun helloLoop :: "string \<Rightarrow> p2p_error option list \<Rightarrow> message list" where
  "helloLoop i [] = []"
| "helloLoop i (None # rs) = sayhello i # helloLoop i rs"
| "helloLoop i (Some e # rs) = [sayhello i]"

text \<open>The command makes the protocol \<open>tau\<close> and drops it.\<close>

definition main_protocols :: "go_panic + protocol list" where
  "main_protocols = bind_go (MakeProtocol 1) (\<lambda>_. Inr ([] @ [MakeForum]))"

lemma delivered_topic:
  "peer_handle p refused from data topic = Inr (proto, m) \<Longrightarrow> msg_Topic m = topic"
  by (auto simp: peer_handle_def split: sum.splits if_splits)

lemma long_topic: "i \<noteq> [] \<Longrightarrow> t \<in> set forum_protocolTopics \<Longrightarrow> constructTopic i t \<noteq> ''TIME''"
proof -
  assume i: "i \<noteq> []" and t: "t \<in> set forum_protocolTopics"
  from t have "4 \<le> length t" by (auto simp: forum_protocolTopics_def)
  with i have "4 < length (constructTopic i t)" by (cases i) (simp_all add: constructTopic_def)
  then show ?thesis by auto
qed

lemma handler_silent:
  "(\<And>msg now errw. (Inr msg, now, errw) \<in> set rounds \<Longrightarrow> msg_Topic msg \<noteq> ''TIME'') \<Longrightarrow> fst (forum_handler rounds) = []"
  by (induction rounds rule: forum_handler.induct) auto

subsection \<open>Properties\<close>

text \<open>
  The forum handler never answers a message that a read loop of a peer delivers: messages
  carry the full topic, which begins with the peer's id, and the handler compares with the bare
  \<open>TIME\<close>.
\<close>

theorem forum_never_answers:
  assumes "peer_ID p \<noteq> []"
    and "\<forall>(r, now, errw)\<in>set rounds. \<forall>msg. r = Inr msg \<longrightarrow> (\<exists>t\<in>set forum_protocolTopics. \<exists>refused from data proto.
      peer_handle p refused from data (constructTopic (peer_ID p) t) = Inr (proto, msg))"
  shows "fst (forum_handler rounds) = []"
proof (rule handler_silent)
  fix msg now errw
  assume "(Inr msg, now, errw) \<in> set rounds"
  then obtain t rf fr data proto where t: "t \<in> set forum_protocolTopics"
    and "peer_handle p rf fr data (constructTopic (peer_ID p) t) = Inr (proto, msg)"
    using assms(2) by blast
  then have "msg_Topic msg = constructTopic (peer_ID p) t" by (intro delivered_topic)
  then show "msg_Topic msg \<noteq> ''TIME''" using long_topic [OF assms(1) t] by simp
qed

text \<open>A peer of the command that delivers a message on its topic \<open>TIME\<close>.\<close>

definition forum_peer :: "unit p2p_peer" where
  "forum_peer = newPeer (NewNode ''QmPeer'' None None) ''QmHome'' [MakeForum]"

definition time_msg :: message where
  "time_msg = \<lparr>msg_From = ''QmPeer'', msg_Topic = ''QmPeerTIME'', msg_Payload = Inr []\<rparr>"

lemma forum_peer_delivers:
  "\<exists>proto. peer_handle forum_peer False ''QmPeer'' [] (constructTopic (peer_ID forum_peer) ''TIME'') = Inr (proto, time_msg)"
  by (simp add: forum_peer_def time_msg_def newPeer_def NewNode_def matchProtocols_def MakeForum_def peer_handle_def
      getProto_def gm_put_def peer_ID_def constructTopic_def forum_protocolTopics_def has_suffix_def)

lemma forum_never_answers_witness:
  "fst (forum_handler [(Inr time_msg, ''12:00'', None), (Inl Io_EOF, [], None)]) = []"
proof (rule forum_never_answers [where p = forum_peer])
  show "peer_ID forum_peer \<noteq> []" by (simp add: forum_peer_def peer_ID_def newPeer_def NewNode_def)
  have "''TIME'' \<in> set forum_protocolTopics" by (simp add: forum_protocolTopics_def)
  with forum_peer_delivers
  show "\<forall>(r, now, errw)\<in>set [(Inr time_msg, ''12:00'', None), (Inl Io_EOF, [], None)]. \<forall>msg. r = Inr msg \<longrightarrow>
      (\<exists>t\<in>set forum_protocolTopics. \<exists>refused from data proto.
        peer_handle forum_peer refused from data (constructTopic (peer_ID forum_peer) t) = Inr (proto, msg))"
    by fastforce
qed

text \<open>The peers of the command run the forum alone: the protocol \<open>tau\<close> is nowhere configured.\<close>

lemma command_without_tau:
  "\<exists>protocols. main_protocols = Inr protocols \<and>
    gm_keys (pp_running (newPeer node homeID protocols)) = {''forum''} \<and>
    read_topics (newPeer node homeID protocols) = map (constructTopic (n_id node)) [''HELLO'', ''TIME'', ''TIMERSP'']"
  by (simp add: main_protocols_def MakeProtocol_def protocolLengths_def tau_protocolVersion_def gm_get_def newPeer_def
      matchProtocols_def gm_keys_def gm_put_def MakeForum_def forum_protocolName_def read_topics_def
      forum_protocolTopics_def peer_ID_def)

end
