(* ===== verification/Forum_Run.thy ===== *)
theory Forum_Run
  imports Forum
begin

text \<open>
  The two goroutines of the forum on a peer (\<open>run\<close> in \<open>forum/forum.go\<close>): the handler, which reads and
  answers, and the greeting loop, which \<open>run\<close> starts and nobody waits for.  They share the peer's
  \<open>WriteMsg\<close>; what it returns is left open.
\<close>

subsection \<open>State\<close>

text \<open>The handler: in \<open>ReadMsg\<close>, in \<open>WriteMsg\<close> with an answer, returned.\<close>

datatype forum_reader = F_reading | F_answering | F_returned p2p_error

text \<open>The greeting loop: waiting for its ticker, in \<open>WriteMsg\<close>, ended.\<close>

datatype forum_greeter = G_waiting | G_writing | G_ended

text \<open>\<open>fr_written\<close> are the messages handed to \<open>WriteMsg\<close>, in order.\<close>

record forum_run =
  fr_handler :: forum_reader
  fr_hello :: forum_greeter
  fr_written :: "message list"

definition forum_start :: forum_run where
  "forum_start = \<lparr>fr_handler = F_reading, fr_hello = G_waiting, fr_written = []\<rparr>"

subsection \<open>Steps\<close>

text \<open>\<open>receive\<close> takes a message that a read loop of the peer delivers on one of its topics.\<close>

inductive forum_step :: "'a p2p_peer \<Rightarrow> forum_run \<Rightarrow> forum_run \<Rightarrow> bool" for p where
  receive_time: "fr_handler s = F_reading \<Longrightarrow> topic \<in> set (read_topics p) \<Longrightarrow>
    peer_handle p False from data topic = Inr (proto, msg) \<Longrightarrow> msg_Topic msg = ''TIME'' \<Longrightarrow>
    forum_step p s (s\<lparr>fr_handler := F_answering, fr_written := fr_written s @ [time_reply now]\<rparr>)"
| receive_other: "fr_handler s = F_reading \<Longrightarrow> topic \<in> set (read_topics p) \<Longrightarrow>
    peer_handle p False from data topic = Inr (proto, msg) \<Longrightarrow> msg_Topic msg \<noteq> ''TIME'' \<Longrightarrow>
    forum_step p s s"
| read_fails: "fr_handler s = F_reading \<Longrightarrow> ReadMsg ev = Inl e \<Longrightarrow>
    forum_step p s (s\<lparr>fr_handler := F_returned e\<rparr>)"
| answered: "fr_handler s = F_answering \<Longrightarrow>
    forum_step p s (s\<lparr>fr_handler := (case r of None \<Rightarrow> F_reading | Some e \<Rightarrow> F_returned e)\<rparr>)"
| tick: "fr_hello s = G_waiting \<Longrightarrow>
    forum_step p s (s\<lparr>fr_hello := G_writing, fr_written := fr_written s @ [sayhello (peer_ID p)]\<rparr>)"
| greeted: "fr_hello s = G_writing \<Longrightarrow>
    forum_step p s (s\<lparr>fr_hello := (if r = (None :: p2p_error option) then G_waiting else G_ended)\<rparr>)"

definition forum_reachable :: "'a p2p_peer \<Rightarrow> forum_run \<Rightarrow> bool" where
  "forum_reachable p s \<longleftrightarrow> (forum_step p)\<^sup>*\<^sup>* forum_start s"

subsection \<open>The invariant\<close>

text \<open>A peer that runs the forum alone reads topics with its id in front.\<close>

definition forum_only :: "'a p2p_peer \<Rightarrow> bool" where
  "forum_only p \<longleftrightarrow> peer_ID p \<noteq> [] \<and> read_topics p = map (constructTopic (peer_ID p)) forum_protocolTopics"

lemma forum_only_silent:
  assumes "forum_only p" and "topic \<in> set (read_topics p)" and "peer_handle p rf frm data topic = Inr (proto, msg)"
  shows "msg_Topic msg \<noteq> ''TIME''"
proof -
  obtain t where "t \<in> set forum_protocolTopics" "topic = constructTopic (peer_ID p) t"
    using assms(1,2) by (auto simp: forum_only_def)
  with delivered_topic [OF assms(3)] long_topic assms(1) show ?thesis by (auto simp: forum_only_def)
qed

text \<open>The handler reads or has returned with an error of \<open>ReadMsg\<close>; all that is written is the greeting.\<close>

definition forum_inv :: "'a p2p_peer \<Rightarrow> forum_run \<Rightarrow> bool" where
  "forum_inv p s \<longleftrightarrow>
     (fr_handler s = F_reading \<or> fr_handler s = F_returned Io_EOF \<or> fr_handler s = F_returned ErrReadTimeout) \<and>
     (\<forall>m\<in>set (fr_written s). m = sayhello (peer_ID p))"

lemma forum_inv_step: "forum_step p s s' \<Longrightarrow> forum_only p \<Longrightarrow> forum_inv p s \<Longrightarrow> forum_inv p s'"
proof (induction rule: forum_step.induct)
  case (receive_time s topic "from" data proto msg now)
  then show ?case using forum_only_silent [of p topic False "from" data proto msg] by simp
next
  case (read_fails s ev e)
  then show ?case by (auto simp: forum_inv_def ReadMsg_def split: read_event.splits)
qed (auto simp: forum_inv_def)

lemma forum_inv_reachable: "forum_reachable p s \<Longrightarrow> forum_only p \<Longrightarrow> forum_inv p s"
  unfolding forum_reachable_def
proof (induction rule: rtranclp_induct)
  case base
  show ?case by (simp add: forum_inv_def forum_start_def)
qed (blast intro: forum_inv_step)

lemma greeter_ends_step: "forum_step p s s' \<Longrightarrow> fr_hello s = G_ended \<Longrightarrow> fr_hello s' = G_ended"
  by (induction rule: forum_step.induct) simp_all

lemma returned_step: "forum_step p s s' \<Longrightarrow> fr_handler s = F_returned e \<Longrightarrow> fr_handler s' = F_returned e"
  by (induction rule: forum_step.induct) simp_all

text \<open>A run in which the handler has returned and the greeting loop goes on.\<close>

lemma greeter_outlives: "\<exists>s. forum_reachable p s \<and> fr_handler s = F_returned Io_EOF \<and> fr_hello s = G_writing \<and>
    fr_written s = [sayhello (peer_ID p)]"
proof -
  let ?a = "forum_start\<lparr>fr_handler := F_returned Io_EOF\<rparr>"
  let ?b = "?a\<lparr>fr_hello := G_writing, fr_written := fr_written ?a @ [sayhello (peer_ID p)]\<rparr>"
  have "forum_step p forum_start ?a"
    by (rule forum_step.read_fails [of _ Peer_closed]) (simp_all add: forum_start_def ReadMsg_def)
  moreover have "forum_step p ?a ?b" by (rule forum_step.tick) (simp add: forum_start_def)
  ultimately have "forum_reachable p ?b"
    unfolding forum_reachable_def by (meson converse_rtranclp_into_rtranclp r_into_rtranclp)
  then show ?thesis by (intro exI [of _ ?b]) (simp add: forum_start_def)
qed

subsection \<open>Properties\<close>

text \<open>
  All a forum peer ever writes is its greeting: in every state each message handed to \<open>WriteMsg\<close> is the
  greeting, no request for the time is answered, since messages carry the full topic and are compared
  with the bare \<open>TIME\<close>, and the handler reads or has returned with an error of \<open>ReadMsg\<close>.
\<close>

theorem forum_only_greets:
  assumes "peer_ID p \<noteq> []" and "read_topics p = map (constructTopic (peer_ID p)) forum_protocolTopics"
    and "forum_reachable p s"
  shows "fr_written s = replicate (length (fr_written s)) (sayhello (peer_ID p)) \<and>
    fr_handler s \<in> {F_reading, F_returned Io_EOF, F_returned ErrReadTimeout}"
proof -
  have "forum_only p" using assms(1,2) by (simp add: forum_only_def)
  then have "forum_inv p s" using forum_inv_reachable [OF assms(3)] by blast
  then show ?thesis by (auto simp: forum_inv_def replicate_length_same)
qed

text \<open>A peer of the command whose handler has returned while the greeting loop is still writing.\<close>

lemma forum_only_greets_witness:
  "\<exists>s. forum_reachable forum_peer s \<and> fr_handler s = F_returned Io_EOF \<and> fr_hello s = G_writing \<and>
    fr_written s = replicate (length (fr_written s)) (sayhello ''QmPeer'')"
proof -
  obtain s where s: "forum_reachable forum_peer s" "fr_handler s = F_returned Io_EOF" "fr_hello s = G_writing"
    using greeter_outlives [of forum_peer] by blast
  have i: "peer_ID forum_peer = ''QmPeer''" by (simp add: forum_peer_def peer_ID_def newPeer_def NewNode_def)
  moreover have "read_topics forum_peer = map (constructTopic (peer_ID forum_peer)) forum_protocolTopics"
    by (simp add: forum_peer_def newPeer_def NewNode_def matchProtocols_def gm_put_def MakeForum_def read_topics_def
        peer_ID_def forum_protocolTopics_def)
  ultimately show ?thesis using forum_only_greets [OF _ _ s(1)] s by (intro exI [of _ s]) simp
qed

end
