(* ===== verification/Peer_Run.thy ===== *)
theory Peer_Run
  imports Protocol_Peer
begin

text \<open>
  The goroutines of a peer (\<open>run\<close>, \<open>readLoop\<close>, \<open>startProtocols\<close> and \<open>WriteMsg\<close> of
  \<open>p2p/peer.go\<close>): the main loop, a read loop for each topic, a handler for each protocol and the
  callers of \<open>WriteMsg\<close>.  They share channels, the map of subscriptions and a wait group; every
  send, receive and closing of a channel is one step of the relation \<open>peer_step\<close>.  What the
  daemon and the handlers do is left open: a step exists for each outcome.
\<close>

subsection \<open>State\<close>

text \<open>
  The main goroutine in \<open>run\<close>: in the select, sending the write token, out of the loop and about
  to close the subscriptions, about to close \<open>p.closed\<close>, in \<open>p.wg.Wait\<close>, and back in \<open>runPeer\<close>.
\<close>

datatype main_loop =
    Selecting
  | Granting
  | Leaving bool p2p_error
  | Closing bool p2p_error
  | Waiting bool p2p_error
  | Returned bool p2p_error

text \<open>
  A read loop: in \<open>Sub\<close>, in \<open>Next\<close>, in \<open>handle\<close> with a message's sender and data, about to report
  an error (and whether it has subscribed), having reported and about to run the deferred calls,
  and ended.
\<close>

datatype read_loop =
    Rd_starting
  | Rd_listening
  | Rd_handling string "byte list"
  | Rd_failing bool p2p_error
  | Rd_leaving bool
  | Rd_ended

text \<open>
  A caller of \<open>WriteMsg\<close>: outside, waiting in the select, having taken the write token,
  having a result to report, and returned.
\<close>

datatype writer =
    W_idle
  | W_waiting message
  | W_holding string "p2p_error + byte list"
  | W_reporting "p2p_error option"
  | W_returned "p2p_error option"

text \<open>
  A subscription is named by the position of its read loop in \<open>read_topics\<close>; \<open>r_subChans\<close> is the
  map by topic, \<open>r_subClosed\<close> the subscriptions the program has closed.  \<open>r_handlers\<close> says which
  handlers are still running, in the order of \<open>pp_running\<close>.
\<close>

record peer_run =
  r_main :: main_loop
  r_writeStart :: nat
  r_writeErr :: "p2p_error option list"
  r_readErr :: "p2p_error list"
  r_protoErr :: "p2p_error list"
  r_writers :: "writer list"
  r_readers :: "read_loop list"
  r_subChans :: "(string, nat) gomap"
  r_subClosed :: "nat list"
  r_handlers :: "bool list"

definition chan_cap :: nat where "chan_cap = 1"

text \<open>\<open>run\<close> up to its loop: the read loops and handlers started, one write token issued.\<close>

definition run_start :: "'a p2p_peer \<Rightarrow> nat \<Rightarrow> peer_run" where
  "run_start p callers =
     \<lparr>r_main = Selecting, r_writeStart = 1, r_writeErr = [], r_readErr = [], r_protoErr = [],
      r_writers = replicate callers W_idle,
      r_readers = replicate (readLoopCount p) Rd_starting, r_subChans = [], r_subClosed = [],
      r_handlers = replicate (gm_len (pp_running p)) True\<rparr>"

fun closed_main :: "main_loop \<Rightarrow> bool" where
  "closed_main (Waiting b e) = True"
| "closed_main (Returned b e) = True"
| "closed_main m = False"

text \<open>The channel \<open>p.closed\<close> is closed.\<close>

definition r_closed :: "peer_run \<Rightarrow> bool" where
  "r_closed s = closed_main (r_main s)"

subsection \<open>Steps\<close>

text \<open>A handler that returns nil reports \<open>errProtocolReturned\<close>.\<close>

definition handler_result :: "p2p_error option \<Rightarrow> p2p_error" where
  "handler_result r = (case r of None \<Rightarrow> errProtocolReturned | Some e \<Rightarrow> e)"

text \<open>The deferred calls of a read loop: its subscription is deleted from the map, if it has one, and \<open>Done\<close>.\<close>

definition end_reader :: "'a p2p_peer \<Rightarrow> nat \<Rightarrow> bool \<Rightarrow> peer_run \<Rightarrow> peer_run" where
  "end_reader p i subscribed s =
     s\<lparr>r_readers := (r_readers s)[i := Rd_ended],
       r_subChans := if subscribed then gm_del (read_topics p ! i) (r_subChans s) else r_subChans s\<rparr>"

text \<open>
  \<open>WriteMsg\<close> declares a second \<open>err\<close> inside its first case, so the value it returns there is the
  named result, which is still nil.  A disconnect request is received by the loop; when the
  peer is closed it is a no-op.  \<open>run\<close> returns when the wait group is empty.
\<close>

inductive peer_step :: "string \<Rightarrow> 'a p2p_peer \<Rightarrow> peer_run \<Rightarrow> peer_run \<Rightarrow> bool" for homeID p where
  call_write: "i < length (r_writers s) \<Longrightarrow> r_writers s ! i \<in> {W_idle, W_returned r} \<Longrightarrow>
    peer_step homeID p s (s\<lparr>r_writers := (r_writers s)[i := W_waiting m]\<rparr>)"
| take_token: "i < length (r_writers s) \<Longrightarrow> r_writers s ! i = W_waiting m \<Longrightarrow> 0 < r_writeStart s \<Longrightarrow>
    peer_step homeID p s (s\<lparr>r_writeStart := r_writeStart s - 1,
      r_writers := (r_writers s)[i := W_holding (constructTopic homeID (msg_Topic m)) (msg_Payload m)]\<rparr>)"
| refuse_write: "i < length (r_writers s) \<Longrightarrow> r_writers s ! i = W_waiting m \<Longrightarrow> r_closed s \<Longrightarrow>
    peer_step homeID p s (s\<lparr>r_writers := (r_writers s)[i := W_returned (Some ErrShuttingDown)]\<rparr>)"
| payload_failed: "i < length (r_writers s) \<Longrightarrow> r_writers s ! i = W_holding topic (Inl e) \<Longrightarrow>
    peer_step homeID p s (s\<lparr>r_writers := (r_writers s)[i := W_reporting (Some e)]\<rparr>)"
| publish: "i < length (r_writers s) \<Longrightarrow> r_writers s ! i = W_holding topic (Inr data) \<Longrightarrow>
    peer_step homeID p s (s\<lparr>r_writers := (r_writers s)[i := W_reporting r]\<rparr>)"
| report: "i < length (r_writers s) \<Longrightarrow> r_writers s ! i = W_reporting r \<Longrightarrow>
    length (r_writeErr s) < chan_cap \<Longrightarrow>
    peer_step homeID p s (s\<lparr>r_writeErr := r_writeErr s @ [r],
      r_writers := (r_writers s)[i := W_returned None]\<rparr>)"
| subscribe: "i < length (r_readers s) \<Longrightarrow> r_readers s ! i = Rd_starting \<Longrightarrow>
    peer_step homeID p s (s\<lparr>r_readers := (r_readers s)[i := Rd_listening],
      r_subChans := gm_put (read_topics p ! i) i (r_subChans s)\<rparr>)"
| subscribe_fails: "i < length (r_readers s) \<Longrightarrow> r_readers s ! i = Rd_starting \<Longrightarrow>
    peer_step homeID p s (s\<lparr>r_readers := (r_readers s)[i := Rd_failing False e]\<rparr>)"
| next_message: "i < length (r_readers s) \<Longrightarrow> r_readers s ! i = Rd_listening \<Longrightarrow>
    peer_step homeID p s (s\<lparr>r_readers := (r_readers s)[i := Rd_handling from data]\<rparr>)"
| next_fails: "i < length (r_readers s) \<Longrightarrow> r_readers s ! i = Rd_listening \<Longrightarrow>
    peer_step homeID p s (s\<lparr>r_readers := (r_readers s)[i := Rd_failing True e]\<rparr>)"
| deliver: "i < length (r_readers s) \<Longrightarrow> r_readers s ! i = Rd_handling from data \<Longrightarrow>
    peer_handle p False from data (read_topics p ! i) = Inr (proto, msg) \<Longrightarrow>
    j < length (r_handlers s) \<Longrightarrow> r_handlers s ! j \<Longrightarrow> snd (pp_running p ! j) = proto \<Longrightarrow>
    peer_step homeID p s (s\<lparr>r_readers := (r_readers s)[i := Rd_listening]\<rparr>)"
| handle_fails: "i < length (r_readers s) \<Longrightarrow> r_readers s ! i = Rd_handling from data \<Longrightarrow>
    peer_handle p (r_closed s) from data (read_topics p ! i) = Inl e \<Longrightarrow>
    peer_step homeID p s (s\<lparr>r_readers := (r_readers s)[i := Rd_failing True e]\<rparr>)"
| reader_reports: "i < length (r_readers s) \<Longrightarrow> r_readers s ! i = Rd_failing subscribed e \<Longrightarrow>
    length (r_readErr s) < readLoopCount p \<Longrightarrow>
    peer_step homeID p s (s\<lparr>r_readErr := r_readErr s @ [e], r_readers := (r_readers s)[i := Rd_leaving subscribed]\<rparr>)"
| reader_ends: "i < length (r_readers s) \<Longrightarrow> r_readers s ! i = Rd_leaving subscribed \<Longrightarrow>
    peer_step homeID p s (end_reader p i subscribed s)"
| handler_returns: "j < length (r_handlers s) \<Longrightarrow> r_handlers s ! j \<Longrightarrow>
    length (r_protoErr s) < gm_len (pp_running p) \<Longrightarrow>
    peer_step homeID p s (s\<lparr>r_handlers := (r_handlers s)[j := False], r_protoErr := r_protoErr s @ [handler_result r]\<rparr>)"
| write_done: "r_main s = Selecting \<Longrightarrow> r_writeErr s = None # rest \<Longrightarrow>
    peer_step homeID p s (s\<lparr>r_main := Granting, r_writeErr := rest\<rparr>)"
| grant: "r_main s = Granting \<Longrightarrow> r_writeStart s < chan_cap \<Longrightarrow>
    peer_step homeID p s (s\<lparr>r_main := Selecting, r_writeStart := Suc (r_writeStart s)\<rparr>)"
| write_error: "r_main s = Selecting \<Longrightarrow> r_writeErr s = Some e # rest \<Longrightarrow>
    peer_step homeID p s (s\<lparr>r_main := Leaving False e, r_writeErr := rest\<rparr>)"
| read_error: "r_main s = Selecting \<Longrightarrow> r_readErr s = e # rest \<Longrightarrow>
    peer_step homeID p s (s\<lparr>r_main := Leaving (is_disc_reason e) e, r_readErr := rest\<rparr>)"
| proto_error: "r_main s = Selecting \<Longrightarrow> r_protoErr s = e # rest \<Longrightarrow>
    peer_step homeID p s (s\<lparr>r_main := Leaving False e, r_protoErr := rest\<rparr>)"
| disconnect: "r_main s = Selecting \<Longrightarrow>
    peer_step homeID p s (s\<lparr>r_main := Leaving False (Disc_reason reason)\<rparr>)"
| close_subscriptions: "r_main s = Leaving b e \<Longrightarrow>
    peer_step homeID p s (s\<lparr>r_main := Closing b e, r_subClosed := r_subClosed s @ map snd (r_subChans s)\<rparr>)"
| close_peer: "r_main s = Closing b e \<Longrightarrow> peer_step homeID p s (s\<lparr>r_main := Waiting b e\<rparr>)"
| run_returns: "r_main s = Waiting b e \<Longrightarrow> set (r_readers s) \<subseteq> {Rd_ended} \<Longrightarrow> True \<notin> set (r_handlers s) \<Longrightarrow>
    peer_step homeID p s (s\<lparr>r_main := Returned b e\<rparr>)"

definition peer_reachable :: "string \<Rightarrow> 'a p2p_peer \<Rightarrow> nat \<Rightarrow> peer_run \<Rightarrow> bool" where
  "peer_reachable homeID p callers s \<longleftrightarrow> (peer_step homeID p)\<^sup>*\<^sup>* (run_start p callers) s"

inductive_cases peer_stepE: "peer_step homeID p s s'"

subsection \<open>The invariant of a running peer\<close>

text \<open>How many elements of a list satisfy a predicate, after one element is replaced.\<close>

lemma count_update:
  "i < length xs \<Longrightarrow> length (filter P (xs[i := x])) + of_bool (P (xs ! i)) = length (filter P xs) + of_bool (P x)"
proof (induction xs arbitrary: i)
  case (Cons y xs)
  then show ?case by (cases i) auto
qed simp

lemma count_pos: "i < length xs \<Longrightarrow> P (xs ! i) \<Longrightarrow> 0 < length (filter P xs)"
  by (auto simp: filter_empty_conv)

fun has_token :: "writer \<Rightarrow> bool" where
  "has_token (W_holding topic payload) = True"
| "has_token (W_reporting r) = True"
| "has_token w = False"

definition tokens_held :: "writer list \<Rightarrow> nat" where
  "tokens_held ws = length (filter has_token ws)"

definition tokens :: "peer_run \<Rightarrow> nat" where
  "tokens s = r_writeStart s + tokens_held (r_writers s) + length (r_writeErr s)
     + (if r_main s = Granting then 1 else 0)"

text \<open>A read loop that may still send its error.\<close>

fun unreported :: "read_loop \<Rightarrow> bool" where
  "unreported (Rd_leaving subscribed) = False"
| "unreported Rd_ended = False"
| "unreported r = True"

definition reporting :: "peer_run \<Rightarrow> nat" where
  "reporting s = length (filter unreported (r_readers s))"

text \<open>The read loops and handlers the wait group counts.\<close>

definition reading :: "peer_run \<Rightarrow> nat" where
  "reading s = length (filter (\<lambda>r. r \<noteq> Rd_ended) (r_readers s))"

definition handling :: "peer_run \<Rightarrow> nat" where
  "handling s = length (filter (\<lambda>h. h) (r_handlers s))"

text \<open>The result of \<open>run\<close> once its loop has been left.\<close>

fun run_result :: "main_loop \<Rightarrow> (bool \<times> p2p_error) option" where
  "run_result (Leaving b e) = Some (b, e)"
| "run_result (Closing b e) = Some (b, e)"
| "run_result (Waiting b e) = Some (b, e)"
| "run_result (Returned b e) = Some (b, e)"
| "run_result m = None"

definition run_inv :: "'a p2p_peer \<Rightarrow> peer_run \<Rightarrow> bool" where
  "run_inv p s \<longleftrightarrow>
     tokens s \<le> 1 \<and> (run_result (r_main s) = None \<longrightarrow> tokens s = 1) \<and>
     length (r_readers s) = readLoopCount p \<and> length (r_handlers s) = gm_len (pp_running p) \<and>
     length (r_readErr s) + reporting s \<le> readLoopCount p \<and>
     length (r_protoErr s) + handling s \<le> gm_len (pp_running p) \<and>
     (\<forall>r. W_returned r \<in> set (r_writers s) \<longrightarrow> r = None \<or> r = Some ErrShuttingDown) \<and>
     (\<forall>b e. run_result (r_main s) = Some (b, e) \<longrightarrow> b \<longrightarrow> is_disc_reason e) \<and>
     (\<forall>b e. r_main s = Returned b e \<longrightarrow> reading s = 0 \<and> handling s = 0)"

lemmas run_simps = run_inv_def tokens_def reading_def reporting_def handling_def end_reader_def

lemma returned_update:
  "W_returned r \<in> set (ws[i := w]) \<Longrightarrow> W_returned r \<in> set ws \<or> w = W_returned r"
  by (auto dest: set_update_subset_insert [THEN subsetD])

lemma run_inv_start: "run_inv p (run_start p callers)"
  by (auto simp: run_simps run_start_def tokens_held_def)

text \<open>A writer changes its phase: the token it loses is the one that appears elsewhere.\<close>

lemma run_inv_writer:
  assumes inv: "run_inv p s" and i: "i < length (r_writers s)"
    and sum: "r_writeStart s' + of_bool (has_token w) + length (r_writeErr s') =
      r_writeStart s + of_bool (has_token (r_writers s ! i)) + length (r_writeErr s)"
    and ws: "r_writers s' = (r_writers s)[i := w]"
    and ret: "\<And>r. w = W_returned r \<Longrightarrow> r = None \<or> r = Some ErrShuttingDown"
    and same: "r_main s' = r_main s" "r_readErr s' = r_readErr s" "r_protoErr s' = r_protoErr s"
      "r_readers s' = r_readers s" "r_handlers s' = r_handlers s"
  shows "run_inv p s'"
proof -
  have "tokens s' = tokens s"
    using count_update [OF i, of has_token w] sum same(1) by (simp add: tokens_def tokens_held_def ws)
  moreover have "reading s' = reading s" "reporting s' = reporting s" "handling s' = handling s"
    by (simp_all add: reading_def reporting_def handling_def same)
  moreover have "r = None \<or> r = Some ErrShuttingDown" if "W_returned r \<in> set (r_writers s')" for r
    using that returned_update [of r "r_writers s" i w] ret inv unfolding ws run_inv_def by blast
  ultimately show ?thesis using inv same unfolding run_inv_def by simp
qed

text \<open>A read loop changes its phase; when it ends it has reported.\<close>

lemma run_inv_reader:
  assumes inv: "run_inv p s" and i: "i < length (r_readers s)" and "r_readers s ! i \<noteq> Rd_ended"
    and rs: "r_readers s' = (r_readers s)[i := r]"
    and err: "length (r_readErr s') + of_bool (unreported r) = length (r_readErr s) + of_bool (unreported (r_readers s ! i))"
    and same: "r_main s' = r_main s" "r_protoErr s' = r_protoErr s" "r_writers s' = r_writers s"
      "r_writeStart s' = r_writeStart s" "r_writeErr s' = r_writeErr s" "r_handlers s' = r_handlers s"
  shows "run_inv p s'"
proof -
  have "tokens s' = tokens s" "handling s' = handling s" by (simp_all add: tokens_def handling_def same)
  moreover have "\<not> (\<exists>b e. r_main s = Returned b e)"
    using inv count_pos [OF i, of "\<lambda>r. r \<noteq> Rd_ended"] assms(3) by (auto simp: run_inv_def reading_def)
  moreover have "length (r_readErr s') + reporting s' = length (r_readErr s) + reporting s"
    using count_update [OF i, of unreported r] err by (simp add: reporting_def rs)
  ultimately show ?thesis using inv same(1-3,6) rs unfolding run_inv_def by simp
qed

lemma run_inv_handler:
  assumes inv: "run_inv p s" and j: "j < length (r_handlers s)" "r_handlers s ! j"
  shows "run_inv p (s\<lparr>r_handlers := (r_handlers s)[j := False], r_protoErr := r_protoErr s @ [e]\<rparr>)"
proof -
  let ?s' = "s\<lparr>r_handlers := (r_handlers s)[j := False], r_protoErr := r_protoErr s @ [e]\<rparr>"
  have "tokens ?s' = tokens s" "reading ?s' = reading s" "reporting ?s' = reporting s"
    by (simp_all add: tokens_def reading_def reporting_def)
  moreover have "handling ?s' + 1 = handling s"
    using count_update [OF j(1), of "\<lambda>h. h" False] j(2) by (simp add: handling_def)
  ultimately show ?thesis using inv unfolding run_inv_def by auto
qed

text \<open>The main goroutine moves, and takes at most a result from a channel.\<close>

lemma run_inv_main:
  assumes inv: "run_inv p s" and tok: "tokens s' \<le> tokens s" "run_result (r_main s') = None \<longrightarrow> tokens s' = tokens s"
    and new: "run_result (r_main s') = None \<longrightarrow> run_result (r_main s) = None"
      "\<And>b e. run_result (r_main s') = Some (b, e) \<Longrightarrow> b \<Longrightarrow> is_disc_reason e"
      "\<And>b e. r_main s' = Returned b e \<Longrightarrow> reading s = 0 \<and> handling s = 0"
    and err: "length (r_readErr s') \<le> length (r_readErr s)" "length (r_protoErr s') \<le> length (r_protoErr s)"
    and same: "r_writers s' = r_writers s" "r_readers s' = r_readers s" "r_handlers s' = r_handlers s"
  shows "run_inv p s'"
proof -
  have "reading s' = reading s" "reporting s' = reporting s" "handling s' = handling s"
    by (simp_all add: reading_def reporting_def handling_def same)
  then show ?thesis using inv tok new err same unfolding run_inv_def by auto
qed

lemma run_inv_step:
  assumes inv: "run_inv p s" and step: "peer_step homeID p s s'"
  shows "run_inv p s'"
  using step
proof cases
  case (call_write i r m)
  then show ?thesis by (intro run_inv_writer [OF inv call_write(2)]) auto
next
  case (take_token i m)
  then show ?thesis by (intro run_inv_writer [OF inv take_token(2)]) auto
next
  case (refuse_write i m)
  then show ?thesis by (intro run_inv_writer [OF inv refuse_write(2)]) auto
next
  case (payload_failed i topic e)
  then show ?thesis by (intro run_inv_writer [OF inv payload_failed(2)]) auto
next
  case (publish i topic data r)
  then show ?thesis by (intro run_inv_writer [OF inv publish(2)]) auto
next
  case (report i r)
  then show ?thesis by (intro run_inv_writer [OF inv report(2)]) auto
next
  case (subscribe i)
  then show ?thesis by (intro run_inv_reader [OF inv subscribe(2)]) auto
next
  case (subscribe_fails i e)
  then show ?thesis by (intro run_inv_reader [OF inv subscribe_fails(2)]) auto
next
  case (next_message i "from" data)
  then show ?thesis by (intro run_inv_reader [OF inv next_message(2)]) auto
next
  case (next_fails i e)
  then show ?thesis by (intro run_inv_reader [OF inv next_fails(2)]) auto
next
  case (deliver i "from" data proto msg j)
  then show ?thesis by (intro run_inv_reader [OF inv deliver(2)]) auto
next
  case (handle_fails i "from" data e)
  then show ?thesis by (intro run_inv_reader [OF inv handle_fails(2)]) auto
next
  case (reader_reports i subscribed e)
  then show ?thesis by (intro run_inv_reader [OF inv reader_reports(2)]) auto
next
  case (reader_ends i subscribed)
  then show ?thesis by (intro run_inv_reader [OF inv reader_ends(2)]) (auto simp: end_reader_def)
next
  case (handler_returns j r)
  then show ?thesis using run_inv_handler [OF inv] by blast
next
  case (close_subscriptions b e)
  then show ?thesis using inv by (intro run_inv_main [OF inv]) (auto simp: run_simps)
next
  case (close_peer b e)
  then show ?thesis using inv by (intro run_inv_main [OF inv]) (auto simp: run_simps)
next
  case (run_returns b e)
  then have "reading s = 0" "handling s = 0" by (auto simp: reading_def handling_def filter_empty_conv)
  with run_returns show ?thesis using inv by (intro run_inv_main [OF inv]) (auto simp: run_inv_def tokens_def)
qed (intro run_inv_main [OF inv], (auto simp: tokens_def)+)+

lemma run_inv_reachable: "peer_reachable homeID p callers s \<Longrightarrow> run_inv p s"
  unfolding peer_reachable_def
  by (induction rule: rtranclp_induct) (auto intro: run_inv_start run_inv_step)

subsection \<open>Reaching a return\<close>

lemma step_path:
  "(peer_step homeID p)\<^sup>*\<^sup>* s t \<Longrightarrow> peer_step homeID p t u \<Longrightarrow> (peer_step homeID p)\<^sup>*\<^sup>* s u"
  by (rule rtranclp.rtrancl_into_rtrancl)

lemma run_inv_steps: "(peer_step homeID p)\<^sup>*\<^sup>* s t \<Longrightarrow> run_inv p s \<Longrightarrow> run_inv p t"
  by (induction rule: rtranclp_induct) (auto intro: run_inv_step)

lemma reporting_returns:
  assumes "i < length (r_writers s)" and "r_writers s ! i = W_reporting r" and "length (r_writeErr s) < chan_cap"
  shows "\<exists>s'. peer_step homeID p s s' \<and> r_writers s' ! i = W_returned None"
  using peer_step.report [OF assms] assms(1) by (intro exI conjI) auto

lemma holder_frees_report:
  assumes "run_inv p s" and "i < length (r_writers s)" and "has_token (r_writers s ! i)"
  shows "length (r_writeErr s) < chan_cap"
  using assms(1) count_pos [OF assms(2), of has_token] assms(3)
  unfolding run_inv_def tokens_def tokens_held_def chan_cap_def by linarith

lemma holding_returns:
  assumes inv: "run_inv p s" and i: "i < length (r_writers s)" and w: "r_writers s ! i = W_holding topic payload"
  shows "\<exists>s'. (peer_step homeID p)\<^sup>*\<^sup>* s s' \<and> r_writers s' ! i = W_returned None"
proof -
  obtain r where step: "peer_step homeID p s (s\<lparr>r_writers := (r_writers s)[i := W_reporting r]\<rparr>)"
    using peer_step.payload_failed [OF i] peer_step.publish [OF i] w by (cases payload) blast+
  let ?s1 = "s\<lparr>r_writers := (r_writers s)[i := W_reporting r]\<rparr>"
  have "length (r_writeErr ?s1) < chan_cap"
    using holder_frees_report [OF inv i] w by simp
  then obtain s' where "peer_step homeID p ?s1 s'" "r_writers s' ! i = W_returned None"
    using reporting_returns [of i ?s1 r homeID p] i by auto
  with step show ?thesis by (intro exI conjI) (rule rtranclp.rtrancl_into_rtrancl, auto)
qed

subsection \<open>Shutting down\<close>

text \<open>When the peer is closed, every read loop that is still running can come to fail, then report and end.\<close>

lemma reader_fails:
  assumes "r_closed s" and i: "i < length (r_readers s)" and "unreported (r_readers s ! i)"
  shows "\<exists>sub e. (peer_step homeID p)\<^sup>*\<^sup>* s (s\<lparr>r_readers := (r_readers s)[i := Rd_failing sub e]\<rparr>)"
proof (cases "r_readers s ! i")
  case Rd_starting
  then show ?thesis using peer_step.subscribe_fails [OF i] by blast
next
  case Rd_listening
  then show ?thesis using peer_step.next_fails [OF i] by blast
next
  case (Rd_handling sender data)
  obtain e where "peer_handle p True sender data (read_topics p ! i) = Inl e"
    by (cases "getProto p (read_topics p ! i)") (simp_all add: peer_handle_def)
  with assms(1) show ?thesis using peer_step.handle_fails [OF i Rd_handling] by (metis r_into_rtranclp)
next
  case (Rd_failing sub e)
  have "s\<lparr>r_readers := (r_readers s)[i := Rd_failing sub e]\<rparr> = s"
    using list_update_id [of "r_readers s" i] Rd_failing by simp
  then show ?thesis by (metis rtranclp.rtrancl_refl)
qed (use assms(3) in auto)

lemma report_room:
  assumes "run_inv p s" and "r \<in> set (r_readers s)" and "unreported r"
  shows "length (r_readErr s) < readLoopCount p"
proof -
  have "0 < reporting s" using assms(2,3) by (auto simp: reporting_def filter_empty_conv)
  with assms(1) show ?thesis by (auto simp: run_inv_def)
qed

lemma reader_leaves:
  assumes inv: "run_inv p s" and "r_closed s" and i: "i < length (r_readers s)" "r_readers s ! i \<noteq> Rd_ended"
  shows "\<exists>t sub. (peer_step homeID p)\<^sup>*\<^sup>* s t \<and> r_readers t = (r_readers s)[i := Rd_leaving sub] \<and>
    r_main t = r_main s \<and> r_handlers t = r_handlers s"
proof (cases "unreported (r_readers s ! i)")
  case True
  then obtain sub e where steps: "(peer_step homeID p)\<^sup>*\<^sup>* s (s\<lparr>r_readers := (r_readers s)[i := Rd_failing sub e]\<rparr>)"
    using reader_fails [OF assms(2) i(1)] by blast
  let ?t = "s\<lparr>r_readers := (r_readers s)[i := Rd_failing sub e]\<rparr>"
  have "length (r_readErr ?t) < readLoopCount p" using report_room [OF inv nth_mem [OF i(1)] True] by simp
  then have "peer_step homeID p ?t (?t\<lparr>r_readErr := r_readErr ?t @ [e], r_readers := (r_readers ?t)[i := Rd_leaving sub]\<rparr>)"
    by (intro peer_step.reader_reports) (use i in simp_all)
  from step_path [OF steps this] show ?thesis by (intro exI conjI) (assumption, simp_all)
next
  case False
  with i(2) obtain sub where "r_readers s ! i = Rd_leaving sub" by (cases "r_readers s ! i") auto
  then show ?thesis using list_update_id [of "r_readers s" i] by (metis rtranclp.rtrancl_refl)
qed

lemma reader_can_end:
  assumes inv: "run_inv p s" and main: "r_main s = Waiting b e"
    and i: "i < length (r_readers s)" "r_readers s ! i \<noteq> Rd_ended"
  shows "\<exists>t. (peer_step homeID p)\<^sup>*\<^sup>* s t \<and> r_main t = Waiting b e \<and> reading t < reading s \<and> r_handlers t = r_handlers s"
proof -
  have "r_closed s" by (simp add: r_closed_def main)
  then obtain t sub where t: "(peer_step homeID p)\<^sup>*\<^sup>* s t" "r_readers t = (r_readers s)[i := Rd_leaving sub]"
      "r_main t = r_main s" "r_handlers t = r_handlers s"
    using reader_leaves [OF inv _ i] by blast
  have "peer_step homeID p t (end_reader p i sub t)" by (rule peer_step.reader_ends) (use t(2) i in simp_all)
  with t(1) have "(peer_step homeID p)\<^sup>*\<^sup>* s (end_reader p i sub t)" by (rule step_path)
  moreover have "reading (end_reader p i sub t) < reading s"
    using count_update [OF i(1), of "\<lambda>r. r \<noteq> Rd_ended" Rd_ended] i(2) by (simp add: reading_def end_reader_def t(2))
  ultimately show ?thesis using t(3,4) main by (intro exI [of _ "end_reader p i sub t"]) (simp add: end_reader_def)
qed

lemma handler_can_end:
  assumes inv: "run_inv p s" and j: "j < length (r_handlers s)" "r_handlers s ! j"
  shows "\<exists>t. peer_step homeID p s t \<and> r_main t = r_main s \<and> reading t = reading s \<and> handling t < handling s"
proof -
  have "0 < handling s" unfolding handling_def by (rule count_pos [OF j(1)]) (simp add: j(2))
  with inv have "length (r_protoErr s) < gm_len (pp_running p)" by (auto simp: run_inv_def)
  from peer_step.handler_returns [OF j this, of homeID None] show ?thesis
    using count_update [OF j(1), of "\<lambda>h. h" False] j(2)
    by (intro exI conjI) (assumption, simp_all add: reading_def handling_def)
qed

lemma waiting_returns:
  "run_inv p s \<Longrightarrow> r_main s = Waiting b e \<Longrightarrow> \<exists>t. (peer_step homeID p)\<^sup>*\<^sup>* s t \<and> r_main t = Returned b e"
proof (induction "reading s + handling s" arbitrary: s rule: less_induct)
  case less
  consider i where "i < length (r_readers s)" "r_readers s ! i \<noteq> Rd_ended"
    | j where "j < length (r_handlers s)" "r_handlers s ! j"
    | "set (r_readers s) \<subseteq> {Rd_ended}" "True \<notin> set (r_handlers s)"
    by (metis in_set_conv_nth singletonI subsetI)
  then show ?case
  proof cases
    case (1 i)
    obtain t where t: "(peer_step homeID p)\<^sup>*\<^sup>* s t" "r_main t = Waiting b e" "reading t < reading s"
        "r_handlers t = r_handlers s"
      using reader_can_end [OF less.prems 1] by blast
    moreover have "run_inv p t" using run_inv_steps [OF t(1) less.prems(1)] .
    moreover have "reading t + handling t < reading s + handling s" using t(3,4) by (simp add: handling_def)
    ultimately show ?thesis using less.hyps [of t] by (meson rtranclp_trans)
  next
    case (2 j)
    obtain t where t: "peer_step homeID p s t" "r_main t = r_main s" "reading t = reading s" "handling t < handling s"
      using handler_can_end [OF less.prems(1) 2] by blast
    moreover have "run_inv p t" by (rule run_inv_step [OF less.prems(1) t(1)])
    ultimately show ?thesis using less.hyps [of t] less.prems(2) by (metis add_less_cancel_left converse_rtranclp_into_rtranclp)
  next
    case 3
    show ?thesis
      by (rule exI [of _ "s\<lparr>r_main := Returned b e\<rparr>"]) (use peer_step.run_returns [OF less.prems(2) 3] in auto)
  qed
qed

text \<open>No subscription is closed after the main goroutine has passed that point.\<close>

definition late_reader :: "nat \<Rightarrow> bool \<Rightarrow> p2p_error \<Rightarrow> peer_run \<Rightarrow> bool" where
  "late_reader i b e s \<longleftrightarrow>
     i < length (r_readers s) \<and> i \<notin> set (r_subClosed s) \<and>
     (r_main s = Waiting b e \<or> r_main s = Returned b e \<and> r_readers s ! i = Rd_ended)"

lemma late_reader_step: "peer_step homeID p s t \<Longrightarrow> late_reader i b e s \<Longrightarrow> late_reader i b e t"
  by (induction rule: peer_step.induct)
    (auto simp: late_reader_def end_reader_def nth_list_update dest: nth_mem)

lemma late_reader_steps: "(peer_step homeID p)\<^sup>*\<^sup>* s t \<Longrightarrow> late_reader i b e s \<Longrightarrow> late_reader i b e t"
  by (induction rule: rtranclp_induct) (auto dest: late_reader_step)

subsection \<open>Properties\<close>

text \<open>
  C18: However the goroutines of a peer interleave, at most one write is in progress, and no send on the
  channels \<open>writeErr\<close>, \<open>writeStart\<close>, \<open>readErr\<close> and \<open>protoErr\<close> blocks: a writer can report its
  result, the main loop can hand out the next write token, and a read loop or handler that
  ends can say so, even after the main loop has been left.  The send of a message to a handler
  can wait, but not longer than until the peer is closed.
\<close>

theorem peer_result_sends_never_block:
  assumes "peer_reachable homeID p callers s"
  shows "tokens_held (r_writers s) \<le> 1 \<and>
    (\<forall>i<length (r_writers s). has_token (r_writers s ! i) \<longrightarrow> length (r_writeErr s) < chan_cap) \<and>
    (r_main s = Granting \<longrightarrow> r_writeStart s < chan_cap) \<and>
    (\<forall>r\<in>set (r_readers s). unreported r \<longrightarrow> length (r_readErr s) < readLoopCount p) \<and>
    (True \<in> set (r_handlers s) \<longrightarrow> length (r_protoErr s) < gm_len (pp_running p)) \<and>
    (r_closed s \<longrightarrow> (\<forall>i<length (r_readers s). \<forall>from data. r_readers s ! i = Rd_handling from data \<longrightarrow>
       (\<exists>e. peer_step homeID p s (s\<lparr>r_readers := (r_readers s)[i := Rd_failing True e]\<rparr>))))"
proof -
  note inv = run_inv_reachable [OF assms]
  have "\<exists>e. peer_step homeID p s (s\<lparr>r_readers := (r_readers s)[i := Rd_failing True e]\<rparr>)"
    if "r_closed s" "i < length (r_readers s)" "r_readers s ! i = Rd_handling sender data" for i sender data
    using peer_step.handle_fails [OF that(2,3), of p] that(1)
    by (cases "getProto p (read_topics p ! i)") (auto simp: peer_handle_def)
  moreover have "True \<in> set (r_handlers s) \<Longrightarrow> 0 < handling s"
    by (auto simp: handling_def filter_empty_conv)
  ultimately show ?thesis
    using inv holder_frees_report [OF inv] report_room [OF inv] by (fastforce simp: run_inv_def tokens_def chan_cap_def)
qed

lemma peer_result_sends_never_block_witness:
  "let p = newPeer (NewNode ''n'' None None :: unit node) ''h''
       [\<lparr>pr_Name = ''forum'', pr_Version = 1, pr_Topics = [''TIME'']\<rparr>];
     s = (run_start p 1)\<lparr>r_readers := [Rd_failing False Io_EOF]\<rparr> in
   peer_reachable ''h'' p 1 s \<and> length (r_readErr s) < readLoopCount p \<and> length (r_protoErr s) < gm_len (pp_running p)"
proof -
  let ?p = "newPeer (NewNode ''n'' None None :: unit node) ''h''
       [\<lparr>pr_Name = ''forum'', pr_Version = 1, pr_Topics = [''TIME'']\<rparr>]"
  let ?s = "(run_start ?p 1)\<lparr>r_readers := [Rd_failing False Io_EOF]\<rparr>"
  have start: "r_readers (run_start ?p 1) = [Rd_starting]" "r_handlers ?s = [True]"
    by (simp_all add: run_start_def newPeer_def matchProtocols_def gm_put_def readLoopCount_def gm_len_def)
  then have "peer_step ''h'' ?p (run_start ?p 1) ?s"
    using peer_step.subscribe_fails [of 0 "run_start ?p 1" "''h''" ?p Io_EOF] by simp
  then have reach: "peer_reachable ''h'' ?p 1 ?s" unfolding peer_reachable_def by (rule r_into_rtranclp)
  from peer_result_sends_never_block [OF reach] reach start show ?thesis by (simp add: Let_def)
qed

text \<open>
  When the peer has shut down, every call of \<open>WriteMsg\<close> that is under way can return,
  whatever it was waiting for.
\<close>

theorem peer_shutdown_releases_writers:
  assumes "peer_reachable homeID p callers s" and "r_closed s" and "i < length (r_writers s)"
    and "r_writers s ! i \<noteq> W_idle"
  shows "\<exists>s' r. (peer_step homeID p)\<^sup>*\<^sup>* s s' \<and> r_writers s' ! i = W_returned r"
proof (cases "r_writers s ! i")
  case (W_waiting m)
  then show ?thesis
    using r_into_rtranclp [of "peer_step homeID p", OF peer_step.refuse_write [OF assms(3) W_waiting assms(2)]] assms(3)
    by (intro exI conjI) auto
next
  case (W_holding topic payload)
  then show ?thesis using holding_returns [OF run_inv_reachable [OF assms(1)] assms(3)] by blast
next
  case (W_reporting r)
  have "length (r_writeErr s) < chan_cap"
    using holder_frees_report [OF run_inv_reachable [OF assms(1)] assms(3)] W_reporting by simp
  then show ?thesis using reporting_returns [OF assms(3) W_reporting] by blast
qed (use assms in blast)+

text \<open>The way from a disconnect request to the closed channel.\<close>

lemma disconnect_closes:
  assumes "r_main s = Selecting"
  shows "(peer_step homeID p)\<^sup>*\<^sup>* s
    (s\<lparr>r_main := Waiting False (Disc_reason d), r_subClosed := r_subClosed s @ map snd (r_subChans s)\<rparr>)"
proof -
  let ?a = "s\<lparr>r_main := Leaving False (Disc_reason d)\<rparr>"
  let ?b = "?a\<lparr>r_main := Closing False (Disc_reason d), r_subClosed := r_subClosed ?a @ map snd (r_subChans ?a)\<rparr>"
  let ?c = "?b\<lparr>r_main := Waiting False (Disc_reason d)\<rparr>"
  have "peer_step homeID p s ?a" by (rule peer_step.disconnect [OF assms])
  moreover have "peer_step homeID p ?a ?b" by (rule peer_step.close_subscriptions) simp
  moreover have "peer_step homeID p ?b ?c" by (rule peer_step.close_peer) simp
  ultimately have "(peer_step homeID p)\<^sup>*\<^sup>* s ?c" by (blast intro: converse_rtranclp_into_rtranclp)
  then show ?thesis by (rule back_subst) simp
qed

lemma peer_shutdown_releases_writers_witness:
  "let p = newPeer (NewNode ''n'' None None :: unit node) ''h'' [];
       s = (run_start p 1)\<lparr>r_main := Waiting False (Disc_reason DiscQuitting),
         r_writers := [W_waiting \<lparr>msg_From = [], msg_Topic = [], msg_Payload = Inr []\<rparr>]\<rparr>
   in \<exists>s' r. (peer_step ''h'' p)\<^sup>*\<^sup>* s s' \<and> r_writers s' ! 0 = W_returned r"
proof -
  let ?p = "newPeer (NewNode ''n'' None None :: unit node) ''h'' []"
  let ?m = "\<lparr>msg_From = [], msg_Topic = [], msg_Payload = Inr []\<rparr>"
  let ?a = "(run_start ?p 1)\<lparr>r_writers := [W_waiting ?m]\<rparr>"
  have "peer_step ''h'' ?p (run_start ?p 1) ?a"
    using peer_step.call_write [of 0 "run_start ?p 1" None "''h''" ?p ?m] by (simp add: run_start_def)
  moreover have "r_main ?a = Selecting" by (simp add: run_start_def)
  note disconnect_closes [OF this, of "''h''" ?p DiscQuitting]
  ultimately have "peer_reachable ''h'' ?p 1
      (?a\<lparr>r_main := Waiting False (Disc_reason DiscQuitting), r_subClosed := r_subClosed ?a @ map snd (r_subChans ?a)\<rparr>)"
    unfolding peer_reachable_def by (rule converse_rtranclp_into_rtranclp)
  then have "peer_reachable ''h'' ?p 1
      ((run_start ?p 1)\<lparr>r_main := Waiting False (Disc_reason DiscQuitting), r_writers := [W_waiting ?m]\<rparr>)"
    by (simp add: run_start_def)
  then show ?thesis
    unfolding Let_def by (rule peer_shutdown_releases_writers) (simp_all add: r_closed_def)
qed

text \<open>
  C36: \<open>WriteMsg\<close> never tells its caller that a write failed: for every message and every error there is
  a run in which publishing the message fails with the error, the peer is torn down because of it,
  and the call has returned nil (the inner \<open>err\<close> shadows the named result).
\<close>

theorem write_failure_hidden:
  "\<exists>s s' t. peer_reachable homeID p 1 s \<and> r_writers s = [W_holding (constructTopic homeID topic) (Inr data)] \<and>
     peer_step homeID p s s' \<and> r_writers s' = [W_reporting (Some e)] \<and>
     (peer_step homeID p)\<^sup>*\<^sup>* s' t \<and> r_main t = Leaving False e \<and> r_writers t = [W_returned None]"
proof -
  let ?m = "\<lparr>msg_From = [], msg_Topic = topic, msg_Payload = Inr data\<rparr>"
  let ?s0 = "run_start p 1"
  let ?s1 = "?s0\<lparr>r_writers := [W_waiting ?m]\<rparr>"
  let ?s2 = "?s1\<lparr>r_writeStart := 0, r_writers := [W_holding (constructTopic homeID topic) (Inr data)]\<rparr>"
  let ?s3 = "?s2\<lparr>r_writers := [W_reporting (Some e)]\<rparr>"
  let ?s4 = "?s3\<lparr>r_writeErr := [Some e], r_writers := [W_returned None]\<rparr>"
  let ?s5 = "?s4\<lparr>r_main := Leaving False e, r_writeErr := []\<rparr>"
  have "peer_step homeID p ?s0 ?s1"
    using peer_step.call_write [of 0 ?s0 None homeID p ?m] by (simp add: run_start_def)
  moreover have "peer_step homeID p ?s1 ?s2"
    using peer_step.take_token [of 0 ?s1 ?m homeID p] by (simp add: run_start_def)
  ultimately have reach: "peer_reachable homeID p 1 ?s2"
    unfolding peer_reachable_def by (meson r_into_rtranclp rtranclp.rtrancl_into_rtrancl)
  have fails: "peer_step homeID p ?s2 ?s3"
    using peer_step.publish [of 0 ?s2 _ data homeID p "Some e"] by simp
  have "peer_step homeID p ?s3 ?s4"
    using peer_step.report [of 0 ?s3 "Some e" homeID p] by (simp add: run_start_def chan_cap_def)
  moreover have "peer_step homeID p ?s4 ?s5"
    by (rule peer_step.write_error) (simp_all add: run_start_def)
  ultimately have "(peer_step homeID p)\<^sup>*\<^sup>* ?s3 ?s5" by (meson r_into_rtranclp rtranclp.rtrancl_into_rtrancl)
  with reach fails show ?thesis by (intro exI [of _ ?s2] exI [of _ ?s3] exI [of _ ?s5]) simp
qed

text \<open>
  C37: Once the main loop of a peer has been left, \<open>run\<close> can return with the result it left the loop
  with, wherever the read loops, the handlers and the writers are.
\<close>

theorem peer_run_returns:
  assumes "peer_reachable homeID p callers s" and "run_result (r_main s) = Some (b, e)"
  shows "\<exists>t. (peer_step homeID p)\<^sup>*\<^sup>* s t \<and> r_main t = Returned b e"
proof -
  note inv = run_inv_reachable [OF assms(1)]
  have closing: "\<exists>t. (peer_step homeID p)\<^sup>*\<^sup>* u t \<and> r_main t = Returned b e" if "r_main u = Closing b e" "run_inv p u" for u
  proof -
    note step = peer_step.close_peer [OF that(1), of homeID p]
    have "\<exists>t. (peer_step homeID p)\<^sup>*\<^sup>* (u\<lparr>r_main := Waiting b e\<rparr>) t \<and> r_main t = Returned b e"
      by (rule waiting_returns [OF run_inv_step [OF that(2) step]]) simp
    with step show ?thesis by (blast intro: converse_rtranclp_into_rtranclp)
  qed
  show ?thesis
  proof (cases "r_main s")
    case (Leaving b' e')
    with assms(2) have "r_main s = Leaving b e" by simp
    note step = peer_step.close_subscriptions [OF this, of homeID p]
    have "\<exists>t. (peer_step homeID p)\<^sup>*\<^sup>*
        (s\<lparr>r_main := Closing b e, r_subClosed := r_subClosed s @ map snd (r_subChans s)\<rparr>) t \<and> r_main t = Returned b e"
      by (rule closing [OF _ run_inv_step [OF inv step]]) simp
    with step show ?thesis by (blast intro: converse_rtranclp_into_rtranclp)
  qed (use assms(2) closing inv waiting_returns [OF inv] in auto)
qed

lemma peer_run_returns_witness:
  "let p = newPeer (NewNode ''n'' None None :: unit node) ''h''
       [\<lparr>pr_Name = ''forum'', pr_Version = 1, pr_Topics = [''TIME'']\<rparr>];
     s = (run_start p 1)\<lparr>r_main := Leaving False (Disc_reason DiscQuitting)\<rparr>
   in \<exists>t. (peer_step ''h'' p)\<^sup>*\<^sup>* s t \<and> r_main t = Returned False (Disc_reason DiscQuitting)"
  unfolding Let_def
proof (rule peer_run_returns [where callers = 1])
  let ?p = "newPeer (NewNode ''n'' None None :: unit node) ''h''
       [\<lparr>pr_Name = ''forum'', pr_Version = 1, pr_Topics = [''TIME'']\<rparr>]"
  show "peer_reachable ''h'' ?p 1 ((run_start ?p 1)\<lparr>r_main := Leaving False (Disc_reason DiscQuitting)\<rparr>)"
    unfolding peer_reachable_def by (rule r_into_rtranclp, rule peer_step.disconnect) (simp add: run_start_def)
qed simp

text \<open>
  A read loop that subscribes after the main goroutine has closed the subscriptions is never
  told: for every read loop of a peer there is a run in which its subscription is open while \<open>run\<close>
  waits for it, no step of the program ever closes it, and as long as the daemon says nothing
  on the topic \<open>run\<close> does not return.
\<close>

theorem late_subscription_blocks_run:
  assumes "i < readLoopCount p"
  shows "\<exists>s. peer_reachable homeID p callers s \<and> r_readers s ! i = Rd_listening \<and>
    r_main s = Waiting False (Disc_reason d) \<and>
    (\<forall>t. (peer_step homeID p)\<^sup>*\<^sup>* s t \<longrightarrow> i \<notin> set (r_subClosed t) \<and>
       (r_readers t ! i \<noteq> Rd_ended \<longrightarrow> r_main t = Waiting False (Disc_reason d)))"
proof -
  let ?a = "(run_start p callers)\<lparr>r_main := Waiting False (Disc_reason d)\<rparr>"
  let ?s = "?a\<lparr>r_readers := (r_readers ?a)[i := Rd_listening], r_subChans := gm_put (read_topics p ! i) i (r_subChans ?a)\<rparr>"
  have "(peer_step homeID p)\<^sup>*\<^sup>* (run_start p callers) ?a"
    using disconnect_closes [of "run_start p callers" homeID p d] by (simp add: run_start_def)
  moreover have "peer_step homeID p ?a ?s"
    by (rule peer_step.subscribe) (use assms in \<open>simp_all add: run_start_def\<close>)
  ultimately have "peer_reachable homeID p callers ?s"
    unfolding peer_reachable_def by (rule rtranclp.rtrancl_into_rtrancl)
  moreover have "late_reader i False (Disc_reason d) ?s"
    using assms by (simp add: late_reader_def run_start_def)
  then have "late_reader i False (Disc_reason d) t" if "(peer_step homeID p)\<^sup>*\<^sup>* ?s t" for t
    using late_reader_steps [OF that] by blast
  ultimately show ?thesis
    using assms by (intro exI [of _ ?s]) (auto simp: late_reader_def run_start_def)
qed

lemma late_subscription_blocks_run_witness:
  "let p = newPeer (NewNode ''n'' None None :: unit node) ''h''
       [\<lparr>pr_Name = ''forum'', pr_Version = 1, pr_Topics = [''TIME'']\<rparr>]
   in \<exists>s. peer_reachable ''h'' p 1 s \<and> r_readers s ! 0 = Rd_listening \<and>
    r_main s = Waiting False (Disc_reason DiscQuitting) \<and>
    (\<forall>t. (peer_step ''h'' p)\<^sup>*\<^sup>* s t \<longrightarrow> 0 \<notin> set (r_subClosed t) \<and>
       (r_readers t ! 0 \<noteq> Rd_ended \<longrightarrow> r_main t = Waiting False (Disc_reason DiscQuitting)))"
  unfolding Let_def
  by (rule late_subscription_blocks_run)
    (simp add: newPeer_def matchProtocols_def gm_put_def readLoopCount_def)

end
