(* ===== verification/Discover_Run.thy ===== *)
theory Discover_Run
  imports Node_Db
begin

text \<open>
  The goroutine of \<open>p2p/discover/discover.go\<close> with the callers of its \<open>Start\<close> and \<open>Stop\<close>.  \<open>Start\<close>
  runs the loop at most once (\<open>sync.Once\<close>), in a goroutine of its own; \<open>Stop\<close> sends on the
  channel \<open>quit\<close>, which holds one element, and waits for the wait group, which the loop joins
  when it begins.  A round of the loop compares the connections of the daemon with the node
  database and sends the nodes that went and came, one at a time.
\<close>

subsection \<open>State\<close>

text \<open>A node on its way to the receiver, on the channel \<open>Disc\<close> or on \<open>Conn\<close>.\<close>

datatype 'a notif = Disc_node "'a node" | Conn_node "'a node"

text \<open>The loop has not begun, is in its select or in a round, or has returned.\<close>

datatype disc_loop = D_idle | D_running | D_ended

text \<open>A caller of \<open>Stop\<close>: sending on \<open>quit\<close>, in \<open>wg.Wait\<close>, returned.\<close>

datatype stopper = St_sending | St_waiting | St_returned

text \<open>
  \<open>d_starters\<close> counts the goroutines made by \<open>Start\<close> that have not entered \<open>runner.Do\<close>; \<open>d_pending\<close> are the
  nodes a round has still to send, \<open>d_sent\<close> those received so far.
\<close>

record 'a discover =
  d_db :: "'a node_db"
  d_starters :: nat
  d_loop :: disc_loop
  d_pending :: "'a notif list"
  d_quit :: nat
  d_stoppers :: "stopper list"
  d_sent :: "'a notif list"

definition quit_cap :: nat where "quit_cap = 1"

definition ErrNilDB :: string where "ErrNilDB = ''nil node database''"

definition disc_New :: "'a node_db option \<Rightarrow> string + 'a discover" where
  "disc_New db =
     (case db of
        None \<Rightarrow> Inl ErrNilDB
      | Some d \<Rightarrow> Inr \<lparr>d_db = d, d_starters = 0, d_loop = D_idle, d_pending = [], d_quit = 0,
                       d_stoppers = [], d_sent = []\<rparr>)"

definition disc_Start :: "'a discover \<Rightarrow> 'a discover" where
  "disc_Start d = d\<lparr>d_starters := Suc (d_starters d)\<rparr>"

text \<open>The wait group counts the loop while it runs.\<close>

definition d_wg :: "'a discover \<Rightarrow> nat" where
  "d_wg d = (if d_loop d = D_running then 1 else 0)"

text \<open>A round: the nodes that went are sent first.\<close>

definition round_notifs :: "'a node list \<Rightarrow> 'a node list \<Rightarrow> 'a notif list" where
  "round_notifs disc conn = map Disc_node disc @ map Conn_node conn"

subsection \<open>Steps\<close>

text \<open>
  \<open>enter_once\<close> is the first goroutine in \<open>runner.Do\<close>, \<open>skip_once\<close> another one, which returns when the
  loop has.  A caller of \<open>Stop\<close> is added by \<open>call_stop\<close>.
\<close>

inductive disc_step :: "('a \<Rightarrow> string) \<Rightarrow> 'a discover \<Rightarrow> 'a discover \<Rightarrow> bool" for show_addr where
  call_start: "disc_step show_addr d (disc_Start d)"
| enter_once: "0 < d_starters d \<Longrightarrow> d_loop d = D_idle \<Longrightarrow>
    disc_step show_addr d (d\<lparr>d_starters := d_starters d - 1, d_loop := D_running\<rparr>)"
| skip_once: "0 < d_starters d \<Longrightarrow> d_loop d = D_ended \<Longrightarrow>
    disc_step show_addr d (d\<lparr>d_starters := d_starters d - 1\<rparr>)"
| round: "d_loop d = D_running \<Longrightarrow> d_pending d = [] \<Longrightarrow>
    discover_tick show_addr self conns (d_db d) = (db', disc, conn) \<Longrightarrow>
    disc_step show_addr d (d\<lparr>d_db := db', d_pending := round_notifs disc conn\<rparr>)"
| received: "d_loop d = D_running \<Longrightarrow> d_pending d = n # rest \<Longrightarrow>
    disc_step show_addr d (d\<lparr>d_pending := rest, d_sent := d_sent d @ [n]\<rparr>)"
| take_quit: "d_loop d = D_running \<Longrightarrow> d_pending d = [] \<Longrightarrow> 0 < d_quit d \<Longrightarrow>
    disc_step show_addr d (d\<lparr>d_loop := D_ended, d_quit := d_quit d - 1\<rparr>)"
| call_stop: "disc_step show_addr d (d\<lparr>d_stoppers := d_stoppers d @ [St_sending]\<rparr>)"
| send_quit: "i < length (d_stoppers d) \<Longrightarrow> d_stoppers d ! i = St_sending \<Longrightarrow> d_quit d < quit_cap \<Longrightarrow>
    disc_step show_addr d (d\<lparr>d_quit := Suc (d_quit d), d_stoppers := (d_stoppers d)[i := St_waiting]\<rparr>)"
| stop_returns: "i < length (d_stoppers d) \<Longrightarrow> d_stoppers d ! i = St_waiting \<Longrightarrow> d_wg d = 0 \<Longrightarrow>
    disc_step show_addr d (d\<lparr>d_stoppers := (d_stoppers d)[i := St_returned]\<rparr>)"

definition disc_reachable :: "('a \<Rightarrow> string) \<Rightarrow> 'a node_db \<Rightarrow> 'a discover \<Rightarrow> bool" where
  "disc_reachable show_addr db d \<longleftrightarrow> (\<exists>d0. disc_New (Some db) = Inr d0 \<and> (disc_step show_addr)\<^sup>*\<^sup>* d0 d)"

lemma disc_reachable_induct [consumes 1, case_names new step]:
  assumes "disc_reachable show_addr db d"
    and "\<And>d0. disc_New (Some db) = Inr d0 \<Longrightarrow> P d0"
    and "\<And>d d'. disc_reachable show_addr db d \<Longrightarrow> P d \<Longrightarrow> disc_step show_addr d d' \<Longrightarrow> P d'"
  shows "P d"
proof -
  obtain d0 where new: "disc_New (Some db) = Inr d0" and run: "(disc_step show_addr)\<^sup>*\<^sup>* d0 d"
    using assms(1) by (auto simp: disc_reachable_def)
  from run show ?thesis
  proof (induction rule: rtranclp_induct)
    case (step y z)
    then show ?case using assms(3) new unfolding disc_reachable_def by blast
  qed (rule assms(2) [OF new])
qed

lemma disc_reachable_step:
  "disc_reachable show_addr db d \<Longrightarrow> disc_step show_addr d d' \<Longrightarrow> disc_reachable show_addr db d'"
  unfolding disc_reachable_def by (blast intro: rtranclp.rtrancl_into_rtrancl)

lemma disc_reachable_steps:
  "disc_reachable show_addr db d \<Longrightarrow> (disc_step show_addr)\<^sup>*\<^sup>* d d' \<Longrightarrow> disc_reachable show_addr db d'"
  unfolding disc_reachable_def by (blast intro: rtranclp_trans)

subsection \<open>The notifications\<close>

text \<open>
  What a receiver knows who follows the notifications: a node comes that was not there and
  goes that was.  \<open>None\<close> stands for a notification that does not fit.
\<close>

fun follow :: "string set \<Rightarrow> 'a notif list \<Rightarrow> string set option" where
  "follow X [] = Some X"
| "follow X (Conn_node n # ns) = (if n_id n \<in> X then None else follow (insert (n_id n) X) ns)"
| "follow X (Disc_node n # ns) = (if n_id n \<in> X then follow (X - {n_id n}) ns else None)"

lemma follow_append: "follow X (ns @ ms) = Option.bind (follow X ns) (\<lambda>Y. follow Y ms)"
  by (induction X ns rule: follow.induct) auto

lemma follow_disc:
  "distinct (map n_id ns) \<Longrightarrow> node_ids ns \<subseteq> X \<Longrightarrow> follow X (map Disc_node ns) = Some (X - node_ids ns)"
proof (induction ns arbitrary: X)
  case (Cons n ns)
  have "n_id n \<notin> node_ids ns" using Cons.prems(1) by (simp add: node_ids_def)
  then have "node_ids ns \<subseteq> X - {n_id n}" using Cons.prems(2) by (simp add: node_ids_def subset_Diff_insert)
  with Cons show ?case by (auto simp: node_ids_def)
qed (simp add: node_ids_def)

lemma follow_conn:
  "distinct (map n_id ns) \<Longrightarrow> node_ids ns \<inter> X = {} \<Longrightarrow> follow X (map Conn_node ns) = Some (X \<union> node_ids ns)"
proof (induction ns arbitrary: X)
  case (Cons n ns)
  have "node_ids ns \<inter> insert (n_id n) X = {}" using Cons.prems by (auto simp: node_ids_def)
  with Cons show ?case by (auto simp: node_ids_def)
qed (simp add: node_ids_def)

lemma follow_round:
  assumes "tick_good db (db', disc, conn)"
  shows "follow (gm_keys (db_nodes db)) (round_notifs disc conn) = Some (gm_keys (db_nodes db'))"
  using assms follow_disc [of disc "gm_keys (db_nodes db)"] follow_conn [of conn "gm_keys (db_nodes db) - node_ids disc"]
  by (auto simp: tick_good_def round_notifs_def follow_append Diff_Int_distrib)

text \<open>
  The database is well formed, the notifications lead to it from the database at the start, and the home
  node is known when there is one.
\<close>

definition disc_inv :: "'a node_db \<Rightarrow> 'a discover \<Rightarrow> bool" where
  "disc_inv db0 d \<longleftrightarrow> db_ok (d_db d) \<and>
     follow (gm_keys (db_nodes db0)) (d_sent d @ d_pending d) = Some (gm_keys (db_nodes (d_db d))) \<and>
     (d_sent d @ d_pending d \<noteq> [] \<longrightarrow> db_home (d_db d) \<noteq> None) \<and>
     (d_loop d \<noteq> D_running \<longrightarrow> d_pending d = [])"

lemma disc_inv_same:
  assumes "disc_inv db0 d" and "d_db d' = d_db d" and "d_sent d' @ d_pending d' = d_sent d @ d_pending d"
    and "d_loop d' \<noteq> D_running \<longrightarrow> d_pending d' = []"
  shows "disc_inv db0 d'"
  using assms unfolding disc_inv_def by simp

lemma discover_tick_home: "discover_tick show_addr self conns db = (db', disc, conn) \<Longrightarrow> db_home db \<noteq> None \<Longrightarrow> db_home db' \<noteq> None"
  by (auto simp: discover_tick_def db_Home_def db_Replace_def Choose_def Let_def split: if_splits)

lemma disc_inv_step:
  assumes "disc_step show_addr d d'" and inv: "disc_inv db0 d"
  shows "disc_inv db0 d'"
  using assms(1)
proof cases
  case (round self conns db' disc conn)
  have good: "tick_good (d_db d) (db', disc, conn)"
    using tick_good_tick [of "d_db d" show_addr self conns] inv round(4) by (simp add: disc_inv_def)
  have "follow (gm_keys (db_nodes db0)) (d_sent d) = Some (gm_keys (db_nodes (d_db d)))"
    using inv round(3) by (simp add: disc_inv_def)
  with follow_round [OF good]
  have "follow (gm_keys (db_nodes db0)) (d_sent d @ round_notifs disc conn) = Some (gm_keys (db_nodes db'))"
    by (simp add: follow_append)
  moreover have "db_home db' \<noteq> None" if "d_sent d @ round_notifs disc conn \<noteq> []"
  proof (cases "d_sent d = []")
    case True
    with that good show ?thesis by (auto simp: tick_good_def round_notifs_def)
  next
    case False
    with inv have "db_home (d_db d) \<noteq> None" by (simp add: disc_inv_def)
    with discover_tick_home [OF round(4)] show ?thesis by simp
  qed
  ultimately show ?thesis using good round(1,2) by (simp add: disc_inv_def tick_good_def)
qed (rule disc_inv_same [OF inv]; use inv in \<open>simp add: disc_Start_def disc_inv_def\<close>)+

lemma disc_inv_reachable: "disc_reachable show_addr db0 d \<Longrightarrow> db_ok db0 \<Longrightarrow> disc_inv db0 d"
proof (induction rule: disc_reachable_induct)
  case (new d0)
  then show ?case by (auto simp: disc_New_def disc_inv_def)
qed (blast intro: disc_inv_step)

subsection \<open>Stopping\<close>

text \<open>How many callers of \<open>Stop\<close> have sent on \<open>quit\<close>.\<close>

definition stops_sent :: "'a discover \<Rightarrow> nat" where
  "stops_sent d = length (filter (\<lambda>s. s \<noteq> St_sending) (d_stoppers d))"

text \<open>Every element sent is still in the channel or has ended the loop.\<close>

definition quits_ok :: "'a discover \<Rightarrow> bool" where
  "quits_ok d \<longleftrightarrow> d_quit d \<le> quit_cap \<and> stops_sent d = d_quit d + (if d_loop d = D_ended then 1 else 0)"

lemma stops_sent_update:
  assumes "i < length (d_stoppers d)"
  shows "length (filter (\<lambda>s. s \<noteq> St_sending) ((d_stoppers d)[i := x])) + of_bool (d_stoppers d ! i \<noteq> St_sending) =
    stops_sent d + of_bool (x \<noteq> St_sending)"
  using assms unfolding stops_sent_def
proof (induction "d_stoppers d" arbitrary: d i)
  case (Cons y ys)
  note IH = Cons.hyps(1) [of "d\<lparr>d_stoppers := ys\<rparr>"]
  from Cons.hyps(2) [symmetric] Cons.prems IH [of "i - 1"] show ?case by (cases i) auto
qed simp

lemma quits_ok_step: "disc_step show_addr d d' \<Longrightarrow> quits_ok d \<Longrightarrow> quits_ok d'"
proof (induction rule: disc_step.induct)
  case (send_quit i d)
  then show ?case using stops_sent_update [of i d St_waiting] by (auto simp: quits_ok_def quit_cap_def stops_sent_def)
next
  case (stop_returns i d)
  then show ?case using stops_sent_update [of i d St_returned] by (auto simp: quits_ok_def stops_sent_def)
qed (auto simp: quits_ok_def stops_sent_def disc_Start_def)

lemma quits_ok_reachable: "disc_reachable show_addr db0 d \<Longrightarrow> quits_ok d"
proof (induction rule: disc_reachable_induct)
  case (new d0)
  then show ?case by (auto simp: disc_New_def quits_ok_def stops_sent_def)
qed (blast intro: quits_ok_step)

lemma ended_step: "disc_step show_addr d d' \<Longrightarrow> d_loop d = D_ended \<Longrightarrow> d_loop d' = D_ended \<and> d_db d' = d_db d \<and> d_sent d' = d_sent d"
  by (induction rule: disc_step.induct) (auto simp: disc_Start_def)

lemma ended_steps:
  "(disc_step show_addr)\<^sup>*\<^sup>* d d' \<Longrightarrow> d_loop d = D_ended \<Longrightarrow> d_loop d' = D_ended \<and> d_db d' = d_db d \<and> d_sent d' = d_sent d"
  by (induction rule: rtranclp_induct) (auto dest: ended_step)

text \<open>A caller that finds the channel full after the loop has ended.\<close>

definition stop_stuck :: "nat \<Rightarrow> 'a discover \<Rightarrow> bool" where
  "stop_stuck i d \<longleftrightarrow> d_loop d = D_ended \<and> d_quit d = quit_cap \<and> i < length (d_stoppers d) \<and> d_stoppers d ! i = St_sending"

lemma stop_stuck_step: "disc_step show_addr d d' \<Longrightarrow> stop_stuck i d \<Longrightarrow> stop_stuck i d'"
  by (induction rule: disc_step.induct) (auto simp: stop_stuck_def disc_Start_def nth_append nth_list_update)

lemma stop_stuck_steps: "(disc_step show_addr)\<^sup>*\<^sup>* d d' \<Longrightarrow> stop_stuck i d \<Longrightarrow> stop_stuck i d'"
  by (induction rule: rtranclp_induct) (auto dest: stop_stuck_step)

lemma receive_all:
  "d_loop d = D_running \<Longrightarrow> (disc_step show_addr)\<^sup>*\<^sup>* d (d\<lparr>d_pending := [], d_sent := d_sent d @ d_pending d\<rparr>)"
proof (induction "d_pending d" arbitrary: d)
  case (Cons n rest)
  let ?e = "d\<lparr>d_pending := rest, d_sent := d_sent d @ [n]\<rparr>"
  have "disc_step show_addr d ?e" using Cons.prems Cons.hyps(2) [symmetric] by (rule disc_step.received)
  moreover have "(disc_step show_addr)\<^sup>*\<^sup>* ?e (?e\<lparr>d_pending := [], d_sent := d_sent ?e @ d_pending ?e\<rparr>)"
    by (rule Cons.hyps(1)) (simp_all add: Cons.prems)
  ultimately show ?case using Cons.hyps(2) [symmetric] by (simp add: converse_rtranclp_into_rtranclp)
next
  case Nil
  then have "d\<lparr>d_pending := [], d_sent := d_sent d @ d_pending d\<rparr> = d" by (cases d) simp
  then show ?case by simp
qed

lemma running_ends:
  assumes "d_loop d = D_running" and "0 < d_quit d"
  shows "\<exists>d'. (disc_step show_addr)\<^sup>*\<^sup>* d d' \<and> d_loop d' = D_ended \<and> d_stoppers d' = d_stoppers d"
proof -
  let ?e = "d\<lparr>d_pending := [], d_sent := d_sent d @ d_pending d\<rparr>"
  have "disc_step show_addr ?e (?e\<lparr>d_loop := D_ended, d_quit := d_quit ?e - 1\<rparr>)"
    by (rule disc_step.take_quit) (use assms in simp_all)
  with receive_all [OF assms(1), of show_addr] show ?thesis
    by (intro exI [of _ "?e\<lparr>d_loop := D_ended, d_quit := d_quit ?e - 1\<rparr>"]) (simp add: rtranclp.rtrancl_into_rtrancl)
qed

lemma one_node_tick:
  assumes "isP2pCircuit show_addr c" and "db_nodes db = []"
  shows "\<exists>db'. discover_tick show_addr (Some h) [c] db = (db', [], [node_New c])"
proof -
  have "MakeNodesMap (filter_conns show_addr [c]) = [(ci_id c, node_New c)]"
    using assms(1) by (simp add: MakeNodesMap_def gm_put_def Let_def node_New_def)
  then show ?thesis
    using assms(2) by (cases "db_home db") (simp_all add: discover_tick_def db_Home_def SetHome_def Choose_def missing_in_def Let_def)
qed

subsection \<open>Properties\<close>

text \<open>
  C19: The nodes discovery sends are exactly the changes of its database: in every state, whoever follows
  the notifications received so far and those on their way gets the nodes of the database; no node comes that
  is there and none goes that is not; and the home node is known before anything is sent.
\<close>

theorem discover_notifications_exact:
  assumes "disc_reachable show_addr db d" and "db_ok db"
  shows "follow (gm_keys (db_nodes db)) (d_sent d @ d_pending d) = Some (gm_keys (db_nodes (d_db d))) \<and>
    (d_sent d @ d_pending d \<noteq> [] \<longrightarrow> db_home (d_db d) \<noteq> None) \<and>
    (d_loop d \<noteq> D_running \<longrightarrow> d_pending d = [])"
  using disc_inv_reachable [OF assms] by (simp add: disc_inv_def)

text \<open>
  C34: A call of \<open>Stop\<close> that has sent on \<open>quit\<close> can return from every state, if the receiver takes the
  nodes the loop is sending.
\<close>

theorem discover_stop_returns:
  assumes "disc_reachable show_addr db d" and "i < length (d_stoppers d)" and "d_stoppers d ! i = St_waiting"
  shows "\<exists>d'. (disc_step show_addr)\<^sup>*\<^sup>* d d' \<and> d_stoppers d' ! i = St_returned \<and> d_loop d' \<noteq> D_running"
proof -
  have returns: "\<exists>d'. (disc_step show_addr)\<^sup>*\<^sup>* e d' \<and> d_stoppers d' ! i = St_returned \<and> d_loop d' \<noteq> D_running"
    if "d_loop e \<noteq> D_running" "d_stoppers e = d_stoppers d" for e
  proof -
    have "disc_step show_addr e (e\<lparr>d_stoppers := (d_stoppers e)[i := St_returned]\<rparr>)"
      by (rule disc_step.stop_returns) (use that assms(2,3) in \<open>simp_all add: d_wg_def\<close>)
    then show ?thesis using that assms(2)
      by (intro exI [of _ "e\<lparr>d_stoppers := (d_stoppers e)[i := St_returned]\<rparr>"]) simp
  qed
  show ?thesis
  proof (cases "d_loop d = D_running")
    case True
    have "0 < stops_sent d"
      unfolding stops_sent_def using assms(2,3) nth_mem [OF assms(2)] by (auto simp: filter_empty_conv)
    then have "0 < d_quit d" using quits_ok_reachable [OF assms(1)] True by (simp add: quits_ok_def)
    from running_ends [OF True this, of show_addr] obtain e
      where "(disc_step show_addr)\<^sup>*\<^sup>* d e" "d_loop e = D_ended" "d_stoppers e = d_stoppers d" by blast
    with returns [of e] show ?thesis by (auto intro: rtranclp_trans)
  qed (simp add: returns)
qed

text \<open>
  The loop runs once, and \<open>Stop\<close> returns twice at most: at most two callers get past the channel
  \<open>quit\<close>, and one before the loop has ended; a further caller never returns, and a later \<open>Start\<close> does
  nothing.
\<close>

theorem discover_stop_limits:
  assumes "disc_reachable show_addr db d"
  shows "stops_sent d \<le> 2 \<and> (d_loop d \<noteq> D_ended \<longrightarrow> stops_sent d \<le> 1) \<and>
    (d_loop d = D_ended \<longrightarrow> (\<forall>d'. (disc_step show_addr)\<^sup>*\<^sup>* d d' \<longrightarrow>
       d_loop d' = D_ended \<and> d_db d' = d_db d \<and> d_sent d' = d_sent d \<and>
       (stops_sent d = 2 \<longrightarrow> (\<forall>i<length (d_stoppers d). d_stoppers d ! i = St_sending \<longrightarrow> d_stoppers d' ! i = St_sending))))"
proof -
  have ok: "quits_ok d" by (rule quits_ok_reachable [OF assms])
  have "d_stoppers d' ! i = St_sending"
    if "d_loop d = D_ended" "(disc_step show_addr)\<^sup>*\<^sup>* d d'" "stops_sent d = 2" "i < length (d_stoppers d)" "d_stoppers d ! i = St_sending"
    for d' i
  proof -
    have "stop_stuck i d" using that ok by (simp add: stop_stuck_def quits_ok_def quit_cap_def)
    from stop_stuck_steps [OF that(2) this] show ?thesis by (simp add: stop_stuck_def)
  qed
  moreover have "d_loop d' = D_ended \<and> d_db d' = d_db d \<and> d_sent d' = d_sent d"
    if "d_loop d = D_ended" "(disc_step show_addr)\<^sup>*\<^sup>* d d'" for d' using ended_steps [OF that(2,1)] .
  moreover have "stops_sent d \<le> 2 \<and> (d_loop d \<noteq> D_ended \<longrightarrow> stops_sent d \<le> 1)"
    using ok by (simp add: quits_ok_def quit_cap_def)
  ultimately show ?thesis by blast
qed

text \<open>
  \<open>Stop\<close> can return before the goroutine that \<open>Start\<close> has made joins the wait group: the loop begins
  afterwards, does a round and sends the nodes to a receiver that may be gone.
\<close>

theorem discover_stop_overtakes_start:
  assumes "isP2pCircuit show_addr c" and "db_nodes db = []"
  shows "\<exists>d. disc_reachable show_addr db d \<and> d_stoppers d = [St_returned] \<and> d_loop d = D_running \<and>
    d_pending d = [Conn_node (node_New c)]"
proof -
  let ?new = "\<lparr>d_db = db, d_starters = 0, d_loop = D_idle, d_pending = [], d_quit = 0, d_stoppers = [], d_sent = []\<rparr>"
  let ?a = "disc_Start ?new"
  let ?b = "?a\<lparr>d_stoppers := [St_sending]\<rparr>"
  let ?c = "?b\<lparr>d_quit := 1, d_stoppers := [St_waiting]\<rparr>"
  let ?e = "?c\<lparr>d_stoppers := [St_returned]\<rparr>"
  let ?f = "?e\<lparr>d_starters := 0, d_loop := D_running\<rparr>"
  obtain db' where tick: "discover_tick show_addr (Some ''h'') [c] db = (db', [], [node_New c])"
    using one_node_tick [OF assms] by blast
  let ?g = "?f\<lparr>d_db := db', d_pending := round_notifs [] [node_New c]\<rparr>"
  have "disc_step show_addr ?new ?a" by (rule disc_step.call_start)
  moreover have "disc_step show_addr ?a ?b" using disc_step.call_stop [of show_addr ?a] by (simp add: disc_Start_def)
  moreover have "disc_step show_addr ?b ?c"
    using disc_step.send_quit [of 0 ?b show_addr] by (simp add: disc_Start_def quit_cap_def)
  moreover have "disc_step show_addr ?c ?e"
    using disc_step.stop_returns [of 0 ?c show_addr] by (simp add: disc_Start_def d_wg_def)
  moreover have "disc_step show_addr ?e ?f"
    using disc_step.enter_once [of ?e show_addr] by (simp add: disc_Start_def)
  moreover have "disc_step show_addr ?f ?g"
    by (rule disc_step.round) (use tick in \<open>simp_all add: disc_Start_def\<close>)
  ultimately have "(disc_step show_addr)\<^sup>*\<^sup>* ?new ?g" by (meson converse_rtranclp_into_rtranclp r_into_rtranclp)
  then have "disc_reachable show_addr db ?g" unfolding disc_reachable_def by (intro exI [of _ ?new]) (simp add: disc_New_def)
  then show ?thesis by (intro exI [of _ ?g]) (simp add: round_notifs_def)
qed

text \<open>A run with a daemon that has one relayed connection.\<close>

definition sample_conn :: "unit conn_info" where
  "sample_conn = \<lparr>ci_id = ''n1'', ci_addr = (), ci_streams = []\<rparr>"

lemma sample_circuit: "isP2pCircuit (\<lambda>a. ''/p2p-circuit'') sample_conn"
  by (simp add: isP2pCircuit_def P2pCircuit_def has_prefix_def)

lemma discover_stop_overtakes_start_witness:
  "\<exists>d. disc_reachable (\<lambda>a :: unit. ''/p2p-circuit'') (NewDB 0) d \<and> d_stoppers d = [St_returned] \<and> d_loop d = D_running"
  using discover_stop_overtakes_start [OF sample_circuit, of "NewDB 0"] by (auto simp: NewDB_def)

text \<open>A loop in a round, with a waiting \<open>Stop\<close>.\<close>

lemma sample_round:
  "\<exists>d. disc_reachable (\<lambda>a :: unit. ''/p2p-circuit'') (NewDB 0) d \<and> d_loop d = D_running \<and>
    d_stoppers d = [St_waiting] \<and> d_sent d = [] \<and> d_pending d = [Conn_node (node_New sample_conn)]"
proof -
  let ?show = "\<lambda>a :: unit. ''/p2p-circuit''"
  let ?new = "\<lparr>d_db = NewDB 0, d_starters = 0, d_loop = D_idle, d_pending = [], d_quit = 0, d_stoppers = [], d_sent = []\<rparr>"
  let ?a = "disc_Start ?new"
  let ?b = "?a\<lparr>d_starters := 0, d_loop := D_running\<rparr>"
  let ?c = "?b\<lparr>d_stoppers := [St_sending]\<rparr>"
  let ?e = "?c\<lparr>d_quit := 1, d_stoppers := [St_waiting]\<rparr>"
  obtain db' where tick: "discover_tick ?show (Some ''h'') [sample_conn] (NewDB 0) = (db', [], [node_New sample_conn])"
    using one_node_tick [OF sample_circuit, of "NewDB 0"] by (auto simp: NewDB_def)
  let ?f = "?e\<lparr>d_db := db', d_pending := round_notifs [] [node_New sample_conn]\<rparr>"
  have "disc_step ?show ?new ?a" by (rule disc_step.call_start)
  moreover have "disc_step ?show ?a ?b" using disc_step.enter_once [of ?a ?show] by (simp add: disc_Start_def)
  moreover have "disc_step ?show ?b ?c" using disc_step.call_stop [of ?show ?b] by (simp add: disc_Start_def)
  moreover have "disc_step ?show ?c ?e"
    using disc_step.send_quit [of 0 ?c ?show] by (simp add: disc_Start_def quit_cap_def)
  moreover have "disc_step ?show ?e ?f"
    by (rule disc_step.round) (use tick in \<open>simp_all add: disc_Start_def\<close>)
  ultimately have "(disc_step ?show)\<^sup>*\<^sup>* ?new ?f" by (meson converse_rtranclp_into_rtranclp r_into_rtranclp)
  then have "disc_reachable ?show (NewDB 0) ?f" unfolding disc_reachable_def by (intro exI [of _ ?new]) (simp add: disc_New_def)
  then show ?thesis by (intro exI [of _ ?f]) (simp add: round_notifs_def disc_Start_def)
qed

lemma discover_notifications_exact_witness:
  "\<exists>d. disc_reachable (\<lambda>a :: unit. ''/p2p-circuit'') (NewDB 0) d \<and> d_pending d \<noteq> [] \<and> db_home (d_db d) \<noteq> None \<and>
    gm_keys (db_nodes (d_db d)) = {''n1''}"
proof -
  obtain d where d: "disc_reachable (\<lambda>a :: unit. ''/p2p-circuit'') (NewDB 0) d" "d_sent d = []"
    "d_pending d = [Conn_node (node_New sample_conn)]" using sample_round by blast
  have "db_ok (NewDB 0 :: unit node_db)" by (simp add: db_ok_def NewDB_def)
  from discover_notifications_exact [OF d(1) this] d show ?thesis
    by (intro exI [of _ d]) (auto simp: NewDB_def node_New_def sample_conn_def)
qed

lemma discover_stop_returns_witness:
  "\<exists>d d'. disc_reachable (\<lambda>a :: unit. ''/p2p-circuit'') (NewDB 0) d \<and> d_pending d \<noteq> [] \<and>
    (disc_step (\<lambda>a. ''/p2p-circuit''))\<^sup>*\<^sup>* d d' \<and> d_stoppers d' ! 0 = St_returned"
proof -
  obtain d where d: "disc_reachable (\<lambda>a :: unit. ''/p2p-circuit'') (NewDB 0) d" "d_stoppers d = [St_waiting]"
    "d_pending d = [Conn_node (node_New sample_conn)]" using sample_round by blast
  from discover_stop_returns [OF d(1), of 0] d show ?thesis by auto
qed

lemma discover_stop_limits_witness:
  "\<exists>d. disc_reachable (\<lambda>a :: unit. ''/p2p-circuit'') (NewDB 0) d \<and> d_loop d = D_running \<and> stops_sent d \<le> 1"
proof -
  obtain d where d: "disc_reachable (\<lambda>a :: unit. ''/p2p-circuit'') (NewDB 0) d" "d_loop d = D_running" using sample_round by blast
  from discover_stop_limits [OF d(1)] d show ?thesis by auto
qed

end
