(* ===== verification/Server.thy ===== *)
theory Server
  imports Peer_Run Discover_Run
begin

text \<open>
  The server of \<open>p2p/server.go\<close> with the goroutine of \<open>p2p/discover\<close> that feeds it.  The state
  holds what the goroutines share: the peers map and the channels of the run loop, the
  peers that are running, the node database and the notifications discovery is sending.
  Each case of the loop's \<open>select\<close> is a function; \<open>srv_step\<close> interleaves them with the other
  goroutines.
\<close>

subsection \<open>State\<close>

text \<open>
  \<open>L_stuck\<close>: blocked in a send to the full channel \<open>checkpointAddPeer\<close>; \<open>L_exited\<close>: the loop
  has ended and waits in \<open>discover.Stop\<close>; \<open>L_done\<close>: \<open>loopWG.Done\<close> has run.
\<close>

datatype 'a server_loop = L_select | L_stuck "'a node" | L_draining | L_exited | L_done | L_panicked go_panic

text \<open>
  What the server sees of a peer goroutine: it serves, it has left the loop of \<open>run\<close> with a result
  and shuts down, or \<open>run\<close> has returned and it waits to send on \<open>delpeer\<close>.  \<open>phase_of\<close> is the
  phase of a state of \<open>Peer_Run\<close>.
\<close>

datatype peer_phase = P_serving | P_ending bool p2p_error | P_leaving bool p2p_error

fun phase_of :: "main_loop \<Rightarrow> peer_phase" where
  "phase_of (Leaving b e) = P_ending b e"
| "phase_of (Closing b e) = P_ending b e"
| "phase_of (Waiting b e) = P_ending b e"
| "phase_of (Returned b e) = P_leaving b e"
| "phase_of m = P_serving"

record 'a peer_event =
  ev_Type :: string
  ev_Peer :: string
  ev_Error :: "p2p_error option"
  ev_Local :: string
  ev_Remote :: "'a option"

record 'a server =
  s_MaxPeers :: int
  s_Protocols :: "protocol list"
  s_running :: bool
  s_home :: "'a node option"
  s_loop :: "'a server_loop"
  s_quit :: bool
  s_peers :: "(string, nat) gomap"
  s_live :: "(nat, 'a p2p_peer \<times> peer_phase) gomap"
  s_next :: nat
  s_checkpoint :: "'a node list"
  s_events :: "'a peer_event list"
  s_db :: "'a node_db"
  s_pending :: "'a notif list"
  s_disc_begun :: bool
  s_disc_quit :: bool
  s_disc_done :: bool

definition checkpoint_cap :: nat where "checkpoint_cap = 1"
definition PeerEventTypeAdd :: string where "PeerEventTypeAdd = ''add''"
definition PeerEventTypeDrop :: string where "PeerEventTypeDrop = ''drop''"

definition new_server :: "int \<Rightarrow> protocol list \<Rightarrow> 'a server" where
  "new_server maxPeers protocols =
     \<lparr>s_MaxPeers = maxPeers, s_Protocols = protocols, s_running = False, s_home = None, s_loop = L_done,
      s_quit = False, s_peers = [], s_live = [], s_next = 0, s_checkpoint = [], s_events = [],
      s_db = NewDB 0, s_pending = [], s_disc_begun = False, s_disc_quit = False, s_disc_done = True\<rparr>"

subsection \<open>Start, Stop and the queries\<close>

text \<open>
  \<open>setupDiscovery\<close>: a new database and a new discovery, whose goroutine is made.  \<open>discover.New\<close>
  fails for a nil database only, so \<open>Start\<close> fails only for a running server.
\<close>

definition setupDiscovery :: "'a server \<Rightarrow> 'a server" where
  "setupDiscovery s =
     s\<lparr>s_db := NewDB 0, s_pending := [], s_disc_begun := False, s_disc_quit := False, s_disc_done := False\<rparr>"

definition srv_Start :: "'a server \<Rightarrow> p2p_error + 'a server" where
  "srv_Start s =
     (if s_running s then Inl (Other_error ''server already running'')
      else Inr ((setupDiscovery (s\<lparr>s_running := True, s_quit := False, s_checkpoint := []\<rparr>))
        \<lparr>s_peers := [], s_loop := L_select\<rparr>))"

text \<open>\<open>Stop\<close> up to its wait for the loop.\<close>

definition srv_Stop :: "'a server \<Rightarrow> 'a server" where
  "srv_Stop s = (if s_running s then s\<lparr>s_running := False, s_quit := True\<rparr> else s)"

text \<open>The queries are served by the loop, or give up when \<open>quit\<close> is closed.\<close>

definition srv_Peers :: "bool \<Rightarrow> 'a server \<Rightarrow> nat list" where
  "srv_Peers served s = (if served then map snd (s_peers s) else [])"

definition srv_PeerCount :: "bool \<Rightarrow> 'a server \<Rightarrow> nat" where
  "srv_PeerCount served s = (if served then gm_len (s_peers s) else 0)"

subsection \<open>The cases of the run loop\<close>

text \<open>
  \<open>Disconnect\<close>: a peer that serves receives the reason and leaves its loop with it; for one that
  has left its loop the call waits until \<open>closed\<close> is closed and has no effect.
\<close>

definition tell_peer :: "disc_reason \<Rightarrow> nat \<Rightarrow> (nat, 'a p2p_peer \<times> peer_phase) gomap
    \<Rightarrow> (nat, 'a p2p_peer \<times> peer_phase) gomap" where
  "tell_peer reason i live =
     (case gm_get live i of
        Some (p, P_serving) \<Rightarrow> gm_put i (p, P_ending False (Disc_reason reason)) live
      | _ \<Rightarrow> live)"

definition on_conn :: "'a node \<Rightarrow> 'a server \<Rightarrow> 'a server" where
  "on_conn n s =
     (let s1 = (if s_home s = None then s\<lparr>s_home := db_Home (s_db s)\<rparr> else s) in
      if s_MaxPeers s \<le> int (gm_len (s_peers s)) then s1
      else if gm_get (s_peers s) (n_id n) = None
      then if length (s_checkpoint s) < checkpoint_cap then s1\<lparr>s_checkpoint := s_checkpoint s @ [n]\<rparr>
           else s1\<lparr>s_loop := L_stuck n\<rparr>
      else s1)"

definition on_disc :: "'a node \<Rightarrow> 'a server \<Rightarrow> 'a server" where
  "on_disc n s =
     (case gm_get (s_peers s) (n_id n) of
        Some i \<Rightarrow> s\<lparr>s_live := tell_peer DiscNetworkError i (s_live s)\<rparr>
      | None \<Rightarrow> s)"

definition addPeerChecks :: "(string, nat) gomap \<Rightarrow> 'a node \<Rightarrow> p2p_error option" where
  "addPeerChecks peers n = None"

text \<open>
  A node taken from the checkpoint becomes a peer.  \<open>runPeer\<close>, in a goroutine of its own, starts with the
  broadcast of the event, before \<open>run\<close>; no step of the model depends on the broadcast, so it is made
  part of the insertion.  Reading the id of a nil home node panics.
\<close>

definition on_checkpoint :: "'a node \<Rightarrow> 'a server \<Rightarrow> 'a server" where
  "on_checkpoint n s =
     (case addPeerChecks (s_peers s) n of
        Some e \<Rightarrow> s
      | None \<Rightarrow>
          (case s_home s of
             None \<Rightarrow> s\<lparr>s_loop := L_panicked Nil_dereference\<rparr>
           | Some home \<Rightarrow>
               let p = newPeer n (n_id home) (s_Protocols s); i = s_next s in
               s\<lparr>s_peers := gm_put (n_id n) i (s_peers s),
                 s_live := gm_put i (p, P_serving) (s_live s), s_next := Suc i,
                 s_events := s_events s @
                   [\<lparr>ev_Type = PeerEventTypeAdd, ev_Peer = peer_ID p, ev_Error = None,
                     ev_Local = n_id home, ev_Remote = n_addr n\<rparr>]\<rparr>))"

text \<open>The loop of \<open>run\<close> is left.\<close>

definition peer_stops :: "nat \<Rightarrow> 'a p2p_peer \<Rightarrow> bool \<Rightarrow> p2p_error \<Rightarrow> 'a server \<Rightarrow> 'a server" where
  "peer_stops i p requested err s = s\<lparr>s_live := gm_put i (p, P_ending requested err) (s_live s)\<rparr>"

text \<open>\<open>runPeer\<close> after \<open>p.run\<close> has returned: the drop event, then the wait for \<open>delpeer\<close>.\<close>

definition peer_returns :: "nat \<Rightarrow> 'a p2p_peer \<Rightarrow> bool \<Rightarrow> p2p_error \<Rightarrow> 'a server \<Rightarrow> 'a server" where
  "peer_returns i p requested err s =
     s\<lparr>s_live := gm_put i (p, P_leaving requested err) (s_live s),
       s_events := s_events s @
         [\<lparr>ev_Type = PeerEventTypeDrop, ev_Peer = peer_ID p, ev_Error = Some err,
           ev_Local = (case s_home s of None \<Rightarrow> '''' | Some home \<Rightarrow> n_id home),
           ev_Remote = n_addr (pp_node p)\<rparr>]\<rparr>"

text \<open>The rendezvous on \<open>delpeer\<close>: the entry is deleted and the peer's goroutine ends.\<close>

definition on_delpeer :: "nat \<Rightarrow> 'a p2p_peer \<Rightarrow> 'a server \<Rightarrow> 'a server" where
  "on_delpeer i p s =
     s\<lparr>s_peers := gm_del (peer_ID p) (s_peers s), s_live := gm_del i (s_live s)\<rparr>"

definition on_quit :: "'a server \<Rightarrow> 'a server" where
  "on_quit s = s\<lparr>s_live := fold (tell_peer DiscQuitting) (map snd (s_peers s)) (s_live s), s_loop := L_draining\<rparr>"

subsection \<open>Steps\<close>

inductive srv_step :: "('a \<Rightarrow> string) \<Rightarrow> 'a server \<Rightarrow> 'a server \<Rightarrow> bool" for show_addr where
  disc_begins: "\<not> s_disc_begun s \<Longrightarrow> \<not> s_disc_done s \<Longrightarrow> srv_step show_addr s (s\<lparr>s_disc_begun := True\<rparr>)"
| tick: "s_disc_begun s \<Longrightarrow> \<not> s_disc_done s \<Longrightarrow> s_pending s = [] \<Longrightarrow>
    discover_tick show_addr self conns (s_db s) = (db', disc, conn) \<Longrightarrow>
    srv_step show_addr s (s\<lparr>s_db := db', s_pending := map Disc_node disc @ map Conn_node conn\<rparr>)"
| disc_stops: "s_disc_begun s \<Longrightarrow> \<not> s_disc_done s \<Longrightarrow> s_pending s = [] \<Longrightarrow> s_disc_quit s \<Longrightarrow>
    srv_step show_addr s (s\<lparr>s_disc_done := True\<rparr>)"
| conn: "s_loop s = L_select \<Longrightarrow> s_pending s = Conn_node n # rest \<Longrightarrow>
    srv_step show_addr s (on_conn n (s\<lparr>s_pending := rest\<rparr>))"
| disc: "s_loop s = L_select \<Longrightarrow> s_pending s = Disc_node n # rest \<Longrightarrow>
    srv_step show_addr s (on_disc n (s\<lparr>s_pending := rest\<rparr>))"
| checkpoint: "s_loop s = L_select \<Longrightarrow> s_checkpoint s = n # rest \<Longrightarrow>
    srv_step show_addr s (on_checkpoint n (s\<lparr>s_checkpoint := rest\<rparr>))"
| loop_ends: "gm_get (s_live s) i = Some (p, P_serving) \<Longrightarrow>
    srv_step show_addr s (peer_stops i p requested err s)"
| run_ends: "gm_get (s_live s) i = Some (p, P_ending requested err) \<Longrightarrow>
    srv_step show_addr s (peer_returns i p requested err s)"
| delpeer: "s_loop s = L_select \<Longrightarrow> gm_get (s_live s) i = Some (p, P_leaving requested err) \<Longrightarrow>
    srv_step show_addr s (on_delpeer i p s)"
| stop: "srv_step show_addr s (srv_Stop s)"
| quit: "s_loop s = L_select \<Longrightarrow> s_quit s \<Longrightarrow> srv_step show_addr s (on_quit s)"
| drain: "s_loop s = L_draining \<Longrightarrow> 0 < gm_len (s_peers s) \<Longrightarrow>
    gm_get (s_live s) i = Some (p, P_leaving requested err) \<Longrightarrow>
    srv_step show_addr s (on_delpeer i p s)"
| drained: "s_loop s = L_draining \<Longrightarrow> gm_len (s_peers s) = 0 \<Longrightarrow>
    srv_step show_addr s (s\<lparr>s_loop := L_exited, s_disc_quit := True\<rparr>)"
| finished: "s_loop s = L_exited \<Longrightarrow> s_disc_done s \<or> \<not> s_disc_begun s \<Longrightarrow>
    srv_step show_addr s (s\<lparr>s_loop := L_done\<rparr>)"

text \<open>The states reached after a first \<open>Start\<close>.\<close>

definition srv_reachable :: "('a \<Rightarrow> string) \<Rightarrow> int \<Rightarrow> protocol list \<Rightarrow> 'a server \<Rightarrow> bool" where
  "srv_reachable show_addr maxPeers protocols s \<longleftrightarrow>
     (\<exists>s0. srv_Start (new_server maxPeers protocols) = Inr s0 \<and> (srv_step show_addr)\<^sup>*\<^sup>* s0 s)"

subsection \<open>The invariant\<close>

text \<open>The peers map and the running goroutines are two views of the same peers.\<close>

definition tables_ok :: "'a server \<Rightarrow> bool" where
  "tables_ok s \<longleftrightarrow>
     gm_ok (s_peers s) \<and> gm_ok (s_live s) \<and>
     (\<forall>k i. gm_get (s_peers s) k = Some i \<longrightarrow> (\<exists>p ph. gm_get (s_live s) i = Some (p, ph) \<and> peer_ID p = k)) \<and>
     (\<forall>i p ph. gm_get (s_live s) i = Some (p, ph) \<longrightarrow> gm_get (s_peers s) (peer_ID p) = Some i \<and> i < s_next s)"

fun loop_panicked :: "'a server_loop \<Rightarrow> bool" where
  "loop_panicked (L_panicked p) = True"
| "loop_panicked l = False"

definition srv_inv :: "int \<Rightarrow> 'a server \<Rightarrow> bool" where
  "srv_inv maxPeers s \<longleftrightarrow>
     s_MaxPeers s = maxPeers \<and> tables_ok s \<and> db_ok (s_db s) \<and>
     int (gm_len (s_peers s)) \<le> max 0 maxPeers \<and>
     length (s_checkpoint s) \<le> checkpoint_cap \<and>
     (\<forall>n\<in>set (s_checkpoint s). gm_get (s_peers s) (n_id n) = None \<and>
        int (gm_len (s_peers s)) < maxPeers \<and> s_home s \<noteq> None) \<and>
     (s_pending s \<noteq> [] \<longrightarrow> db_home (s_db s) \<noteq> None) \<and>
     \<not> loop_panicked (s_loop s) \<and>
     (s_loop s = L_exited \<or> s_loop s = L_done \<longrightarrow> gm_len (s_peers s) = 0)"

lemma peer_ID_newPeer [simp]: "peer_ID (newPeer n h ps) = n_id n"
  by (simp add: peer_ID_def newPeer_def)

lemma tables_ok_cong:
  "tables_ok s \<Longrightarrow> s_peers s' = s_peers s \<Longrightarrow> s_live s' = s_live s \<Longrightarrow> s_next s' = s_next s \<Longrightarrow> tables_ok s'"
  by (simp add: tables_ok_def)

lemma tables_ok_peer:
  "tables_ok s \<Longrightarrow> gm_get (s_peers s) k = Some i \<Longrightarrow> \<exists>p ph. gm_get (s_live s) i = Some (p, ph) \<and> peer_ID p = k"
  unfolding tables_ok_def by blast

lemma tables_ok_live:
  assumes "tables_ok s" and "gm_get (s_live s) i = Some (p, ph)"
  shows "gm_get (s_peers s) (peer_ID p) = Some i" and "i < s_next s"
  using assms unfolding tables_ok_def by blast+

lemma tables_okI:
  assumes "gm_ok (s_peers s)" and "gm_ok (s_live s)"
    and "\<And>k i. gm_get (s_peers s) k = Some i \<Longrightarrow> \<exists>p ph. gm_get (s_live s) i = Some (p, ph) \<and> peer_ID p = k"
    and "\<And>i p ph. gm_get (s_live s) i = Some (p, ph) \<Longrightarrow> gm_get (s_peers s) (peer_ID p) = Some i \<and> i < s_next s"
  shows "tables_ok s"
  using assms unfolding tables_ok_def by blast

lemma tables_ok_maps: "tables_ok s \<Longrightarrow> gm_ok (s_peers s)" "tables_ok s \<Longrightarrow> gm_ok (s_live s)"
  by (simp_all add: tables_ok_def)

lemma tables_ok_phase:
  assumes ok: "tables_ok s" and i: "gm_get (s_live s) i = Some (p, ph)"
    and eq: "s_peers s' = s_peers s" "s_live s' = gm_put i (p, ph') (s_live s)" "s_next s' = s_next s"
  shows "tables_ok s'"
proof (rule tables_okI)
  show "\<exists>p ph. gm_get (s_live s') j = Some (p, ph) \<and> peer_ID p = k" if "gm_get (s_peers s') k = Some j" for k j
    using tables_ok_peer [OF ok, of k j] that i by (auto simp: eq map_simps)
  show "gm_get (s_peers s') (peer_ID q) = Some j \<and> j < s_next s'" if "gm_get (s_live s') j = Some (q, qh)" for j q qh
    using that tables_ok_live [OF ok i] tables_ok_live [OF ok, of j q qh]
    by (auto simp: eq map_simps split: if_splits)
qed (use tables_ok_maps [OF ok] in \<open>simp_all add: eq map_simps\<close>)

lemma tell_peer_phase:
  assumes "gm_ok live"
  shows "gm_ok (tell_peer r i live)"
    and "(\<exists>ph. gm_get (tell_peer r i live) j = Some (p, ph)) = (\<exists>ph. gm_get live j = Some (p, ph))"
  using assms by (auto simp: tell_peer_def map_simps split: option.splits peer_phase.splits)

lemma tell_all_phase:
  assumes "gm_ok live"
  shows "gm_ok (fold (tell_peer r) is live) \<and>
    (\<forall>j p. (\<exists>ph. gm_get (fold (tell_peer r) is live) j = Some (p, ph)) = (\<exists>ph. gm_get live j = Some (p, ph)))"
  using assms by (induction "is" arbitrary: live) (auto simp: tell_peer_phase)

lemma tables_ok_told:
  assumes ok: "tables_ok s" and eq: "s_peers s' = s_peers s" "s_next s' = s_next s" and "gm_ok (s_live s')"
    and same: "\<And>j p. (\<exists>ph. gm_get (s_live s') j = Some (p, ph)) = (\<exists>ph. gm_get (s_live s) j = Some (p, ph))"
  shows "tables_ok s'"
proof (rule tables_okI)
  show "\<exists>p ph. gm_get (s_live s') i = Some (p, ph) \<and> peer_ID p = k" if "gm_get (s_peers s') k = Some i" for k i
    using that tables_ok_peer [OF ok, of k i] same [of i] by (auto simp: eq)
  show "gm_get (s_peers s') (peer_ID p) = Some i \<and> i < s_next s'" if "gm_get (s_live s') i = Some (p, ph)" for i p ph
    using that tables_ok_live [OF ok, of i p] same [of i p] by (auto simp: eq)
qed (use tables_ok_maps [OF ok] assms(4) in \<open>simp_all add: eq\<close>)

lemma tables_ok_add:
  assumes ok: "tables_ok s" and new: "gm_get (s_peers s) (peer_ID p) = None"
    and eq: "s_peers s' = gm_put (peer_ID p) (s_next s) (s_peers s)"
      "s_live s' = gm_put (s_next s) (p, ph) (s_live s)" "s_next s' = Suc (s_next s)"
  shows "tables_ok s'"
proof (rule tables_okI)
  show "\<exists>p ph. gm_get (s_live s') j = Some (p, ph) \<and> peer_ID p = k" if "gm_get (s_peers s') k = Some j" for k j
  proof (cases "k = peer_ID p")
    case True
    with that show ?thesis by (auto simp: eq map_simps)
  next
    case False
    with that have "gm_get (s_peers s) k = Some j" by (simp add: eq map_simps)
    then obtain q qh where q: "gm_get (s_live s) j = Some (q, qh)" "peer_ID q = k"
      using tables_ok_peer [OF ok] by blast
    with tables_ok_live(2) [OF ok q(1)] show ?thesis by (auto simp: eq map_simps)
  qed
  show "gm_get (s_peers s') (peer_ID q) = Some j \<and> j < s_next s'" if "gm_get (s_live s') j = Some (q, qh)" for j q qh
  proof (cases "j = s_next s")
    case True
    with that show ?thesis by (simp add: eq map_simps)
  next
    case False
    with that have "gm_get (s_live s) j = Some (q, qh)" by (simp add: eq map_simps)
    with tables_ok_live [OF ok this] new show ?thesis by (auto simp: eq map_simps)
  qed
qed (use tables_ok_maps [OF ok] in \<open>simp_all add: eq map_simps\<close>)

lemma tables_ok_remove:
  assumes ok: "tables_ok s" and i: "gm_get (s_live s) i = Some (p, ph)"
    and eq: "s_peers s' = gm_del (peer_ID p) (s_peers s)" "s_live s' = gm_del i (s_live s)" "s_next s' = s_next s"
  shows "tables_ok s'"
proof (rule tables_okI)
  show "\<exists>p ph. gm_get (s_live s') j = Some (p, ph) \<and> peer_ID p = k" if k: "gm_get (s_peers s') k = Some j" for k j
  proof -
    from k have "gm_get (s_peers s) k = Some j" and ne: "k \<noteq> peer_ID p" by (simp_all add: eq map_simps split: if_splits)
    then obtain q qh where q: "gm_get (s_live s) j = Some (q, qh)" "peer_ID q = k"
      using tables_ok_peer [OF ok] by blast
    moreover have "j \<noteq> i" using q i ne by auto
    ultimately show ?thesis by (simp add: eq map_simps)
  qed
  show "gm_get (s_peers s') (peer_ID q) = Some j \<and> j < s_next s'" if l: "gm_get (s_live s') j = Some (q, qh)" for j q qh
  proof -
    from l have lj: "gm_get (s_live s) j = Some (q, qh)" and ne: "j \<noteq> i" by (simp_all add: eq map_simps split: if_splits)
    have "peer_ID q \<noteq> peer_ID p" using tables_ok_live(1) [OF ok lj] tables_ok_live(1) [OF ok i] ne by auto
    then show ?thesis using tables_ok_live [OF ok lj] by (simp add: eq map_simps)
  qed
qed (use tables_ok_maps [OF ok] in \<open>simp_all add: eq map_simps\<close>)

text \<open>The parts of the invariant that do not mention the tables.\<close>

lemma srv_inv_frame:
  assumes "srv_inv m s" and "tables_ok s'"
    and "s_peers s' = s_peers s" "s_MaxPeers s' = s_MaxPeers s" "s_db s' = s_db s" "s_home s' = s_home s"
      "s_checkpoint s' = s_checkpoint s"
    and "s_pending s' = s_pending s" "s_loop s' = s_loop s"
  shows "srv_inv m s'"
  using assms by (simp add: srv_inv_def)

lemma inv_on_conn:
  assumes inv: "srv_inv m s" and loop: "s_loop s = L_select" and pend: "s_pending s = Conn_node n # rest"
  shows "srv_inv m (on_conn n (s\<lparr>s_pending := rest\<rparr>))"
proof -
  obtain home where "db_home (s_db s) = Some home"
    using inv pend by (auto simp: srv_inv_def)
  moreover have "tables_ok (on_conn n (s\<lparr>s_pending := rest\<rparr>))"
    by (rule tables_ok_cong [of s]) (use inv in \<open>auto simp: srv_inv_def on_conn_def Let_def\<close>)
  ultimately show ?thesis
    using inv loop by (auto simp: srv_inv_def on_conn_def db_Home_def Let_def checkpoint_cap_def)
qed

lemma inv_on_disc:
  assumes inv: "srv_inv m s" and pend: "s_pending s = Disc_node n # rest"
  shows "srv_inv m (on_disc n (s\<lparr>s_pending := rest\<rparr>))"
proof -
  have ok: "tables_ok s" and live: "gm_ok (s_live s)" using inv tables_ok_maps by (auto simp: srv_inv_def)
  have "tables_ok (on_disc n (s\<lparr>s_pending := rest\<rparr>))"
    by (rule tables_ok_told [OF ok])
      (auto simp: on_disc_def tell_peer_phase [OF live] live split: option.split)
  then show ?thesis using inv pend by (auto simp: srv_inv_def on_disc_def split: option.split)
qed

lemma inv_on_checkpoint:
  assumes inv: "srv_inv m s" and loop: "s_loop s = L_select" and ch: "s_checkpoint s = n # rest"
  shows "srv_inv m (on_checkpoint n (s\<lparr>s_checkpoint := rest\<rparr>))"
proof -
  have rest: "rest = []" and new: "gm_get (s_peers s) (n_id n) = None" and less: "int (gm_len (s_peers s)) < m"
    and ok: "tables_ok s"
    using inv ch by (auto simp: srv_inv_def checkpoint_cap_def)
  obtain home where home: "s_home s = Some home" using inv ch by (auto simp: srv_inv_def)
  let ?p = "newPeer n (n_id home) (s_Protocols s)"
  have "tables_ok (on_checkpoint n (s\<lparr>s_checkpoint := rest\<rparr>))"
    by (rule tables_ok_add [OF ok, of ?p _ P_serving])
      (use new home in \<open>simp_all add: on_checkpoint_def addPeerChecks_def Let_def\<close>)
  moreover have "gm_len (gm_put (n_id n) (s_next s) (s_peers s)) = Suc (gm_len (s_peers s))"
    using new tables_ok_maps(1) [OF ok] by (simp add: gm_len_put gm_keys_get)
  ultimately show ?thesis
    using inv home less rest loop
    by (simp add: srv_inv_def on_checkpoint_def addPeerChecks_def Let_def checkpoint_cap_def)
qed

lemma inv_peer_returns:
  assumes inv: "srv_inv m s" and live: "gm_get (s_live s) i = Some (p, ph)"
  shows "srv_inv m (peer_returns i p requested err s)"
proof (rule srv_inv_frame [OF inv])
  show "tables_ok (peer_returns i p requested err s)"
    by (rule tables_ok_phase [OF _ live]) (use inv in \<open>simp_all add: srv_inv_def peer_returns_def\<close>)
qed (simp_all add: peer_returns_def)

lemma inv_peer_stops:
  assumes inv: "srv_inv m s" and live: "gm_get (s_live s) i = Some (p, ph)"
  shows "srv_inv m (peer_stops i p requested err s)"
proof (rule srv_inv_frame [OF inv])
  show "tables_ok (peer_stops i p requested err s)"
    by (rule tables_ok_phase [OF _ live]) (use inv in \<open>simp_all add: srv_inv_def peer_stops_def\<close>)
qed (simp_all add: peer_stops_def)

lemma inv_on_delpeer:
  assumes inv: "srv_inv m s" and live: "gm_get (s_live s) i = Some (p, ph)"
  shows "srv_inv m (on_delpeer i p s)"
proof -
  have ok: "tables_ok s" using inv by (simp add: srv_inv_def)
  have "tables_ok (on_delpeer i p s)"
    by (rule tables_ok_remove [OF ok live]) (simp_all add: on_delpeer_def)
  moreover have "gm_len (gm_del (peer_ID p) (s_peers s)) \<le> gm_len (s_peers s)"
    by (rule gm_len_del_le [OF tables_ok_maps(1) [OF ok]])
  ultimately show ?thesis
    using inv by (auto simp: srv_inv_def on_delpeer_def map_simps)
qed

lemma inv_on_quit:
  assumes inv: "srv_inv m s"
  shows "srv_inv m (on_quit s)"
proof -
  have ok: "tables_ok s" and live: "gm_ok (s_live s)" using inv tables_ok_maps by (auto simp: srv_inv_def)
  have "tables_ok (on_quit s)"
    by (rule tables_ok_told [OF ok]) (use tell_all_phase [OF live] in \<open>auto simp: on_quit_def\<close>)
  then show ?thesis using inv by (simp add: srv_inv_def on_quit_def)
qed

lemma inv_tick:
  assumes inv: "srv_inv m s" and "s_pending s = []"
    and tick: "discover_tick show_addr self conns (s_db s) = (db', disc, conn)"
  shows "srv_inv m (s\<lparr>s_db := db', s_pending := map Disc_node disc @ map Conn_node conn\<rparr>)"
proof -
  have "tick_good (s_db s) (db', disc, conn)"
    using tick_good_tick [of "s_db s" show_addr self conns] inv tick by (simp add: srv_inv_def)
  then have "db_ok db'" and "map Disc_node disc @ map Conn_node conn \<noteq> [] \<longrightarrow> db_home db' \<noteq> None"
    by (auto simp: tick_good_def)
  moreover have "tables_ok (s\<lparr>s_db := db', s_pending := map Disc_node disc @ map Conn_node conn\<rparr>)"
    by (rule tables_ok_cong [of s]) (use inv in \<open>simp_all add: srv_inv_def\<close>)
  ultimately show ?thesis using inv unfolding srv_inv_def by simp
qed

lemma inv_plain:
  assumes "srv_inv m s" and "s_peers s' = s_peers s" "s_live s' = s_live s" "s_next s' = s_next s"
    "s_MaxPeers s' = s_MaxPeers s" "s_db s' = s_db s" "s_home s' = s_home s" "s_checkpoint s' = s_checkpoint s"
    "s_pending s' = s_pending s"
    and "s_loop s' = s_loop s \<or> ((s_loop s' = L_exited \<or> s_loop s' = L_done) \<and> gm_len (s_peers s) = 0)"
  shows "srv_inv m s'"
proof -
  have "tables_ok s'"
    by (rule tables_ok_cong [of s]) (use assms in \<open>simp_all add: srv_inv_def\<close>)
  then show ?thesis using assms by (auto simp: srv_inv_def)
qed

lemma srv_inv_step:
  assumes step: "srv_step show_addr s s'" and inv: "srv_inv m s"
  shows "srv_inv m s'"
  using step
proof cases
  case (tick self conns db' disc conn)
  then show ?thesis using inv_tick [OF inv] by blast
next
  case (disc_begins)
  then show ?thesis using inv_plain [OF inv] by simp
next
  case (disc_stops)
  then show ?thesis using inv_plain [OF inv] by simp
next
  case (conn n rest)
  then show ?thesis using inv_on_conn [OF inv] by blast
next
  case (disc n rest)
  then show ?thesis using inv_on_disc [OF inv] by blast
next
  case (checkpoint n rest)
  then show ?thesis using inv_on_checkpoint [OF inv] by blast
next
  case (stop)
  then show ?thesis using inv_plain [OF inv] by (simp add: srv_Stop_def)
next
  case (quit)
  then show ?thesis using inv_on_quit [OF inv] by blast
next
  case (drained)
  then show ?thesis using inv_plain [OF inv] by simp
next
  case (finished)
  then show ?thesis using inv_plain [OF inv, of s'] inv by (simp add: srv_inv_def)
qed (use inv_peer_stops [OF inv] inv_peer_returns [OF inv] inv_on_delpeer [OF inv] in blast)+

lemma srv_inv_start: "srv_Start (new_server m ps) = Inr s \<Longrightarrow> srv_inv m s"
  by (auto simp: srv_Start_def setupDiscovery_def new_server_def srv_inv_def tables_ok_def db_ok_def NewDB_def)

lemma srv_inv_steps: "(srv_step show_addr)\<^sup>*\<^sup>* s s' \<Longrightarrow> srv_inv m s \<Longrightarrow> srv_inv m s'"
  by (induction rule: rtranclp_induct) (auto intro: srv_inv_step)

lemma srv_inv_reachable: "srv_reachable show_addr m ps s \<Longrightarrow> srv_inv m s"
  unfolding srv_reachable_def using srv_inv_start srv_inv_steps by blast

lemma live_count:
  assumes ok: "tables_ok s"
  shows "gm_len (s_live s) = gm_len (s_peers s)"
proof -
  let ?f = "\<lambda>k. the (gm_get (s_peers s) k)"
  have "bij_betw ?f (gm_keys (s_peers s)) (gm_keys (s_live s))"
  proof (rule bij_betwI')
    fix k k' assume k: "k \<in> gm_keys (s_peers s)" "k' \<in> gm_keys (s_peers s)"
    then obtain i i' where i: "gm_get (s_peers s) k = Some i" "gm_get (s_peers s) k' = Some i'"
      by (auto simp: gm_keys_get)
    then show "(?f k = ?f k') = (k = k')"
      using tables_ok_peer [OF ok i(1)] tables_ok_peer [OF ok i(2)] by auto
  next
    fix k assume "k \<in> gm_keys (s_peers s)"
    then obtain i where "gm_get (s_peers s) k = Some i" by (auto simp: gm_keys_get)
    with tables_ok_peer [OF ok this] show "?f k \<in> gm_keys (s_live s)" by (auto simp: gm_keys_get)
  next
    fix i assume "i \<in> gm_keys (s_live s)"
    then obtain p ph where "gm_get (s_live s) i = Some (p, ph)" by (auto simp: gm_keys_get)
    with tables_ok_live(1) [OF ok this] show "\<exists>k\<in>gm_keys (s_peers s). i = ?f k"
      by (auto simp: gm_keys_get intro!: bexI [of _ "peer_ID p"])
  qed
  then have "card (gm_keys (s_live s)) = card (gm_keys (s_peers s))"
    by (simp add: bij_betw_same_card)
  then show ?thesis using tables_ok_maps [OF ok] by (simp add: gm_len_keys)
qed

subsection \<open>Events\<close>

definition count_events :: "string \<Rightarrow> string \<Rightarrow> 'a server \<Rightarrow> nat" where
  "count_events ty k s = length (filter (\<lambda>e. ev_Type e = ty \<and> ev_Peer e = k) (s_events s))"

fun leaving :: "peer_phase \<Rightarrow> bool" where
  "leaving (P_leaving requested err) = True"
| "leaving ph = False"

definition announced :: "'a server \<Rightarrow> string \<Rightarrow> bool" where
  "announced s k \<longleftrightarrow> (\<exists>i p ph. gm_get (s_live s) i = Some (p, ph) \<and> peer_ID p = k \<and> \<not> leaving ph)"

definition events_ok :: "'a server \<Rightarrow> bool" where
  "events_ok s \<longleftrightarrow> (\<forall>k. count_events PeerEventTypeAdd k s = count_events PeerEventTypeDrop k s + of_bool (announced s k))"

lemma event_types [simp]: "PeerEventTypeAdd \<noteq> PeerEventTypeDrop" "PeerEventTypeDrop \<noteq> PeerEventTypeAdd"
  by (simp_all add: PeerEventTypeAdd_def PeerEventTypeDrop_def)

lemma events_ok_cong:
  assumes "events_ok s" and "s_events s' = s_events s" and "\<And>k. announced s' k = announced s k"
  shows "events_ok s'"
  using assms by (simp add: events_ok_def count_events_def)

lemma announced_same: "s_live s' = s_live s \<Longrightarrow> announced s' k = announced s k"
  by (simp add: announced_def)

lemma announced_except:
  assumes "\<And>j. j \<noteq> i \<Longrightarrow> gm_get (s_live s') j = gm_get (s_live s) j"
    and "\<And>p ph. gm_get (s_live s) i = Some (p, ph) \<Longrightarrow> leaving ph \<or> peer_ID p \<noteq> k"
    and "\<And>p ph. gm_get (s_live s') i = Some (p, ph) \<Longrightarrow> leaving ph \<or> peer_ID p \<noteq> k"
  shows "announced s' k = announced s k"
  using assms unfolding announced_def by metis

lemma tell_peer_announced:
  "(\<exists>j p ph. gm_get (tell_peer r i live) j = Some (p, ph) \<and> peer_ID p = k \<and> \<not> leaving ph)
   = (\<exists>j p ph. gm_get live j = Some (p, ph) \<and> peer_ID p = k \<and> \<not> leaving ph)"
proof (cases "gm_get live i")
  case (Some x)
  obtain p ph where x: "x = (p, ph)" by (cases x)
  show ?thesis
  proof (cases ph)
    case P_serving
    with Some x have eq: "gm_get (tell_peer r i live) j = (if j = i then Some (p, P_ending False (Disc_reason r)) else gm_get live j)" for j
      by (simp add: tell_peer_def map_simps)
    show ?thesis unfolding eq using Some x P_serving
      by (metis leaving.simps(2,3) option.inject prod.inject)
  qed (use Some x in \<open>simp_all add: tell_peer_def\<close>)
qed (simp add: tell_peer_def)

lemma tell_all_announced:
  "(\<exists>j p ph. gm_get (fold (tell_peer r) is live) j = Some (p, ph) \<and> peer_ID p = k \<and> \<not> leaving ph)
   = (\<exists>j p ph. gm_get live j = Some (p, ph) \<and> peer_ID p = k \<and> \<not> leaving ph)"
  by (induction "is" arbitrary: live) (simp_all add: tell_peer_announced)

lemma events_on_checkpoint:
  assumes inv: "srv_inv m s" and ev: "events_ok s" and ch: "s_checkpoint s = n # rest"
  shows "events_ok (on_checkpoint n (s\<lparr>s_checkpoint := rest\<rparr>))"
proof -
  have ok: "tables_ok s" and new: "gm_get (s_peers s) (n_id n) = None"
    using inv ch by (auto simp: srv_inv_def)
  obtain home where home: "s_home s = Some home" using inv ch by (auto simp: srv_inv_def)
  let ?s' = "on_checkpoint n (s\<lparr>s_checkpoint := rest\<rparr>)"
  have live: "gm_get (s_live ?s') i = (if i = s_next s then Some (newPeer n (n_id home) (s_Protocols s), P_serving) else gm_get (s_live s) i)" for i
    using home by (simp add: on_checkpoint_def addPeerChecks_def Let_def map_simps)
  have fresh: "gm_get (s_live s) (s_next s) = None"
    using tables_ok_live(2) [OF ok] by (cases "gm_get (s_live s) (s_next s)") auto
  have not_before: "\<not> announced s (n_id n)"
  proof
    assume "announced s (n_id n)"
    then obtain i p ph where "gm_get (s_live s) i = Some (p, ph)" "peer_ID p = n_id n"
      by (auto simp: announced_def)
    with tables_ok_live(1) [OF ok this(1)] new show False by simp
  qed
  have "announced ?s' k = (k = n_id n \<or> announced s k)" for k
  proof (cases "k = n_id n")
    case True
    have "announced ?s' (n_id n)"
      unfolding announced_def by (rule exI [of _ "s_next s"]) (simp add: live)
    with True show ?thesis by simp
  next
    case False
    then have "announced ?s' k = announced s k"
      by (intro announced_except [of "s_next s"]) (use fresh in \<open>auto simp: live\<close>)
    with False show ?thesis by simp
  qed
  moreover have "count_events ty k ?s' = count_events ty k s + of_bool (ty = PeerEventTypeAdd \<and> k = n_id n)" for ty k
    using home by (auto simp: count_events_def on_checkpoint_def addPeerChecks_def Let_def)
  ultimately show ?thesis using ev not_before by (auto simp: events_ok_def)
qed

lemma events_peer_returns:
  assumes inv: "srv_inv m s" and ev: "events_ok s" and i: "gm_get (s_live s) i = Some (p, ph)" and "\<not> leaving ph"
  shows "events_ok (peer_returns i p requested err s)"
proof -
  have ok: "tables_ok s" using inv by (simp add: srv_inv_def)
  let ?s' = "peer_returns i p requested err s"
  have live: "gm_get (s_live ?s') j = (if j = i then Some (p, P_leaving requested err) else gm_get (s_live s) j)" for j
    by (simp add: peer_returns_def map_simps)
  have "j = i" if "gm_get (s_live s) j = Some (q, qh)" "peer_ID q = peer_ID p" for j q qh
    using tables_ok_live(1) [OF ok that(1)] tables_ok_live(1) [OF ok i] that(2) by simp
  then have after: "\<not> announced ?s' (peer_ID p)"
    unfolding announced_def using live by (metis leaving.simps(1) option.inject prod.inject)
  have other: "announced ?s' k = announced s k" if "k \<noteq> peer_ID p" for k
    by (rule announced_except [of i]) (use i that in \<open>auto simp: live\<close>)
  have before: "announced s (peer_ID p)" using i assms(4) by (auto simp: announced_def)
  have count: "count_events ty k ?s' = count_events ty k s + of_bool (ty = PeerEventTypeDrop \<and> k = peer_ID p)" for ty k
    by (auto simp: count_events_def peer_returns_def)
  show ?thesis
    unfolding events_ok_def
  proof
    fix k
    show "count_events PeerEventTypeAdd k ?s' = count_events PeerEventTypeDrop k ?s' + of_bool (announced ?s' k)"
      using ev after before other unfolding events_ok_def count
      by (cases "k = peer_ID p") simp_all
  qed
qed

lemma events_peer_stops:
  assumes inv: "srv_inv m s" and ev: "events_ok s" and i: "gm_get (s_live s) i = Some (p, P_serving)"
  shows "events_ok (peer_stops i p requested err s)"
proof (rule events_ok_cong [OF ev])
  have live: "gm_get (s_live (peer_stops i p requested err s)) j =
      (if j = i then Some (p, P_ending requested err) else gm_get (s_live s) j)" for j
    by (simp add: peer_stops_def map_simps)
  show "announced (peer_stops i p requested err s) k = announced s k" for k
    unfolding announced_def live using i by (metis leaving.simps(2,3) option.inject prod.inject)
qed (simp add: peer_stops_def)

lemma events_on_delpeer:
  assumes ev: "events_ok s" and i: "gm_get (s_live s) i = Some (p, ph)" and "leaving ph"
  shows "events_ok (on_delpeer i p s)"
proof (rule events_ok_cong [OF ev])
  show "announced (on_delpeer i p s) k = announced s k" for k
    by (rule announced_except [of i]) (use i assms(3) in \<open>auto simp: on_delpeer_def map_simps\<close>)
qed (simp add: on_delpeer_def)

lemma events_ok_step:
  assumes step: "srv_step show_addr s s'" and inv: "srv_inv m s" and ev: "events_ok s"
  shows "events_ok s'"
  using step
proof cases
  case (conn n rest)
  then show ?thesis
    by (intro events_ok_cong [OF ev]) (auto simp: on_conn_def Let_def intro!: announced_same)
next
  case (disc n rest)
  then show ?thesis
    by (intro events_ok_cong [OF ev])
      (auto simp: on_disc_def announced_def tell_peer_announced split: option.split)
next
  case (checkpoint n rest)
  then show ?thesis using events_on_checkpoint [OF inv ev] by blast
next
  case (loop_ends i p requested err)
  then show ?thesis using events_peer_stops [OF inv ev] by simp
next
  case (run_ends i p requested err)
  then show ?thesis using events_peer_returns [OF inv ev] by simp
next
  case (delpeer i p requested err)
  then show ?thesis using events_on_delpeer [OF ev] by simp
next
  case (drain i p requested err)
  then show ?thesis using events_on_delpeer [OF ev] by simp
next
  case (quit)
  then show ?thesis
    by (intro events_ok_cong [OF ev]) (simp_all add: on_quit_def announced_def tell_all_announced)
next
  case (stop)
  then show ?thesis
    by (intro events_ok_cong [OF ev]) (auto simp: srv_Stop_def intro!: announced_same)
qed (auto intro!: events_ok_cong [OF ev] announced_same)

lemma events_ok_reachable:
  assumes "srv_reachable show_addr m ps s"
  shows "events_ok s"
proof -
  obtain start where start: "srv_Start (new_server m ps) = Inr start" and run: "(srv_step show_addr)\<^sup>*\<^sup>* start s"
    using assms unfolding srv_reachable_def by blast
  from run show ?thesis
  proof (induction rule: rtranclp_induct)
    case base
    then show ?case
      using start by (auto simp: srv_Start_def setupDiscovery_def new_server_def events_ok_def count_events_def announced_def)
  next
    case (step t u)
    have "srv_inv m t" using srv_inv_steps [OF step.hyps(1)] srv_inv_start [OF start] by blast
    with step show ?case using events_ok_step by blast
  qed
qed

subsection \<open>Shutting down\<close>

lemma exited_no_live:
  assumes "srv_inv m s" and "s_loop s = L_exited \<or> s_loop s = L_done"
  shows "s_live s = []"
proof -
  have "gm_len (s_peers s) = 0" and ok: "tables_ok s" using assms by (auto simp: srv_inv_def)
  then have "gm_len (s_live s) = 0" using live_count [OF ok] by simp
  then show ?thesis by (simp add: gm_len_def)
qed

text \<open>Discovery as it was.\<close>

definition same_disc :: "'a server \<Rightarrow> 'a server \<Rightarrow> bool" where
  "same_disc s t \<longleftrightarrow> s_pending t = s_pending s \<and> s_disc_begun t = s_disc_begun s \<and> s_disc_done t = s_disc_done s"

lemma same_disc_refl [simp]: "same_disc s s"
  by (simp add: same_disc_def)

lemma same_disc_trans: "same_disc s t \<Longrightarrow> same_disc t u \<Longrightarrow> same_disc s u"
  by (simp add: same_disc_def)

lemma leave_reachable:
  assumes inv: "srv_inv m s" and live: "gm_get (s_live s) i = Some (p, ph)"
  obtains t requested err where "(srv_step show_addr)\<^sup>*\<^sup>* s t" and "gm_get (s_live t) i = Some (p, P_leaving requested err)"
    and "s_loop t = s_loop s" and "s_peers t = s_peers s" and "srv_inv m t" and "same_disc s t"
proof -
  note result = that
  have ending: thesis if t: "(srv_step show_addr)\<^sup>*\<^sup>* s u" "gm_get (s_live u) i = Some (p, P_ending b e)" "srv_inv m u"
      "s_loop u = s_loop s" "s_peers u = s_peers s" "same_disc s u" for u b e
  proof (rule result [of "peer_returns i p b e u" b e])
    show "(srv_step show_addr)\<^sup>*\<^sup>* s (peer_returns i p b e u)"
      using t(1) srv_step.run_ends [OF t(2)] by (rule rtranclp.rtrancl_into_rtrancl)
  qed (use t inv_peer_returns [OF t(3,2)] in \<open>simp_all add: peer_returns_def map_simps same_disc_def\<close>)
  show thesis
  proof (cases ph)
    case P_serving
    have "srv_step show_addr s (peer_stops i p False Io_EOF s)"
      by (rule srv_step.loop_ends) (use live P_serving in simp)
    then show thesis
      using ending [of "peer_stops i p False Io_EOF s" False Io_EOF] inv_peer_stops [OF inv live]
      by (simp add: peer_stops_def map_simps r_into_rtranclp same_disc_def)
  next
    case (P_ending b e)
    with live inv show thesis using ending [of s b e] by simp
  next
    case (P_leaving b e)
    with live inv show thesis using result [of s b e] by simp
  qed
qed

lemma drain_reachable:
  "srv_inv m s \<Longrightarrow> s_loop s = L_draining \<Longrightarrow>
   \<exists>t. (srv_step show_addr)\<^sup>*\<^sup>* s t \<and> s_loop t = L_exited \<and> s_live t = [] \<and> s_disc_quit t \<and> same_disc s t"
proof (induction "gm_len (s_peers s)" arbitrary: s rule: less_induct)
  case less
  have ok: "tables_ok s" using less.prems(1) by (simp add: srv_inv_def)
  show ?case
  proof (cases "gm_len (s_peers s) = 0")
    case True
    let ?t = "s\<lparr>s_loop := L_exited, s_disc_quit := True\<rparr>"
    have step: "srv_step show_addr s ?t" using less.prems(2) True by (rule srv_step.drained)
    with exited_no_live [OF srv_inv_step [OF step less.prems(1)]] show ?thesis
      by (intro exI [of _ ?t]) (auto simp: same_disc_def)
  next
    case False
    then obtain k i where "(k, i) \<in> set (s_peers s)"
      by (cases "s_peers s") (auto simp: gm_len_def)
    then have k: "gm_get (s_peers s) k = Some i"
      using tables_ok_maps(1) [OF ok] by (simp add: gm_in_set)
    then obtain p ph where live: "gm_get (s_live s) i = Some (p, ph)" "peer_ID p = k"
      using tables_ok_peer [OF ok] by blast
    obtain t requested err where t: "(srv_step show_addr)\<^sup>*\<^sup>* s t" "gm_get (s_live t) i = Some (p, P_leaving requested err)"
        "s_loop t = s_loop s" "s_peers t = s_peers s" "srv_inv m t" "same_disc s t"
      using leave_reachable [OF less.prems(1) live(1)] .
    let ?u = "on_delpeer i p t"
    have step: "srv_step show_addr t ?u"
      by (rule srv_step.drain [OF _ _ t(2)]) (use t(3,4) less.prems(2) False in auto)
    have "gm_len (s_peers ?u) < gm_len (s_peers s)"
      using k live(2) t(4) False tables_ok_maps(1) [OF ok]
      by (simp add: on_delpeer_def gm_len_del gm_keys_get)
    moreover have "s_loop ?u = L_draining" using t(3) less.prems(2) by (simp add: on_delpeer_def)
    ultimately obtain v where v: "(srv_step show_addr)\<^sup>*\<^sup>* ?u v" "s_loop v = L_exited" "s_live v = []" "s_disc_quit v" "same_disc ?u v"
      using less.hyps [of ?u] srv_inv_step [OF step t(5)] by blast
    have "same_disc s v" using t(6) v(5) by (simp add: same_disc_def on_delpeer_def)
    with v(1-4) t(1) step show ?thesis by (meson converse_rtranclp_into_rtranclp rtranclp_trans)
  qed
qed

text \<open>Two states the server cannot leave.\<close>

lemma stuck_step: "srv_step show_addr s s' \<Longrightarrow> s_loop s = L_stuck n \<Longrightarrow> s_loop s' = L_stuck n"
  by (induction rule: srv_step.induct) (auto simp: peer_stops_def peer_returns_def srv_Stop_def)

lemma stuck_steps: "(srv_step show_addr)\<^sup>*\<^sup>* s s' \<Longrightarrow> s_loop s = L_stuck n \<Longrightarrow> s_loop s' = L_stuck n"
  by (induction rule: rtranclp_induct) (auto dest: stuck_step)

definition discovery_blocked :: "'a server \<Rightarrow> bool" where
  "discovery_blocked s \<longleftrightarrow> s_loop s \<in> {L_draining, L_exited} \<and> s_pending s \<noteq> [] \<and> s_disc_begun s \<and> \<not> s_disc_done s"

lemma discovery_blocked_step: "srv_step show_addr s s' \<Longrightarrow> discovery_blocked s \<Longrightarrow> discovery_blocked s'"
  by (induction rule: srv_step.induct)
    (auto simp: discovery_blocked_def peer_stops_def peer_returns_def srv_Stop_def on_delpeer_def)

lemma discovery_blocked_steps:
  "(srv_step show_addr)\<^sup>*\<^sup>* s s' \<Longrightarrow> discovery_blocked s \<Longrightarrow> discovery_blocked s'"
  by (induction rule: rtranclp_induct) (auto dest: discovery_blocked_step)

text \<open>The first rounds of discovery after a start.\<close>

definition started :: "int \<Rightarrow> protocol list \<Rightarrow> 'a server" where
  "started m ps = (new_server m ps)\<lparr>s_running := True, s_disc_begun := True, s_disc_done := False, s_loop := L_select\<rparr>"

lemma Start_then_begin:
  "\<exists>s. srv_Start (new_server m ps) = Inr s \<and> srv_step show_addr s (started m ps)"
proof -
  let ?s = "(new_server m ps)\<lparr>s_running := True, s_disc_done := False, s_loop := L_select\<rparr>"
  have "srv_step show_addr ?s (?s\<lparr>s_disc_begun := True\<rparr>)"
    by (rule srv_step.disc_begins) (simp_all add: new_server_def)
  then show ?thesis by (intro exI [of _ ?s]) (simp add: srv_Start_def setupDiscovery_def new_server_def started_def)
qed

lemma reachable_started: "(srv_step show_addr)\<^sup>*\<^sup>* (started m ps) s \<Longrightarrow> srv_reachable show_addr m ps s"
  unfolding srv_reachable_def using Start_then_begin [of m ps show_addr] by (blast intro: converse_rtranclp_into_rtranclp)

lemma first_tick:
  assumes "list_all (isP2pCircuit show_addr) conns" and "distinct (map ci_id conns)" and "conns \<noteq> []"
  defines "nodes \<equiv> map (\<lambda>c. (ci_id c, node_New c)) conns"
  shows "srv_step show_addr (started m ps)
    ((started m ps)\<lparr>s_db := (NewDB 0)\<lparr>db_home := Some (NewNode h None None), db_nodes := nodes\<rparr>,
       s_pending := map Conn_node (map node_New conns)\<rparr>)"
proof -
  have kept: "filter_conns show_addr conns = conns"
    using assms(1) by (induction conns) simp_all
  have put: "make_nodes cs m0 = m0 @ map (\<lambda>c. (ci_id c, node_New c)) cs"
    if "distinct (map fst m0 @ map ci_id cs)" for cs :: "'a conn_info list" and m0
    using that
  proof (induction cs arbitrary: m0)
    case (Cons c cs)
    have "gm_put (ci_id c) (node_New c) m0 = m0 @ [(ci_id c, node_New c)]"
      using Cons.prems unfolding gm_put_def by (induction m0) auto
    then show ?case using Cons.IH [of "m0 @ [(ci_id c, node_New c)]"] Cons.prems
      by (simp add: Let_def node_New_def)
  qed simp
  have nodes: "MakeNodesMap conns = nodes"
    using put [of "[]" conns] assms(2) by (simp add: MakeNodesMap_def nodes_def)
  have missing: "missing_in [] nodes = map node_New conns"
    by (simp add: missing_in_def nodes_def comp_def filter_id_conv)
  have "discover_tick show_addr (Some h) conns (NewDB 0) =
      ((NewDB 0)\<lparr>db_home := Some (NewNode h None None), db_nodes := nodes\<rparr>, [], map node_New conns)"
    using assms(3) missing kept nodes
    by (simp add: discover_tick_def db_Home_def NewDB_def SetHome_def Choose_def db_Replace_def Let_def missing_in_def)
  then show ?thesis
    using srv_step.tick [of "started m ps" show_addr "Some h" conns _ "[]" "map node_New conns"]
    by (simp add: started_def new_server_def)
qed

text \<open>A run in which one node connects and becomes a peer.\<close>

lemma one_peer_reachable:
  assumes "0 < m" and "isP2pCircuit show_addr c"
  shows "\<exists>s p. srv_reachable show_addr m ps s \<and> gm_get (s_live s) 0 = Some (p, P_serving) \<and> peer_ID p = ci_id c \<and>
    gm_keys (s_peers s) = {ci_id c}"
proof -
  let ?n = "node_New c"
  let ?a = "(started m ps)\<lparr>s_db := (NewDB 0)\<lparr>db_home := Some (NewNode [] None None),
      db_nodes := map (\<lambda>c. (ci_id c, node_New c)) [c]\<rparr>,
    s_pending := map Conn_node (map node_New [c])\<rparr>"
  let ?b = "on_conn ?n (?a\<lparr>s_pending := []\<rparr>)"
  let ?e = "on_checkpoint ?n (?b\<lparr>s_checkpoint := []\<rparr>)"
  have "srv_step show_addr (started m ps) ?a"
    by (rule first_tick) (use assms in auto)
  moreover have "srv_step show_addr ?a ?b"
    by (rule srv_step.conn) (simp_all add: started_def)
  moreover have b: "s_loop ?b = L_select" "s_checkpoint ?b = [?n]" "s_home ?b = Some (NewNode [] None None)"
      "s_next ?b = 0"
    using assms(1) by (simp_all add: on_conn_def started_def new_server_def db_Home_def checkpoint_cap_def Let_def)
  then have "srv_step show_addr ?b ?e" by (intro srv_step.checkpoint) auto
  ultimately have "srv_reachable show_addr m ps ?e"
    by (intro reachable_started) (meson r_into_rtranclp rtranclp.rtrancl_into_rtrancl)
  moreover have "gm_get (s_live ?e) 0 = Some (newPeer ?n [] (s_Protocols ?b), P_serving)"
    using b by (simp add: on_checkpoint_def addPeerChecks_def Let_def map_simps NewNode_def)
  moreover have "peer_ID (newPeer ?n [] (s_Protocols ?b)) = ci_id c" by (simp add: node_New_def)
  moreover have "gm_keys (s_peers ?e) = {ci_id c}"
    using b by (simp add: on_checkpoint_def addPeerChecks_def Let_def map_simps NewNode_def node_New_def on_conn_def started_def new_server_def)
  ultimately show ?thesis by blast
qed

subsection \<open>Peers in the server\<close>

lemma phase_step:
  "peer_step homeID p r r' \<Longrightarrow>
   phase_of (r_main r') = phase_of (r_main r) \<or>
   (phase_of (r_main r) = P_serving \<and> (\<exists>b e. phase_of (r_main r') = P_ending b e)) \<or>
   (\<exists>b e. phase_of (r_main r) = P_ending b e \<and> phase_of (r_main r') = P_leaving b e)"
  by (induction rule: peer_step.induct) (auto simp: end_reader_def)

lemma run_in_server:
  assumes "gm_get (s_live s) i = Some (p, phase_of (r_main r))" and "peer_step homeID p r r'"
  shows "\<exists>s'. (srv_step show_addr)\<^sup>*\<^sup>* s s' \<and> gm_get (s_live s') i = Some (p, phase_of (r_main r')) \<and>
    s_peers s' = s_peers s \<and> (\<forall>j. j \<noteq> i \<longrightarrow> gm_get (s_live s') j = gm_get (s_live s) j)"
  using phase_step [OF assms(2)]
proof (elim disjE conjE exE)
  assume "phase_of (r_main r') = phase_of (r_main r)"
  with assms(1) show ?thesis by (intro exI [of _ s]) simp
next
  fix b e assume "phase_of (r_main r) = P_serving" and new: "phase_of (r_main r') = P_ending b e"
  with assms(1) have "srv_step show_addr s (peer_stops i p b e s)" by (intro srv_step.loop_ends) simp
  with new show ?thesis
    by (intro exI [of _ "peer_stops i p b e s"]) (simp add: peer_stops_def map_simps r_into_rtranclp)
next
  fix b e assume "phase_of (r_main r) = P_ending b e" and new: "phase_of (r_main r') = P_leaving b e"
  with assms(1) have "srv_step show_addr s (peer_returns i p b e s)" by (intro srv_step.run_ends) simp
  with new show ?thesis
    by (intro exI [of _ "peer_returns i p b e s"]) (simp add: peer_returns_def map_simps r_into_rtranclp)
qed

lemma told_run:
  assumes "peer_reachable homeID p callers r" and "gm_get live i = Some (p, phase_of (r_main r))"
  shows "\<exists>r'. (peer_step homeID p)\<^sup>*\<^sup>* r r' \<and> gm_get (tell_peer d i live) i = Some (p, phase_of (r_main r'))"
proof (cases "r_main r")
  case Selecting
  have "peer_step homeID p r (r\<lparr>r_main := Leaving False (Disc_reason d)\<rparr>)" by (rule peer_step.disconnect [OF Selecting])
  then have "(peer_step homeID p)\<^sup>*\<^sup>* r (r\<lparr>r_main := Leaving False (Disc_reason d)\<rparr>)" by (rule r_into_rtranclp)
  moreover have "gm_get (tell_peer d i live) i = Some (p, phase_of (Leaving False (Disc_reason d)))"
    using Selecting assms(2) by (simp add: tell_peer_def map_simps)
  ultimately show ?thesis by fastforce
next
  case Granting
  let ?g = "r\<lparr>r_main := Selecting, r_writeStart := Suc (r_writeStart r)\<rparr>"
  have "r_writeStart r < chan_cap"
    using run_inv_reachable [OF assms(1)] Granting by (auto simp: run_inv_def tokens_def chan_cap_def)
  then have "peer_step homeID p r ?g" by (rule peer_step.grant [OF Granting])
  moreover have "peer_step homeID p ?g (?g\<lparr>r_main := Leaving False (Disc_reason d)\<rparr>)" by (rule peer_step.disconnect) simp
  ultimately have "(peer_step homeID p)\<^sup>*\<^sup>* r (?g\<lparr>r_main := Leaving False (Disc_reason d)\<rparr>)"
    by (blast intro: converse_rtranclp_into_rtranclp)
  moreover have "gm_get (tell_peer d i live) i = Some (p, phase_of (Leaving False (Disc_reason d)))"
    using Granting assms(2) by (simp add: tell_peer_def map_simps)
  ultimately show ?thesis by fastforce
qed (use assms(2) in \<open>auto simp: tell_peer_def\<close>)

subsection \<open>Properties\<close>

text \<open>
  C5: In every reachable state the server has at most \<open>MaxPeers\<close> peers; the peers map and the running
  peer goroutines correspond one to one: a peer id has the entry \<open>i\<close> if and only if the goroutine \<open>i\<close>
  runs a peer of that id; the loop has not panicked on a nil home node; and once the loop has
  ended no peer goroutine is left and the map is empty.
\<close>

theorem server_peers_bounded:
  assumes "srv_reachable show_addr m ps s"
  shows "int (srv_PeerCount served s) \<le> max 0 m \<and>
    (\<forall>k i. gm_get (s_peers s) k = Some i \<longleftrightarrow> (\<exists>p ph. gm_get (s_live s) i = Some (p, ph) \<and> peer_ID p = k)) \<and>
    gm_len (s_live s) = gm_len (s_peers s) \<and>
    \<not> loop_panicked (s_loop s) \<and>
    (s_loop s = L_exited \<or> s_loop s = L_done \<longrightarrow> s_live s = [] \<and> s_peers s = [])"
proof -
  have inv: "srv_inv m s" by (rule srv_inv_reachable [OF assms])
  then have ok: "tables_ok s" by (simp add: srv_inv_def)
  have "gm_get (s_peers s) k = Some i \<longleftrightarrow> (\<exists>p ph. gm_get (s_live s) i = Some (p, ph) \<and> peer_ID p = k)" for k i
    using tables_ok_peer [OF ok] tables_ok_live(1) [OF ok] by blast
  moreover have "int (srv_PeerCount served s) \<le> max 0 m" and "\<not> loop_panicked (s_loop s)"
    and "s_loop s = L_exited \<or> s_loop s = L_done \<longrightarrow> s_peers s = []"
    using inv by (auto simp: srv_inv_def srv_PeerCount_def gm_len_def)
  ultimately show ?thesis using live_count [OF ok] exited_no_live [OF inv] by blast
qed

text \<open>A reachable state with one peer, which has been announced.\<close>

lemma one_peer_state:
  obtains s :: "unit server" and p where "srv_reachable (\<lambda>a. ''/p2p-circuit'') 10 [] s" and "gm_get (s_live s) 0 = Some (p, P_serving)"
    and "peer_ID p = ''a''" and "gm_keys (s_peers s) = {''a''}"
proof -
  have "isP2pCircuit (\<lambda>a. ''/p2p-circuit'') \<lparr>ci_id = ''a'', ci_addr = (), ci_streams = []\<rparr>"
    by (simp add: isP2pCircuit_def P2pCircuit_def has_prefix_def)
  from one_peer_reachable [OF _ this, of 10 "[]"] show thesis using that by auto
qed

lemma server_peers_bounded_witness:
  "\<exists>(s :: unit server) p. srv_reachable (\<lambda>a. ''/p2p-circuit'') 10 [] s \<and> gm_get (s_live s) 0 = Some (p, P_serving) \<and>
    gm_get (s_peers s) ''a'' = Some 0 \<and> gm_len (s_live s) = 1 \<and> int (srv_PeerCount True s) \<le> 10"
proof -
  obtain s :: "unit server" and p where s: "srv_reachable (\<lambda>a. ''/p2p-circuit'') 10 [] s" "gm_get (s_live s) 0 = Some (p, P_serving)"
      "peer_ID p = ''a''" "gm_keys (s_peers s) = {''a''}"
    by (rule one_peer_state)
  note c = server_peers_bounded [OF s(1), of True]
  then have "gm_get (s_peers s) ''a'' = Some 0" using s(2,3) by blast
  moreover have "gm_ok (s_peers s)" using srv_inv_reachable [OF s(1)] by (simp add: srv_inv_def tables_ok_def)
  then have "gm_len (s_live s) = 1" using c s(4) by (simp add: gm_len_keys)
  ultimately show ?thesis using s(1,2) c by auto
qed

text \<open>
  C17: For every peer id the add events exceed the drop events by one while the peer runs and
  are as many otherwise: a peer is never announced twice without a drop in between.
\<close>

theorem server_events_balanced:
  assumes "srv_reachable show_addr m ps s"
  shows "count_events PeerEventTypeAdd k s = count_events PeerEventTypeDrop k s + of_bool (announced s k)"
  using events_ok_reachable [OF assms] by (simp add: events_ok_def)

lemma server_events_balanced_witness:
  "\<exists>s :: unit server. srv_reachable (\<lambda>a. ''/p2p-circuit'') 10 [] s \<and> announced s ''a'' \<and>
    count_events PeerEventTypeAdd ''a'' s = Suc (count_events PeerEventTypeDrop ''a'' s)"
proof -
  obtain s :: "unit server" and p where s: "srv_reachable (\<lambda>a. ''/p2p-circuit'') 10 [] s" "gm_get (s_live s) 0 = Some (p, P_serving)"
      "peer_ID p = ''a''" "gm_keys (s_peers s) = {''a''}"
    by (rule one_peer_state)
  then have "announced s ''a''" unfolding announced_def by (intro exI [of _ 0] exI [of _ p] exI [of _ P_serving]) simp
  with s(1) server_events_balanced [OF s(1), of "''a''"] show ?thesis by auto
qed

text \<open>
  When the server has been stopped, the loop can always finish its clean-up: from every
  reachable draining state there is a run in which all peers leave and the loop ends with
  no peer goroutine left.
\<close>

theorem server_drains:
  assumes "srv_reachable show_addr m ps s" and "s_loop s = L_draining"
  shows "\<exists>t. (srv_step show_addr)\<^sup>*\<^sup>* s t \<and> s_loop t = L_exited \<and> s_live t = []"
  using drain_reachable [OF srv_inv_reachable [OF assms(1)] assms(2)] by blast

lemma server_drains_witness:
  "\<exists>t. (srv_step (\<lambda>a :: string. a))\<^sup>*\<^sup>* (on_quit (srv_Stop (started 1 []))) t \<and> s_loop t = L_exited \<and> s_live t = []"
proof (rule server_drains)
  have "srv_step (\<lambda>a :: string. a) (srv_Stop (started 1 [])) (on_quit (srv_Stop (started 1 [])))"
    by (rule srv_step.quit) (simp_all add: srv_Stop_def started_def)
  then have "(srv_step (\<lambda>a :: string. a))\<^sup>*\<^sup>* (started 1 []) (on_quit (srv_Stop (started 1 [])))"
    using srv_step.stop [of "\<lambda>a :: string. a" "started 1 []"]
    by (meson r_into_rtranclp rtranclp.rtrancl_into_rtrancl)
  then show "srv_reachable (\<lambda>a :: string. a) 1 [] (on_quit (srv_Stop (started 1 [])))"
    by (rule reachable_started)
qed (simp add: on_quit_def)

text \<open>A run without a call of \<open>Stop\<close> in which two nodes connect in one round.\<close>

definition unstopped :: "('a \<Rightarrow> string) \<Rightarrow> 'a server \<Rightarrow> 'a server \<Rightarrow> bool" where
  "unstopped show_addr s s' \<longleftrightarrow> srv_step show_addr s s' \<and> s_running s' = s_running s"

lemma unstopped_steps: "(unstopped show_addr)\<^sup>*\<^sup>* s s' \<Longrightarrow> (srv_step show_addr)\<^sup>*\<^sup>* s s' \<and> s_running s' = s_running s"
  by (induction rule: rtranclp_induct) (auto simp: unstopped_def intro: rtranclp.rtrancl_into_rtrancl)

lemma on_conn_running: "s_running (on_conn n s) = s_running s"
  by (simp add: on_conn_def Let_def)

lemma unstoppedI: "srv_step show_addr s s' \<Longrightarrow> s_running s' = s_running s \<Longrightarrow> unstopped show_addr s s'"
  by (simp add: unstopped_def)

lemma two_connect:
  assumes "0 < m" and "isP2pCircuit show_addr c" and "isP2pCircuit show_addr d" and "ci_id c \<noteq> ci_id d"
  shows "\<exists>s. (unstopped show_addr)\<^sup>*\<^sup>* (started m ps) s \<and> s_loop s = L_stuck (node_New d) \<and> s_checkpoint s = [node_New c]"
proof -
  let ?a = "(started m ps)\<lparr>s_db := (NewDB 0)\<lparr>db_home := Some (NewNode '''' None None),
      db_nodes := map (\<lambda>c. (ci_id c, node_New c)) [c, d]\<rparr>,
    s_pending := map Conn_node (map node_New [c, d])\<rparr>"
  let ?b = "on_conn (node_New c) (?a\<lparr>s_pending := [Conn_node (node_New d)]\<rparr>)"
  let ?c = "on_conn (node_New d) (?b\<lparr>s_pending := []\<rparr>)"
  have 1: "srv_step show_addr (started m ps) ?a"
    by (rule first_tick) (use assms in auto)
  have 2: "srv_step show_addr ?a ?b"
    by (rule srv_step.conn) (simp_all add: started_def)
  have "s_loop ?b = L_select" and "s_pending ?b = [Conn_node (node_New d)]" and "s_checkpoint ?b = [node_New c]"
    and "s_peers ?b = []" and "s_MaxPeers ?b = m"
    using assms(1) by (simp_all add: on_conn_def started_def new_server_def db_Home_def checkpoint_cap_def Let_def)
  note b = this
  then have 3: "srv_step show_addr ?b ?c" by (intro srv_step.conn) auto
  have "unstopped show_addr (started m ps) ?a" by (rule unstoppedI [OF 1]) simp
  moreover have "unstopped show_addr ?a ?b" by (rule unstoppedI [OF 2]) (simp add: on_conn_running)
  moreover have "unstopped show_addr ?b ?c" by (rule unstoppedI [OF 3]) (simp add: on_conn_running)
  ultimately have "(unstopped show_addr)\<^sup>*\<^sup>* (started m ps) ?c"
    by (meson r_into_rtranclp rtranclp.rtrancl_into_rtrancl)
  moreover have "s_loop ?c = L_stuck (node_New d)" "s_checkpoint ?c = [node_New c]"
    using assms(1) b by (simp_all add: on_conn_def [of "node_New d"] checkpoint_cap_def Let_def)
  ultimately show ?thesis by blast
qed

text \<open>
  Two nodes that connect in the same round of discovery can stop the server for ever: the
  loop sends the second one to the checkpoint channel, which holds the first and which
  only the loop itself receives from.  No step leaves that state.
\<close>

theorem server_checkpoint_deadlock:
  assumes "0 < m" and "isP2pCircuit show_addr c" and "isP2pCircuit show_addr d" and "ci_id c \<noteq> ci_id d"
  shows "\<exists>s. srv_reachable show_addr m ps s \<and> s_loop s = L_stuck (node_New d) \<and>
    (\<forall>t. (srv_step show_addr)\<^sup>*\<^sup>* s t \<longrightarrow> s_loop t = L_stuck (node_New d))"
proof -
  obtain s where "(unstopped show_addr)\<^sup>*\<^sup>* (started m ps) s" "s_loop s = L_stuck (node_New d)"
    using two_connect [OF assms, of ps] by blast
  with unstopped_steps reachable_started stuck_steps show ?thesis by blast
qed

lemma server_checkpoint_deadlock_witness:
  "\<exists>s. srv_reachable (\<lambda>a. ''/p2p-circuit'') 10 [] s \<and>
    s_loop s = L_stuck (node_New \<lparr>ci_id = ''b'', ci_addr = (), ci_streams = []\<rparr>) \<and>
    (\<forall>t. (srv_step (\<lambda>a. ''/p2p-circuit''))\<^sup>*\<^sup>* s t \<longrightarrow>
       s_loop t = L_stuck (node_New \<lparr>ci_id = ''b'', ci_addr = (), ci_streams = []\<rparr>))"
  by (rule server_checkpoint_deadlock [where c = "\<lparr>ci_id = ''a'', ci_addr = (), ci_streams = []\<rparr>"])
    (simp_all add: isP2pCircuit_def P2pCircuit_def has_prefix_def)

text \<open>
  C26: \<open>Stop\<close> can block for ever although every peer has gone: when discovery is about to send
  a notification at the moment the loop ends, nobody receives it, and the loop waits for
  discovery.
\<close>

theorem server_stop_deadlock:
  assumes "isP2pCircuit show_addr c"
  shows "\<exists>s. srv_reachable show_addr m ps s \<and> s_loop s = L_exited \<and> s_live s = [] \<and>
    (\<forall>t. (srv_step show_addr)\<^sup>*\<^sup>* s t \<longrightarrow> s_loop t \<noteq> L_done)"
proof -
  let ?a = "(started m ps)\<lparr>s_db := (NewDB 0)\<lparr>db_home := Some (NewNode '''' None None),
      db_nodes := map (\<lambda>c. (ci_id c, node_New c)) [c]\<rparr>,
    s_pending := map Conn_node (map node_New [c])\<rparr>"
  let ?b = "srv_Stop ?a"
  let ?c = "on_quit ?b"
  let ?d = "?c\<lparr>s_loop := L_exited, s_disc_quit := True\<rparr>"
  have "srv_step show_addr (started m ps) ?a"
    by (rule first_tick) (use assms in auto)
  moreover have "srv_step show_addr ?a ?b" by (rule srv_step.stop)
  moreover have "srv_step show_addr ?b ?c"
    by (rule srv_step.quit) (simp_all add: srv_Stop_def started_def)
  moreover have "srv_step show_addr ?c ?d"
    by (rule srv_step.drained) (simp_all add: on_quit_def srv_Stop_def started_def new_server_def)
  ultimately have "srv_reachable show_addr m ps ?d"
    by (intro reachable_started) (meson r_into_rtranclp rtranclp.rtrancl_into_rtrancl)
  moreover have "discovery_blocked ?d" and "s_loop ?d = L_exited" and "s_live ?d = []"
    by (simp_all add: discovery_blocked_def on_quit_def srv_Stop_def started_def new_server_def)
  ultimately show ?thesis
    using discovery_blocked_steps by (intro exI [of _ ?d]) (fastforce simp: discovery_blocked_def)
qed

lemma server_stop_deadlock_witness:
  "\<exists>s. srv_reachable (\<lambda>a :: unit. ''/p2p-circuit'') 10 [] s \<and> s_loop s = L_exited \<and> s_live s = [] \<and>
    (\<forall>t. (srv_step (\<lambda>a. ''/p2p-circuit''))\<^sup>*\<^sup>* s t \<longrightarrow> s_loop t \<noteq> L_done)"
  by (rule server_stop_deadlock [where c = "\<lparr>ci_id = ''a'', ci_addr = (), ci_streams = []\<rparr>"])
    (simp add: isP2pCircuit_def P2pCircuit_def has_prefix_def)

text \<open>
  C9: The server's three phases are an abstraction of the goroutines of a peer: from a state in which
  the server sees a peer's phase, every run of the peer is a run of the server that keeps the
  other peers and the map; and a call of \<open>Disconnect\<close> does to the phase what a run of the peer
  can do.
\<close>

theorem peer_run_refines_phase:
  assumes "gm_get (s_live s) i = Some (p, phase_of (r_main r))" and "peer_reachable homeID p callers r"
  shows "(\<forall>r'. (peer_step homeID p)\<^sup>*\<^sup>* r r' \<longrightarrow>
      (\<exists>s'. (srv_step show_addr)\<^sup>*\<^sup>* s s' \<and> gm_get (s_live s') i = Some (p, phase_of (r_main r')) \<and>
         s_peers s' = s_peers s \<and> (\<forall>j. j \<noteq> i \<longrightarrow> gm_get (s_live s') j = gm_get (s_live s) j))) \<and>
    (\<exists>r'. (peer_step homeID p)\<^sup>*\<^sup>* r r' \<and> gm_get (tell_peer d i (s_live s)) i = Some (p, phase_of (r_main r')))"
proof (intro conjI allI impI)
  fix r' assume "(peer_step homeID p)\<^sup>*\<^sup>* r r'"
  then show "\<exists>s'. (srv_step show_addr)\<^sup>*\<^sup>* s s' \<and> gm_get (s_live s') i = Some (p, phase_of (r_main r')) \<and>
      s_peers s' = s_peers s \<and> (\<forall>j. j \<noteq> i \<longrightarrow> gm_get (s_live s') j = gm_get (s_live s) j)"
  proof (induction rule: rtranclp_induct)
    case base
    show ?case using assms(1) by blast
  next
    case (step u v)
    then obtain t where t: "(srv_step show_addr)\<^sup>*\<^sup>* s t" "gm_get (s_live t) i = Some (p, phase_of (r_main u))"
        "s_peers t = s_peers s" "\<forall>j. j \<noteq> i \<longrightarrow> gm_get (s_live t) j = gm_get (s_live s) j" by blast
    obtain w where "(srv_step show_addr)\<^sup>*\<^sup>* t w" "gm_get (s_live w) i = Some (p, phase_of (r_main v))"
        "s_peers w = s_peers t" "\<forall>j. j \<noteq> i \<longrightarrow> gm_get (s_live w) j = gm_get (s_live t) j"
      using run_in_server [OF t(2) step.hyps(2)] by blast
    with t show ?case by (intro exI [of _ w]) (auto intro: rtranclp_trans)
  qed
qed (rule told_run [OF assms(2,1)])

lemma peer_run_refines_phase_witness:
  "let p = newPeer (NewNode ''n'' None None :: unit node) ''h'' [];
       s = (started 1 [])\<lparr>s_peers := [(''n'', 0)], s_live := [(0, (p, P_serving))], s_next := 1\<rparr>
   in \<exists>s'. (srv_step (\<lambda>a. []))\<^sup>*\<^sup>* s s' \<and> gm_get (s_live s') 0 = Some (p, P_ending False (Disc_reason DiscQuitting))"
  unfolding Let_def
proof -
  let ?p = "newPeer (NewNode ''n'' None None :: unit node) ''h'' []"
  let ?s = "(started 1 [])\<lparr>s_peers := [(''n'', 0)], s_live := [(0, (?p, P_serving))], s_next := 1\<rparr>"
  let ?r = "(run_start ?p 0)\<lparr>r_main := Leaving False (Disc_reason DiscQuitting)\<rparr>"
  have live: "gm_get (s_live ?s) 0 = Some (?p, phase_of (r_main (run_start ?p 0)))" by (simp add: run_start_def gm_get_def)
  have reach: "peer_reachable ''h'' ?p 0 (run_start ?p 0)" by (simp add: peer_reachable_def)
  have "peer_step ''h'' ?p (run_start ?p 0) ?r" by (rule peer_step.disconnect) (simp add: run_start_def)
  then have "(peer_step ''h'' ?p)\<^sup>*\<^sup>* (run_start ?p 0) ?r" by (rule r_into_rtranclp)
  from conjunct1 [OF peer_run_refines_phase [OF live reach, of "\<lambda>a. []" DiscQuitting], rule_format, OF this]
  show "\<exists>s'. (srv_step (\<lambda>a. []))\<^sup>*\<^sup>* ?s s' \<and> gm_get (s_live s') 0 = Some (?p, P_ending False (Disc_reason DiscQuitting))"
    by auto
qed

end
