(* ===== verification/Tau_Command.thy ===== *)
theory Tau_Command
  imports Server Forum
begin

text \<open>
  The command (\<open>cmds/tau.go\<close>): the server it configures, with the protocols \<open>main_protocols\<close> of
  \<open>Forum\<close>, and what the peers of that server run in every state it reaches.
\<close>

text \<open>The logger, the context and the event switch of the configuration are left out.\<close>

definition main_MaxPeers :: int where
  "main_MaxPeers = 10"

definition main_server :: "go_panic + 'a server" where
  "main_server = bind_go main_protocols (\<lambda>protocols. Inr (new_server main_MaxPeers protocols))"

text \<open>Every peer has been made by \<open>newPeer\<close> from the configured protocols.\<close>

definition live_made :: "protocol list \<Rightarrow> 'a server \<Rightarrow> bool" where
  "live_made protocols s \<longleftrightarrow> s_Protocols s = protocols \<and>
     (\<forall>i p ph. gm_get (s_live s) i = Some (p, ph) \<longrightarrow> (\<exists>n h. p = newPeer n h protocols))"

lemma live_madeD: "live_made ps s \<Longrightarrow> gm_get (s_live s) i = Some (p, ph) \<Longrightarrow> \<exists>n h. p = newPeer n h ps"
  unfolding live_made_def by blast

lemma live_madeI:
  "s_Protocols s = ps \<Longrightarrow> (\<And>i p ph. gm_get (s_live s) i = Some (p, ph) \<Longrightarrow> \<exists>n h. p = newPeer n h ps) \<Longrightarrow> live_made ps s"
  by (auto simp: live_made_def)

lemma live_made_same:
  assumes "live_made ps s" and "s_Protocols s' = s_Protocols s"
    and "\<And>i p ph. gm_get (s_live s') i = Some (p, ph) \<Longrightarrow> \<exists>j ph'. gm_get (s_live s) j = Some (p, ph')"
  shows "live_made ps s'"
  using assms unfolding live_made_def by metis

lemma live_made_step:
  assumes step: "srv_step show_addr s s'" and inv: "srv_inv m s" and made: "live_made ps s"
  shows "live_made ps s'"
proof -
  have ok: "gm_ok (s_live s)" using inv by (simp add: srv_inv_def tables_ok_def)
  show ?thesis using step
  proof cases
    case (conn n rest)
    then have "s_live s' = s_live s" "s_Protocols s' = s_Protocols s" by (auto simp: on_conn_def Let_def)
    then show ?thesis by (intro live_made_same [OF made]) auto
  next
    case (disc n rest)
    then show ?thesis
      by (intro live_made_same [OF made])
        (auto simp: on_disc_def tell_peer_def map_simps split: option.splits peer_phase.splits if_splits; blast)+
  next
    case (checkpoint n rest)
    then show ?thesis
      using made
      by (intro live_madeI)
        (auto simp: on_checkpoint_def addPeerChecks_def Let_def map_simps live_made_def split: option.splits if_splits; blast)+
  next
    case (quit)
    have "\<exists>ph'. gm_get (s_live s) i = Some (p, ph')"
      if "gm_get (fold (tell_peer DiscQuitting) (map snd (s_peers s)) (s_live s)) i = Some (p, ph)" for i p ph
      using that tell_all_phase [OF ok, of DiscQuitting "map snd (s_peers s)"] by blast
    with quit show ?thesis by (intro live_made_same [OF made]) (auto simp: on_quit_def; blast)+
  next
    case (stop)
    then show ?thesis by (intro live_made_same [OF made]) (auto simp: srv_Stop_def split: if_splits; blast)+
  next
    case (delpeer i p requested err)
    then show ?thesis
      by (intro live_made_same [OF made]) (auto simp: on_delpeer_def map_simps split: if_splits; blast)+
  next
    case (drain i p requested err)
    then show ?thesis
      by (intro live_made_same [OF made]) (auto simp: on_delpeer_def map_simps split: if_splits; blast)+
  next
    case (loop_ends i p requested err)
    then show ?thesis
      by (intro live_made_same [OF made]) (auto simp: peer_stops_def map_simps split: if_splits; blast)+
  next
    case (run_ends i p requested err)
    then show ?thesis
      by (intro live_made_same [OF made]) (auto simp: peer_returns_def map_simps split: if_splits; blast)+
  qed (use made in \<open>simp_all add: live_made_def\<close>)
qed

lemma live_made_reachable:
  assumes "srv_reachable show_addr m ps s"
  shows "live_made ps s"
proof -
  obtain start where start: "srv_Start (new_server m ps) = Inr start" and run: "(srv_step show_addr)\<^sup>*\<^sup>* start s"
    using assms unfolding srv_reachable_def by blast
  from run show ?thesis
  proof (induction rule: rtranclp_induct)
    case base
    then show ?case using start by (auto simp: srv_Start_def setupDiscovery_def new_server_def live_made_def)
  next
    case (step y z)
    then show ?case using live_made_step srv_inv_steps srv_inv_start [OF start] by blast
  qed
qed

subsection \<open>Properties\<close>

text \<open>
  C33: In every state the server of the command reaches it has at most ten peers, and each of them runs
  the forum and nothing else: it reads the three topics of the forum under its own id, and the
  protocol \<open>tau\<close>, which the command makes, is run by none.
\<close>

theorem command_runs_forum_only:
  assumes "main_protocols = Inr ps" and "srv_reachable show_addr main_MaxPeers ps s"
    and "gm_get (s_live s) i = Some (p, ph)"
  shows "int (srv_PeerCount served s) \<le> 10 \<and> gm_keys (pp_running p) = {forum_protocolName} \<and>
    read_topics p = map (constructTopic (peer_ID p)) forum_protocolTopics \<and>
    tau_protocolName \<notin> gm_keys (pp_running p)"
proof -
  obtain n h where p: "p = newPeer n h ps" using live_madeD [OF live_made_reachable [OF assms(2)] assms(3)] by blast
  obtain ps' where "main_protocols = Inr ps'" "gm_keys (pp_running (newPeer n h ps')) = {''forum''}"
    "read_topics (newPeer n h ps') = map (constructTopic (n_id n)) [''HELLO'', ''TIME'', ''TIMERSP'']"
    using command_without_tau [of n h] by blast
  moreover from this(1) assms(1) have "ps' = ps" by (metis sum.inject(2))
  moreover have "int (srv_PeerCount served s) \<le> 10"
    using srv_inv_reachable [OF assms(2)] by (auto simp: srv_inv_def srv_PeerCount_def main_MaxPeers_def)
  ultimately show ?thesis
    by (simp add: p forum_protocolName_def forum_protocolTopics_def tau_protocolName_def)
qed

text \<open>A run of the command in which one node connects and becomes a peer.\<close>

lemma command_runs_forum_only_witness:
  "\<exists>(s :: unit server) p. gm_get (s_live s) 0 = Some (p, P_serving) \<and> peer_ID p = ''a'' \<and>
    int (srv_PeerCount True s) \<le> 10 \<and> gm_keys (pp_running p) = {forum_protocolName}"
proof -
  obtain ps where ps: "main_protocols = Inr ps" using command_without_tau by blast
  let ?show = "\<lambda>a :: unit. ''/p2p-circuit''"
  have "isP2pCircuit ?show \<lparr>ci_id = ''a'', ci_addr = (), ci_streams = []\<rparr>"
    by (simp add: isP2pCircuit_def P2pCircuit_def has_prefix_def)
  then obtain s p where "srv_reachable ?show main_MaxPeers ps s" "gm_get (s_live s) 0 = Some (p, P_serving)" "peer_ID p = ''a''"
    using one_peer_reachable [of main_MaxPeers ?show "\<lparr>ci_id = ''a'', ci_addr = (), ci_streams = []\<rparr>" ps]
    by (auto simp: main_MaxPeers_def)
  with command_runs_forum_only [OF ps, of ?show s 0 p P_serving True] show ?thesis by blast
qed

end
