(* ===== verification/Forum_Peer.thy ===== *)
theory Forum_Peer
  imports Forum_Run Tau_Command
begin

text \<open>
  The forum on a running peer: the two goroutines of \<open>Forum_Run\<close> as the callers of \<open>ReadMsg\<close> and
  \<open>WriteMsg\<close> on the channels of \<open>Peer_Run\<close>.  The handler is writer 0 of the peer, the greeting
  loop writer 1; what they are given back is what the peer's calls return.
\<close>

subsection \<open>State\<close>

record forum_peer_run =
  fp_run :: peer_run
  fp_forum :: forum_run

definition fp_start :: "'a p2p_peer \<Rightarrow> forum_peer_run" where
  "fp_start p = \<lparr>fp_run = run_start p 2, fp_forum = forum_start\<rparr>"

text \<open>A step of the peer in which neither goroutine takes part: none begins a call, is given a message or returns.\<close>

definition internal :: "peer_run \<Rightarrow> peer_run \<Rightarrow> bool" where
  "internal r r' \<longleftrightarrow>
     r_handlers r' = r_handlers r \<and>
     (\<forall>i<length (r_readers r). \<forall>from data. r_readers r ! i = Rd_handling from data \<longrightarrow> r_readers r' ! i \<noteq> Rd_listening) \<and>
     (\<forall>i<length (r_writers r). \<forall>m. r_writers r' ! i = W_waiting m \<longrightarrow> r_writers r ! i = W_waiting m)"

definition calls_write :: "nat \<Rightarrow> message \<Rightarrow> peer_run \<Rightarrow> peer_run" where
  "calls_write i m r = r\<lparr>r_writers := (r_writers r)[i := W_waiting m]\<rparr>"

subsection \<open>Steps\<close>

text \<open>
  \<open>ReadMsg\<close> takes the message of a read loop that is in \<open>handle\<close>, or finds \<open>closed\<close> closed, or times
  out.  \<open>left\<close>: the handler has returned, and the goroutine of \<open>startProtocols\<close> reports its error.
\<close>

inductive fp_step :: "string \<Rightarrow> 'a p2p_peer \<Rightarrow> forum_peer_run \<Rightarrow> forum_peer_run \<Rightarrow> bool" for homeID p where
  peer: "peer_step homeID p r r' \<Longrightarrow> internal r r' \<Longrightarrow>
    fp_step homeID p \<lparr>fp_run = r, fp_forum = f\<rparr> \<lparr>fp_run = r', fp_forum = f\<rparr>"
| given_time: "fr_handler f = F_reading \<Longrightarrow> i < length (r_readers r) \<Longrightarrow> r_readers r ! i = Rd_handling from data \<Longrightarrow>
    peer_handle p False from data (read_topics p ! i) = Inr (proto, msg) \<Longrightarrow> snd (pp_running p ! 0) = proto \<Longrightarrow>
    msg_Topic msg = ''TIME'' \<Longrightarrow>
    fp_step homeID p \<lparr>fp_run = r, fp_forum = f\<rparr>
      \<lparr>fp_run = calls_write 0 (time_reply now) (r\<lparr>r_readers := (r_readers r)[i := Rd_listening]\<rparr>),
       fp_forum = f\<lparr>fr_handler := F_answering, fr_written := fr_written f @ [time_reply now]\<rparr>\<rparr>"
| given_other: "fr_handler f = F_reading \<Longrightarrow> i < length (r_readers r) \<Longrightarrow> r_readers r ! i = Rd_handling from data \<Longrightarrow>
    peer_handle p False from data (read_topics p ! i) = Inr (proto, msg) \<Longrightarrow> snd (pp_running p ! 0) = proto \<Longrightarrow>
    msg_Topic msg \<noteq> ''TIME'' \<Longrightarrow>
    fp_step homeID p \<lparr>fp_run = r, fp_forum = f\<rparr>
      \<lparr>fp_run = r\<lparr>r_readers := (r_readers r)[i := Rd_listening]\<rparr>, fp_forum = f\<rparr>"
| read_fails: "fr_handler f = F_reading \<Longrightarrow> ev = Timed_out \<or> ev = Peer_closed \<and> r_closed r \<Longrightarrow> ReadMsg ev = Inl e \<Longrightarrow>
    fp_step homeID p \<lparr>fp_run = r, fp_forum = f\<rparr> \<lparr>fp_run = r, fp_forum = f\<lparr>fr_handler := F_returned e\<rparr>\<rparr>"
| answered: "fr_handler f = F_answering \<Longrightarrow> r_writers r ! 0 = W_returned res \<Longrightarrow>
    fp_step homeID p \<lparr>fp_run = r, fp_forum = f\<rparr>
      \<lparr>fp_run = r, fp_forum = f\<lparr>fr_handler := (case res of None \<Rightarrow> F_reading | Some e \<Rightarrow> F_returned e)\<rparr>\<rparr>"
| left: "fr_handler f = F_returned e \<Longrightarrow> r_handlers r ! 0 \<Longrightarrow> length (r_protoErr r) < gm_len (pp_running p) \<Longrightarrow>
    fp_step homeID p \<lparr>fp_run = r, fp_forum = f\<rparr>
      \<lparr>fp_run = r\<lparr>r_handlers := (r_handlers r)[0 := False], r_protoErr := r_protoErr r @ [handler_result (Some e)]\<rparr>,
       fp_forum = f\<rparr>"
| tick: "fr_hello f = G_waiting \<Longrightarrow>
    fp_step homeID p \<lparr>fp_run = r, fp_forum = f\<rparr>
      \<lparr>fp_run = calls_write 1 (sayhello (peer_ID p)) r,
       fp_forum = f\<lparr>fr_hello := G_writing, fr_written := fr_written f @ [sayhello (peer_ID p)]\<rparr>\<rparr>"
| greeted: "fr_hello f = G_writing \<Longrightarrow> r_writers r ! 1 = W_returned res \<Longrightarrow>
    fp_step homeID p \<lparr>fp_run = r, fp_forum = f\<rparr>
      \<lparr>fp_run = r, fp_forum = f\<lparr>fr_hello := (if res = None then G_waiting else G_ended)\<rparr>\<rparr>"

definition fp_reachable :: "string \<Rightarrow> 'a p2p_peer \<Rightarrow> forum_peer_run \<Rightarrow> bool" where
  "fp_reachable homeID p s \<longleftrightarrow> (fp_step homeID p)\<^sup>*\<^sup>* (fp_start p) s"

subsection \<open>How a call of \<open>WriteMsg\<close> proceeds\<close>

inductive writer_moves :: "string \<Rightarrow> bool \<Rightarrow> writer \<Rightarrow> writer \<Rightarrow> bool" for homeID closed where
  stays: "writer_moves homeID closed w w"
| starts: "writer_moves homeID closed (W_waiting m) (W_holding (constructTopic homeID (msg_Topic m)) (msg_Payload m))"
| refused: "closed \<Longrightarrow> writer_moves homeID closed (W_waiting m) (W_returned (Some ErrShuttingDown))"
| fails: "writer_moves homeID closed (W_holding topic (Inl e)) (W_reporting (Some e))"
| sends: "writer_moves homeID closed (W_holding topic (Inr data)) (W_reporting r)"
| reports: "writer_moves homeID closed (W_reporting r) (W_returned None)"

inductive_simps writer_moves_simps:
  "writer_moves homeID closed W_idle w"
  "writer_moves homeID closed (W_waiting m) w"
  "writer_moves homeID closed (W_holding topic payload) w"
  "writer_moves homeID closed (W_reporting r) w"
  "writer_moves homeID closed (W_returned r) w"

lemma moves_update:
  assumes "ws' = ws[j := w]" and "j < length ws" and "writer_moves homeID closed (ws ! j) w" and "i < length ws"
  shows "writer_moves homeID closed (ws ! i) (ws' ! i)"
  using assms by (cases "i = j") (auto intro: writer_moves.intros)

lemma internal_moves:
  assumes step: "peer_step homeID p r r'" and int: "internal r r'"
  shows "length (r_writers r') = length (r_writers r) \<and> r_handlers r' = r_handlers r \<and>
    (r_closed r \<longrightarrow> r_closed r') \<and>
    (\<forall>i<length (r_writers r). writer_moves homeID (r_closed r) (r_writers r ! i) (r_writers r' ! i))"
proof -
  have "r_closed r \<longrightarrow> r_closed r'" using step by cases (auto simp: r_closed_def end_reader_def)
  moreover have "r_handlers r' = r_handlers r" using int by (simp add: internal_def)
  moreover have "length (r_writers r') = length (r_writers r)" using step by cases (auto simp: end_reader_def)
  moreover have "writer_moves homeID (r_closed r) (r_writers r ! i) (r_writers r' ! i)" if "i < length (r_writers r)" for i
    using step
  proof cases
    case (call_write j res m)
    have "r_writers r' ! j = W_waiting m" using call_write by simp
    with int call_write show ?thesis unfolding internal_def by force
  next
    case (take_token j m)
    show ?thesis by (rule moves_update [OF _ take_token(2) _ that]) (use take_token in \<open>auto intro: writer_moves.intros\<close>)
  next
    case (refuse_write j m)
    show ?thesis by (rule moves_update [OF _ refuse_write(2) _ that]) (use refuse_write in \<open>auto intro: writer_moves.intros\<close>)
  next
    case (payload_failed j topic e)
    show ?thesis by (rule moves_update [OF _ payload_failed(2) _ that]) (use payload_failed in \<open>auto intro: writer_moves.intros\<close>)
  next
    case (publish j topic data res)
    show ?thesis by (rule moves_update [OF _ publish(2) _ that]) (use publish in \<open>auto intro: writer_moves.intros\<close>)
  next
    case (report j res)
    show ?thesis by (rule moves_update [OF _ report(2) _ that]) (use report in \<open>auto intro: writer_moves.intros\<close>)
  qed (auto intro: writer_moves.intros simp: end_reader_def)
  ultimately show ?thesis by blast
qed

subsection \<open>The invariant\<close>

text \<open>The greeting loop and its writer agree; an error ends it only when the peer has been closed.\<close>

fun greeter_ok :: "string \<Rightarrow> message \<Rightarrow> bool \<Rightarrow> forum_greeter \<Rightarrow> writer \<Rightarrow> bool" where
  "greeter_ok homeID m closed G_waiting w = (w = W_idle \<or> w = W_returned None)"
| "greeter_ok homeID m closed G_writing w =
     (case w of
        W_waiting m' \<Rightarrow> m' = m
      | W_holding topic payload \<Rightarrow> topic = constructTopic homeID (msg_Topic m) \<and> payload = msg_Payload m
      | W_reporting r \<Rightarrow> True
      | W_returned r \<Rightarrow> r = None \<or> r = Some ErrShuttingDown \<and> closed
      | W_idle \<Rightarrow> False)"
| "greeter_ok homeID m closed G_ended w = (w = W_returned (Some ErrShuttingDown) \<and> closed)"

lemma greeter_moves:
  "writer_moves homeID closed w w' \<Longrightarrow> greeter_ok homeID m closed g w \<Longrightarrow> closed \<longrightarrow> closed' \<Longrightarrow> greeter_ok homeID m closed' g w'"
  by (cases g; cases w) (auto simp: writer_moves_simps)

text \<open>The handler reads or has returned, with the timeout, or with \<open>io.EOF\<close> from a closed peer; it never writes.\<close>

definition reader_ok :: "bool \<Rightarrow> forum_reader \<Rightarrow> bool list \<Rightarrow> bool" where
  "reader_ok closed h handlers \<longleftrightarrow>
     (h = F_reading \<and> handlers ! 0) \<or> h = F_returned ErrReadTimeout \<or> (h = F_returned Io_EOF \<and> closed)"

definition fp_inv :: "string \<Rightarrow> 'a p2p_peer \<Rightarrow> forum_peer_run \<Rightarrow> bool" where
  "fp_inv homeID p s \<longleftrightarrow>
     length (r_writers (fp_run s)) = 2 \<and> length (r_handlers (fp_run s)) = 1 \<and>
     length (r_readers (fp_run s)) = readLoopCount p \<and> r_writers (fp_run s) ! 0 = W_idle \<and>
     reader_ok (r_closed (fp_run s)) (fr_handler (fp_forum s)) (r_handlers (fp_run s)) \<and>
     greeter_ok homeID (sayhello (peer_ID p)) (r_closed (fp_run s)) (fr_hello (fp_forum s)) (r_writers (fp_run s) ! 1)"

text \<open>A peer that runs the forum and nothing else.\<close>

definition forum_peer_ok :: "'a p2p_peer \<Rightarrow> bool" where
  "forum_peer_ok p \<longleftrightarrow> forum_only p \<and> gm_len (pp_running p) = 1 \<and> readLoopCount p = length (read_topics p)"

lemma fp_inv_start: "forum_peer_ok p \<Longrightarrow> fp_inv homeID p (fp_start p)"
  by (simp add: fp_inv_def fp_start_def run_start_def forum_start_def forum_peer_ok_def reader_ok_def numeral_2_eq_2)

lemma readers_kept: "peer_step homeID p r r' \<Longrightarrow> length (r_readers r') = length (r_readers r)"
  by (induction rule: peer_step.induct) (simp_all add: end_reader_def)

lemma fp_inv_step:
  assumes "fp_step homeID p s t" and ok: "forum_peer_ok p" and "fp_inv homeID p s"
  shows "fp_inv homeID p t"
  using assms(1,3)
proof (induction rule: fp_step.induct)
  case (peer r r' f)
  note m = internal_moves [OF peer.hyps] and inv = peer.prems [unfolded fp_inv_def, simplified]
  have all: "\<forall>i<2. writer_moves homeID (r_closed r) (r_writers r ! i) (r_writers r' ! i)" using m inv by simp
  have greeter: "writer_moves homeID (r_closed r) (r_writers r ! 1) (r_writers r' ! 1)" using all by simp
  have "writer_moves homeID (r_closed r) (r_writers r ! 0) (r_writers r' ! 0)"
    using all by (rule allE [of _ 0]) simp
  with inv have "r_writers r' ! 0 = W_idle" by (simp add: writer_moves_simps)
  moreover have "greeter_ok homeID (sayhello (peer_ID p)) (r_closed r') (fr_hello f) (r_writers r' ! 1)"
    by (rule greeter_moves [OF greeter]) (use m inv in auto)
  moreover have "reader_ok (r_closed r') (fr_handler f) (r_handlers r')" using m inv by (auto simp: reader_ok_def)
  ultimately show ?case using m inv readers_kept [OF peer.hyps(1)] by (simp add: fp_inv_def)
next
  case (given_time f i r "from" data proto msg now)
  have "read_topics p ! i \<in> set (read_topics p)"
    using given_time ok by (auto simp: fp_inv_def forum_peer_ok_def)
  with given_time.hyps(4,6) ok forum_only_silent [of p "read_topics p ! i" False "from" data proto msg]
  show ?case by (simp add: forum_peer_ok_def)
next
  case (given_other f i r "from" data proto msg)
  then show ?case by (simp add: fp_inv_def r_closed_def)
next
  case (read_fails f ev r e)
  then show ?case by (auto simp: fp_inv_def reader_ok_def ReadMsg_def)
next
  case (left f e r)
  then show ?case by (auto simp: fp_inv_def reader_ok_def r_closed_def)
next
  case (tick f r)
  then show ?case by (auto simp: fp_inv_def calls_write_def reader_ok_def r_closed_def)
next
  case (greeted f r res)
  then show ?case by (auto simp: fp_inv_def)
qed (auto simp: fp_inv_def reader_ok_def)

lemma fp_inv_reachable: "fp_reachable homeID p s \<Longrightarrow> forum_peer_ok p \<Longrightarrow> fp_inv homeID p s"
  unfolding fp_reachable_def by (induction rule: rtranclp_induct) (auto intro: fp_inv_start fp_inv_step)

subsection \<open>The two parts of a run\<close>

text \<open>Each step is a step of the peer, or none, and a step of the forum, or none.\<close>

lemma fp_step_parts:
  assumes "fp_step homeID p s t" and ok: "forum_peer_ok p" and "fp_inv homeID p s"
  shows "(peer_step homeID p)\<^sup>=\<^sup>= (fp_run s) (fp_run t) \<and> (forum_step p)\<^sup>=\<^sup>= (fp_forum s) (fp_forum t)"
  using assms(1,3)
proof (induction rule: fp_step.induct)
  case (given_time f i r "from" data proto msg now)
  have "read_topics p ! i \<in> set (read_topics p)"
    using given_time ok by (auto simp: fp_inv_def forum_peer_ok_def)
  with given_time.hyps(4,6) ok forum_only_silent [of p "read_topics p ! i" False "from" data proto msg]
  show ?case by (simp add: forum_peer_ok_def)
next
  case (given_other f i r "from" data proto msg)
  have "peer_step homeID p r (r\<lparr>r_readers := (r_readers r)[i := Rd_listening]\<rparr>)"
    by (rule peer_step.deliver [of i r _ _ p proto msg 0])
      (use given_other in \<open>auto simp: fp_inv_def reader_ok_def\<close>)
  then show ?case by simp
next
  case (read_fails f ev r e)
  then show ?case by (auto intro: forum_step.read_fails)
next
  case (left f e r)
  have "peer_step homeID p r (r\<lparr>r_handlers := (r_handlers r)[0 := False], r_protoErr := r_protoErr r @ [handler_result (Some e)]\<rparr>)"
    by (rule peer_step.handler_returns) (use left in \<open>auto simp: fp_inv_def\<close>)
  then show ?case by simp
next
  case (tick f r)
  have "\<exists>res. r_writers r ! 1 \<in> {W_idle, W_returned res}" "1 < length (r_writers r)" using tick by (auto simp: fp_inv_def)
  then have "peer_step homeID p r (calls_write 1 (sayhello (peer_ID p)) r)"
    unfolding calls_write_def by (blast intro: peer_step.call_write)
  with tick.hyps show ?case by (auto intro: forum_step.tick)
next
  case (answered f r res)
  then show ?case by (auto intro: forum_step.answered)
next
  case (greeted f r res)
  then show ?case using forum_step.greeted [of f p res] by (cases res) auto
qed simp_all

lemma fp_reachable_parts:
  assumes "fp_reachable homeID p s" and ok: "forum_peer_ok p"
  shows "peer_reachable homeID p 2 (fp_run s) \<and> forum_reachable p (fp_forum s)"
  using assms(1) unfolding fp_reachable_def
proof (induction rule: rtranclp_induct)
  case base
  show ?case by (simp add: fp_start_def peer_reachable_def forum_reachable_def)
next
  case (step y z)
  have "fp_inv homeID p y" using fp_inv_reachable [OF _ ok] step.hyps(1) by (simp add: fp_reachable_def)
  from fp_step_parts [OF step.hyps(2) ok this] step.IH show ?case
    unfolding peer_reachable_def forum_reachable_def by (auto intro: rtranclp.rtrancl_into_rtrancl)
qed

subsection \<open>The peers of the command\<close>

lemma main_protocols_eq: "main_protocols = Inr [MakeForum]"
  by (simp add: main_protocols_def MakeProtocol_def protocolLengths_def tau_protocolVersion_def gm_get_def)

lemma made_forum_ok:
  assumes "p = newPeer n h [MakeForum]" and "peer_ID p \<noteq> []"
  shows "forum_peer_ok p"
  using assms
  by (simp add: forum_peer_ok_def forum_only_def newPeer_def matchProtocols_def gm_put_def gm_len_def MakeForum_def
      read_topics_def readLoopCount_def peer_ID_def forum_protocolTopics_def)

lemma command_peer_ok:
  assumes "main_protocols = Inr ps" and "srv_reachable show_addr main_MaxPeers ps s"
    and "gm_get (s_live s) i = Some (p, ph)" and "peer_ID p \<noteq> []"
  shows "forum_peer_ok p"
proof -
  have "ps = [MakeForum]" using assms(1) by (simp add: main_protocols_eq)
  then show ?thesis using live_madeD [OF live_made_reachable [OF assms(2)] assms(3)] made_forum_ok assms(4) by blast
qed

text \<open>A run in which the ticker fires and the greeting loop takes the write token.\<close>

lemma greeting_run:
  "\<exists>fs. fp_reachable homeID p fs \<and>
    r_writers (fp_run fs) = [W_idle, W_holding (constructTopic homeID ''HELLO'') (Inr (text_bytes (''hello '' @ peer_ID p)))]"
proof -
  let ?m = "sayhello (peer_ID p)"
  let ?r = "run_start p 2" and ?f = "forum_start\<lparr>fr_hello := G_writing, fr_written := [?m]\<rparr>"
  let ?r1 = "calls_write 1 ?m ?r"
  let ?r2 = "?r1\<lparr>r_writeStart := 0, r_writers := [W_idle, W_holding (constructTopic homeID (msg_Topic ?m)) (msg_Payload ?m)]\<rparr>"
  have "fp_step homeID p (fp_start p) \<lparr>fp_run = ?r1, fp_forum = ?f\<rparr>"
    using fp_step.tick [of forum_start homeID p ?r] by (simp add: fp_start_def forum_start_def)
  moreover have "peer_step homeID p ?r1 ?r2"
    using peer_step.take_token [of 1 ?r1 ?m homeID p] by (simp add: calls_write_def run_start_def numeral_2_eq_2)
  then have "fp_step homeID p \<lparr>fp_run = ?r1, fp_forum = ?f\<rparr> \<lparr>fp_run = ?r2, fp_forum = ?f\<rparr>"
    by (rule fp_step.peer) (auto simp: internal_def calls_write_def run_start_def less_Suc_eq numeral_2_eq_2)
  ultimately have "fp_reachable homeID p \<lparr>fp_run = ?r2, fp_forum = ?f\<rparr>"
    unfolding fp_reachable_def by (meson converse_rtranclp_into_rtranclp r_into_rtranclp)
  then show ?thesis by (intro exI [of _ "\<lparr>fp_run = ?r2, fp_forum = ?f\<rparr>"]) (simp add: sayhello_def)
qed

subsection \<open>Properties\<close>

text \<open>
  C32: All the command ever publishes are greetings: for every peer of its server, in every run of the
  peer with the two goroutines of the forum on it, which is a run of each of the two parts, a message
  about to be published is the greeting on the home node's topic \<open>HELLO\<close>; no other topic is written to,
  though the forum declares an answer to requests for the time.  The handler ends with its timeout or,
  like the greeting loop, only when the peer has been closed: a failed write ends neither.
\<close>

theorem command_only_greets:
  assumes "main_protocols = Inr ps" and "srv_reachable show_addr main_MaxPeers ps s"
    and "gm_get (s_live s) k = Some (p, ph)" and "peer_ID p \<noteq> []" and "fp_reachable homeID p fs"
  shows "peer_reachable homeID p 2 (fp_run fs) \<and> forum_reachable p (fp_forum fs) \<and>
    (\<forall>i<length (r_writers (fp_run fs)). \<forall>topic payload. r_writers (fp_run fs) ! i = W_holding topic payload \<longrightarrow>
      topic = constructTopic homeID ''HELLO'' \<and> payload = Inr (text_bytes (''hello '' @ peer_ID p))) \<and>
    (fr_hello (fp_forum fs) = G_ended \<longrightarrow> r_closed (fp_run fs)) \<and>
    (fr_handler (fp_forum fs) = F_reading \<or> fr_handler (fp_forum fs) = F_returned ErrReadTimeout \<or>
     fr_handler (fp_forum fs) = F_returned Io_EOF \<and> r_closed (fp_run fs))"
proof -
  have ok: "forum_peer_ok p" by (rule command_peer_ok [OF assms(1-4)])
  have inv: "fp_inv homeID p fs" by (rule fp_inv_reachable [OF assms(5) ok])
  have "topic = constructTopic homeID ''HELLO'' \<and> payload = Inr (text_bytes (''hello '' @ peer_ID p))"
    if "i < length (r_writers (fp_run fs))" and h: "r_writers (fp_run fs) ! i = W_holding topic payload" for i topic payload
  proof -
    have "i = 0 \<or> i = 1" using that(1) inv by (auto simp: fp_inv_def)
    then have "i = 1" using h inv by (auto simp: fp_inv_def)
    with inv h show ?thesis by (cases "fr_hello (fp_forum fs)") (auto simp: fp_inv_def sayhello_def)
  qed
  with inv fp_reachable_parts [OF assms(5) ok] show ?thesis by (auto simp: fp_inv_def reader_ok_def)
qed

lemma command_only_greets_witness:
  "\<exists>(s :: unit server) p fs. gm_get (s_live s) 0 = Some (p, P_serving) \<and> fp_reachable ''h'' p fs \<and>
    r_writers (fp_run fs) ! 1 = W_holding ''hHELLO'' (Inr (text_bytes ''hello a'')) \<and> peer_reachable ''h'' p 2 (fp_run fs)"
proof -
  obtain ps where ps: "main_protocols = Inr ps" by (simp add: main_protocols_eq)
  let ?show = "\<lambda>a :: unit. ''/p2p-circuit''"
  have "isP2pCircuit ?show \<lparr>ci_id = ''a'', ci_addr = (), ci_streams = []\<rparr>"
    by (simp add: isP2pCircuit_def P2pCircuit_def has_prefix_def)
  then obtain s p where s: "srv_reachable ?show main_MaxPeers ps s" "gm_get (s_live s) 0 = Some (p, P_serving)" "peer_ID p = ''a''"
    using one_peer_reachable [of main_MaxPeers ?show "\<lparr>ci_id = ''a'', ci_addr = (), ci_streams = []\<rparr>" ps]
    by (auto simp: main_MaxPeers_def)
  obtain fs where fs: "fp_reachable ''h'' p fs"
    "r_writers (fp_run fs) = [W_idle, W_holding (constructTopic ''h'' ''HELLO'') (Inr (text_bytes (''hello '' @ peer_ID p)))]"
    using greeting_run by blast
  have "peer_reachable ''h'' p 2 (fp_run fs)"
    using command_only_greets [OF ps s(1,2) _ fs(1)] s(3) by simp
  moreover have "r_writers (fp_run fs) ! 1 = W_holding ''hHELLO'' (Inr (text_bytes ''hello a''))"
    by (simp add: fs(2) s(3) constructTopic_def)
  ultimately show ?thesis using s(2) fs(1) by blast
qed

end
