(* ===== verification/Server_Stop.thy ===== *)
theory Server_Stop
  imports Server
begin

text \<open>
  From which states the loop of the server can end, so that \<open>Stop\<close> returns: from every reachable
  state but two kinds, and from those in no run.
\<close>

subsection \<open>The flags\<close>

definition flags_ok :: "'a server \<Rightarrow> bool" where
  "flags_ok s \<longleftrightarrow>
     (s_running s \<or> s_quit s) \<and> (s_loop s = L_exited \<longrightarrow> s_disc_quit s)"

lemma flags_ok_step: "srv_step show_addr s s' \<Longrightarrow> flags_ok s \<Longrightarrow> flags_ok s'"
  by (induction rule: srv_step.induct)
    (auto simp: flags_ok_def on_conn_def on_disc_def on_checkpoint_def on_delpeer_def on_quit_def peer_stops_def
      peer_returns_def srv_Stop_def addPeerChecks_def Let_def split: option.splits)

lemma flags_ok_reachable: "srv_reachable show_addr m ps s \<Longrightarrow> flags_ok s"
proof -
  assume "srv_reachable show_addr m ps s"
  then obtain s0 where start: "srv_Start (new_server m ps) = Inr s0" and run: "(srv_step show_addr)\<^sup>*\<^sup>* s0 s"
    unfolding srv_reachable_def by blast
  from run show "flags_ok s"
  proof (induction rule: rtranclp_induct)
    case base
    show ?case using start by (auto simp: srv_Start_def setupDiscovery_def new_server_def flags_ok_def)
  qed (rule flags_ok_step)
qed

subsection \<open>Leaving the loop\<close>

text \<open>The loop can take what is in the checkpoint.\<close>

lemma checkpoint_empties:
  assumes inv: "srv_inv m s" and sel: "s_loop s = L_select"
  obtains t where "(srv_step show_addr)\<^sup>*\<^sup>* s t" and "srv_inv m t" and "s_loop t = L_select" and "s_checkpoint t = []"
    and "same_disc s t" and "s_quit t = s_quit s"
proof (cases "s_checkpoint s")
  case Nil
  with inv sel that [of s] show thesis by simp
next
  case (Cons n rest)
  let ?t = "on_checkpoint n (s\<lparr>s_checkpoint := rest\<rparr>)"
  have step: "srv_step show_addr s ?t" using sel Cons by (rule srv_step.checkpoint)
  have "rest = []" "s_home s \<noteq> None" using inv Cons by (auto simp: srv_inv_def checkpoint_cap_def)
  then have "s_loop ?t = L_select" "s_checkpoint ?t = []" "same_disc s ?t" "s_quit ?t = s_quit s"
    using sel by (auto simp: on_checkpoint_def addPeerChecks_def same_disc_def Let_def)
  with step srv_inv_step [OF step inv] show thesis by (intro that [of ?t]) auto
qed

text \<open>Then it can receive everything that discovery has still to send.\<close>

lemma pending_empties:
  assumes "srv_inv m s" and "s_loop s = L_select"
  shows "\<exists>t. (srv_step show_addr)\<^sup>*\<^sup>* s t \<and> srv_inv m t \<and> s_loop t = L_select \<and> s_pending t = [] \<and> s_quit t = s_quit s"
  using assms
proof (induction "s_pending s" arbitrary: s)
  case Nil
  then show ?case by (intro exI [of _ s]) simp
next
  case (Cons n rest)
  obtain t where t: "(srv_step show_addr)\<^sup>*\<^sup>* s t" "srv_inv m t" "s_loop t = L_select" "s_checkpoint t = []" "same_disc s t"
      "s_quit t = s_quit s" using checkpoint_empties [OF Cons.prems] .
  then have pend: "s_pending t = n # rest" using Cons.hyps(2) by (simp add: same_disc_def)
  have "\<exists>u. srv_step show_addr t u \<and> s_loop u = L_select \<and> s_pending u = rest \<and> s_quit u = s_quit t"
  proof (cases n)
    case (Disc_node k)
    let ?u = "on_disc k (t\<lparr>s_pending := rest\<rparr>)"
    have "srv_step show_addr t ?u" by (rule srv_step.disc) (use t(3) pend Disc_node in simp_all)
    moreover have "s_loop ?u = L_select" "s_pending ?u = rest" "s_quit ?u = s_quit t"
      using t(3) by (auto simp: on_disc_def split: option.splits)
    ultimately show ?thesis by blast
  next
    case (Conn_node k)
    let ?u = "on_conn k (t\<lparr>s_pending := rest\<rparr>)"
    have "srv_step show_addr t ?u" by (rule srv_step.conn) (use t(3) pend Conn_node in simp_all)
    moreover have "s_loop ?u = L_select" "s_pending ?u = rest" "s_quit ?u = s_quit t"
      using t(3,4) by (auto simp: on_conn_def checkpoint_cap_def Let_def)
    ultimately show ?thesis by blast
  qed
  then obtain u where u: "srv_step show_addr t u" "s_loop u = L_select" "s_pending u = rest" "s_quit u = s_quit t" by blast
  from Cons.hyps(1) [of u] u srv_inv_step [OF u(1) t(2)] obtain v
    where "(srv_step show_addr)\<^sup>*\<^sup>* u v" "srv_inv m v" "s_loop v = L_select" "s_pending v = []" "s_quit v = s_quit u" by blast
  with t(1,6) u(1,4) show ?case by (metis converse_rtranclp_into_rtranclp rtranclp_trans)
qed

lemma exited_ends:
  assumes "s_loop s = L_exited" and "s_disc_quit s" and "s_pending s = [] \<or> \<not> s_disc_begun s \<or> s_disc_done s"
  shows "\<exists>t. (srv_step show_addr)\<^sup>*\<^sup>* s t \<and> s_loop t = L_done"
proof (cases "s_disc_done s \<or> \<not> s_disc_begun s")
  case True
  from srv_step.finished [OF assms(1) this] show ?thesis by (intro exI [of _ "s\<lparr>s_loop := L_done\<rparr>"]) auto
next
  case False
  let ?t = "s\<lparr>s_disc_done := True\<rparr>"
  have "srv_step show_addr s ?t" by (rule srv_step.disc_stops) (use assms False in auto)
  moreover have "srv_step show_addr ?t (?t\<lparr>s_loop := L_done\<rparr>)" by (rule srv_step.finished) (use assms(1) in auto)
  ultimately show ?thesis
    by (intro exI [of _ "?t\<lparr>s_loop := L_done\<rparr>"]) (auto intro: converse_rtranclp_into_rtranclp)
qed

lemma draining_ends:
  assumes "srv_inv m s" and "s_loop s = L_draining" and "s_pending s = [] \<or> \<not> s_disc_begun s \<or> s_disc_done s"
  shows "\<exists>t. (srv_step show_addr)\<^sup>*\<^sup>* s t \<and> s_loop t = L_done"
proof -
  obtain t where t: "(srv_step show_addr)\<^sup>*\<^sup>* s t" "s_loop t = L_exited" "s_disc_quit t" "same_disc s t"
    using drain_reachable [OF assms(1,2)] by blast
  with assms(3) exited_ends [OF t(2,3)] show ?thesis by (auto simp: same_disc_def intro: rtranclp_trans)
qed

lemma select_ends:
  assumes "srv_inv m s" and "s_loop s = L_select" and "s_running s \<or> s_quit s"
  shows "\<exists>t. (srv_step show_addr)\<^sup>*\<^sup>* s t \<and> s_loop t = L_done"
proof -
  let ?s = "srv_Stop s"
  have step: "srv_step show_addr s ?s" by (rule srv_step.stop)
  have "s_loop ?s = L_select" "s_quit ?s" using assms(2,3) by (auto simp: srv_Stop_def)
  with pending_empties [OF srv_inv_step [OF step assms(1)]] obtain t
    where t: "(srv_step show_addr)\<^sup>*\<^sup>* ?s t" "srv_inv m t" "s_loop t = L_select" "s_pending t = []" "s_quit t" by blast
  have quit: "srv_step show_addr t (on_quit t)" using t(3,5) by (rule srv_step.quit)
  with draining_ends [OF srv_inv_step [OF quit t(2)]] t(4) obtain u
    where "(srv_step show_addr)\<^sup>*\<^sup>* (on_quit t) u" "s_loop u = L_done" by (auto simp: on_quit_def)
  with step t(1) quit show ?thesis by (meson converse_rtranclp_into_rtranclp rtranclp_trans)
qed

subsection \<open>Properties\<close>

text \<open>
  \<open>Stop\<close> can return from exactly the reachable states in which neither the loop is stuck in its own
  send to \<open>checkpointAddPeer\<close> nor discovery is still sending a node to a loop that has ended.
\<close>

theorem server_ends_exactly:
  assumes "srv_reachable show_addr m ps s"
  shows "(\<exists>t. (srv_step show_addr)\<^sup>*\<^sup>* s t \<and> s_loop t = L_done) \<longleftrightarrow>
    (\<nexists>n. s_loop s = L_stuck n) \<and> \<not> discovery_blocked s"
proof
  assume "\<exists>t. (srv_step show_addr)\<^sup>*\<^sup>* s t \<and> s_loop t = L_done"
  then obtain t where t: "(srv_step show_addr)\<^sup>*\<^sup>* s t" "s_loop t = L_done" by blast
  with stuck_steps [OF t(1)] discovery_blocked_steps [OF t(1)]
  show "(\<nexists>n. s_loop s = L_stuck n) \<and> \<not> discovery_blocked s" by (auto simp: discovery_blocked_def)
next
  assume free: "(\<nexists>n. s_loop s = L_stuck n) \<and> \<not> discovery_blocked s"
  have inv: "srv_inv m s" by (rule srv_inv_reachable [OF assms])
  have flags: "flags_ok s" by (rule flags_ok_reachable [OF assms])
  show "\<exists>t. (srv_step show_addr)\<^sup>*\<^sup>* s t \<and> s_loop t = L_done"
  proof (cases "s_loop s")
    case L_select
    then show ?thesis using select_ends [OF inv] flags by (simp add: flags_ok_def)
  next
    case L_draining
    then show ?thesis using draining_ends [OF inv] free by (auto simp: discovery_blocked_def)
  next
    case L_exited
    then show ?thesis using exited_ends [of s show_addr] flags free by (auto simp: flags_ok_def discovery_blocked_def)
  qed (use inv free in \<open>auto simp: srv_inv_def\<close>)
qed

text \<open>A server that has just been started can end.\<close>

lemma server_ends_exactly_witness:
  "\<exists>t. (srv_step (\<lambda>a :: string. a))\<^sup>*\<^sup>* (started 1 []) t \<and> s_loop t = L_done"
proof -
  have "srv_reachable (\<lambda>a :: string. a) 1 [] (started 1 [])" by (rule reachable_started) simp
  from server_ends_exactly [OF this] show ?thesis by (simp add: started_def discovery_blocked_def)
qed

end
