(* ===== verification/Tau_Main.thy ===== *)
theory Tau_Main
  imports Tau_Command Server_Stop
begin

text \<open>
  The process of the command: \<open>main\<close> in \<open>cmds/tau.go\<close> with the operating system's signals and the
  goroutines of the server.  The channel of the signals has no buffer and \<open>main\<close> receives from it
  once; a signal for which nobody waits there is lost.
\<close>

subsection \<open>State\<close>

text \<open>
  \<open>M_starting\<close> is before \<open>srv.Start\<close>, \<open>M_started\<close> before \<open>signal.Notify\<close>, \<open>M_notified\<close> before the
  receive, \<open>M_signalled\<close> before \<open>srv.Stop\<close>, \<open>M_stopping\<close> in it; the process has exited or been killed.
\<close>

datatype main_pc =
    M_starting | M_started | M_notified | M_receiving | M_signalled | M_stopping | M_exited | M_killed

text \<open>The signals that end a Go program which has not asked for them, and the others, which do nothing here.\<close>

datatype os_signal =
    SIGHUP | SIGINT | SIGQUIT | SIGILL | SIGTRAP | SIGABRT | SIGBUS | SIGFPE | SIGKILL | SIGSEGV | SIGTERM
  | SIGSTKFLT | SIGEMT | SIGSYS
  | Other_signal nat

definition ends_process :: "os_signal \<Rightarrow> bool" where
  "ends_process sig \<longleftrightarrow> (case sig of Other_signal n \<Rightarrow> False | _ \<Rightarrow> True)"

text \<open>The signals passed to \<open>signal.Notify\<close>.\<close>

definition asked_for :: "os_signal \<Rightarrow> bool" where
  "asked_for sig \<longleftrightarrow> sig \<in> {SIGINT, SIGTERM, SIGKILL, SIGQUIT}"

record 'a main_run =
  mr_pc :: main_pc
  mr_server :: "'a server"

definition main_start :: "go_panic + 'a main_run" where
  "main_start = bind_go main_server (\<lambda>srv. Inr \<lparr>mr_pc = M_starting, mr_server = srv\<rparr>)"

subsection \<open>Steps\<close>

text \<open>
  After \<open>Notify\<close> the runtime sends the signals asked for to the channel without waiting; \<open>SIGKILL\<close> cannot
  be asked for.  Every other signal does what it does to a Go program.
\<close>

definition on_signal :: "os_signal \<Rightarrow> main_pc \<Rightarrow> main_pc" where
  "on_signal sig pc =
     (if pc = M_exited \<or> pc = M_killed then pc
      else if asked_for sig \<and> sig \<noteq> SIGKILL \<and> pc \<noteq> M_starting \<and> pc \<noteq> M_started
      then if pc = M_receiving then M_signalled else pc
      else if ends_process sig then M_killed else pc)"

text \<open>\<open>main\<close> does not look at the error of \<open>Start\<close>.  Its goroutines end with the process.\<close>

inductive main_step :: "('a \<Rightarrow> string) \<Rightarrow> 'a main_run \<Rightarrow> 'a main_run \<Rightarrow> bool" for show_addr where
  start: "mr_pc m = M_starting \<Longrightarrow>
    main_step show_addr m (m\<lparr>mr_pc := M_started,
      mr_server := (case srv_Start (mr_server m) of Inl e \<Rightarrow> mr_server m | Inr s \<Rightarrow> s)\<rparr>)"
| notify: "mr_pc m = M_started \<Longrightarrow> main_step show_addr m (m\<lparr>mr_pc := M_notified\<rparr>)"
| receive: "mr_pc m = M_notified \<Longrightarrow> main_step show_addr m (m\<lparr>mr_pc := M_receiving\<rparr>)"
| signalled: "main_step show_addr m (m\<lparr>mr_pc := on_signal sig (mr_pc m)\<rparr>)"
| stop: "mr_pc m = M_signalled \<Longrightarrow>
    main_step show_addr m (m\<lparr>mr_pc := M_stopping, mr_server := srv_Stop (mr_server m)\<rparr>)"
| stopped: "mr_pc m = M_stopping \<Longrightarrow> s_loop (mr_server m) = L_done \<Longrightarrow>
    main_step show_addr m (m\<lparr>mr_pc := M_exited\<rparr>)"
| goroutines: "mr_pc m \<noteq> M_starting \<Longrightarrow> mr_pc m \<noteq> M_exited \<Longrightarrow> mr_pc m \<noteq> M_killed \<Longrightarrow>
    unstopped show_addr (mr_server m) s \<Longrightarrow> main_step show_addr m (m\<lparr>mr_server := s\<rparr>)"

text \<open>The states of the process, whatever signals come.\<close>

definition main_reachable :: "('a \<Rightarrow> string) \<Rightarrow> 'a main_run \<Rightarrow> bool" where
  "main_reachable show_addr m \<longleftrightarrow> (\<exists>m0. main_start = Inr m0 \<and> (main_step show_addr)\<^sup>*\<^sup>* m0 m)"

subsection \<open>The server of the process\<close>

definition stop_called :: "main_pc \<Rightarrow> bool" where
  "stop_called pc \<longleftrightarrow> pc = M_stopping \<or> pc = M_exited"

definition main_inv :: "('a \<Rightarrow> string) \<Rightarrow> 'a main_run \<Rightarrow> bool" where
  "main_inv show_addr m \<longleftrightarrow>
     (mr_pc m = M_starting \<longrightarrow> main_server = Inr (mr_server m)) \<and>
     (mr_pc m \<noteq> M_starting \<and> mr_pc m \<noteq> M_killed \<longrightarrow>
        (\<exists>ps. main_protocols = Inr ps \<and> srv_reachable show_addr main_MaxPeers ps (mr_server m))) \<and>
     (stop_called (mr_pc m) \<longrightarrow> \<not> s_running (mr_server m)) \<and>
     (mr_pc m = M_exited \<longrightarrow> s_loop (mr_server m) = L_done)"

lemma reachable_step: "srv_reachable show_addr m ps s \<Longrightarrow> srv_step show_addr s s' \<Longrightarrow> srv_reachable show_addr m ps s'"
  unfolding srv_reachable_def by (blast intro: rtranclp.rtrancl_into_rtrancl)

lemma main_server_new:
  assumes "main_server = Inr s"
  obtains ps s' where "main_protocols = Inr ps" and "s = new_server main_MaxPeers ps" and "srv_Start s = Inr s'"
    and "srv_reachable show_addr main_MaxPeers ps s'"
proof -
  obtain ps where ps: "main_protocols = Inr ps" "s = new_server main_MaxPeers ps"
    using assms by (auto simp: main_server_def bind_go_Inr_iff)
  moreover obtain s' where "srv_Start s = Inr s'" using ps(2) by (simp add: srv_Start_def new_server_def)
  ultimately show thesis using that unfolding srv_reachable_def by blast
qed

lemma srv_Stop_running: "\<not> s_running (srv_Stop s)"
  by (simp add: srv_Stop_def)

lemma main_inv_step: "main_step show_addr m m' \<Longrightarrow> main_inv show_addr m \<Longrightarrow> main_inv show_addr m'"
proof (induction rule: main_step.induct)
  case (start m)
  then have "main_server = Inr (mr_server m)" by (simp add: main_inv_def)
  then obtain ps s' where "main_protocols = Inr ps" "srv_Start (mr_server m) = Inr s'" "srv_reachable show_addr main_MaxPeers ps s'"
    by (rule main_server_new [where show_addr = show_addr])
  then show ?case by (auto simp: main_inv_def stop_called_def)
next
  case (signalled sig m)
  then show ?case by (auto simp: main_inv_def on_signal_def stop_called_def split: if_splits)
next
  case (stop m)
  then obtain ps where "main_protocols = Inr ps" "srv_reachable show_addr main_MaxPeers ps (mr_server m)"
    by (auto simp: main_inv_def)
  moreover from this(2) have "srv_reachable show_addr main_MaxPeers ps (srv_Stop (mr_server m))"
    by (rule reachable_step) (rule srv_step.stop)
  ultimately show ?case by (auto simp: main_inv_def srv_Stop_running)
next
  case (goroutines m s)
  then obtain ps where "main_protocols = Inr ps" "srv_reachable show_addr main_MaxPeers ps (mr_server m)"
    by (auto simp: main_inv_def)
  moreover from this(2) have "srv_reachable show_addr main_MaxPeers ps s"
    using goroutines.hyps(4) by (auto simp: unstopped_def intro: reachable_step)
  ultimately show ?case using goroutines by (auto simp: main_inv_def unstopped_def)
qed (auto simp: main_inv_def stop_called_def)

lemma main_inv_reachable: "main_reachable show_addr m \<Longrightarrow> main_inv show_addr m"
proof -
  assume "main_reachable show_addr m"
  then obtain m0 where start: "main_start = Inr m0" and run: "(main_step show_addr)\<^sup>*\<^sup>* m0 m"
    unfolding main_reachable_def by blast
  from run show ?thesis
  proof (induction rule: rtranclp_induct)
    case base
    have "main_server = Inr (mr_server m0) \<and> mr_pc m0 = M_starting"
      using start by (auto simp: main_start_def bind_go_Inr_iff)
    then show ?case by (simp add: main_inv_def stop_called_def)
  qed (rule main_inv_step)
qed

subsection \<open>Ending\<close>

lemma stopped_step: "srv_step show_addr s s' \<Longrightarrow> \<not> s_running s \<Longrightarrow> \<not> s_running s'"
  by (induction rule: srv_step.induct)
    (auto simp: on_conn_def on_disc_def on_checkpoint_def on_delpeer_def on_quit_def peer_stops_def
      peer_returns_def srv_Stop_def addPeerChecks_def Let_def split: option.splits)

lemma stopped_steps: "(srv_step show_addr)\<^sup>*\<^sup>* s s' \<Longrightarrow> \<not> s_running s \<Longrightarrow> (unstopped show_addr)\<^sup>*\<^sup>* s s' \<and> \<not> s_running s'"
proof (induction rule: rtranclp_induct)
  case (step y z)
  then have "unstopped show_addr y z" "\<not> s_running z" using stopped_step [OF step.hyps(2)] by (auto simp: unstopped_def)
  with step show ?case by (auto intro: rtranclp.rtrancl_into_rtrancl)
qed simp

lemma server_runs:
  assumes "(unstopped show_addr)\<^sup>*\<^sup>* s t" and "mr_server m = s" and "mr_pc m \<notin> {M_starting, M_exited, M_killed}"
  shows "(main_step show_addr)\<^sup>*\<^sup>* m (m\<lparr>mr_server := t\<rparr>)"
  using assms(1)
proof (induction rule: rtranclp_induct)
  case base
  have "m\<lparr>mr_server := s\<rparr> = m" using assms(2) by (cases m) simp
  then show ?case by simp
next
  case (step y z)
  have "main_step show_addr (m\<lparr>mr_server := y\<rparr>) (m\<lparr>mr_server := y\<rparr>\<lparr>mr_server := z\<rparr>)"
    by (rule main_step.goroutines) (use assms(3) step.hyps(2) in auto)
  with step.IH show ?case by (simp add: rtranclp.rtrancl_into_rtrancl)
qed

text \<open>The first signal that finds \<open>main\<close> waiting makes it call \<open>Stop\<close>.\<close>

lemma to_stopping:
  assumes "mr_pc m \<in> {M_started, M_notified, M_receiving, M_signalled}"
  shows "(main_step show_addr)\<^sup>*\<^sup>* m (m\<lparr>mr_pc := M_stopping, mr_server := srv_Stop (mr_server m)\<rparr>)"
proof -
  let ?at = "\<lambda>pc. m\<lparr>mr_pc := pc\<rparr>" and ?last = "m\<lparr>mr_pc := M_stopping, mr_server := srv_Stop (mr_server m)\<rparr>"
  have 4: "(main_step show_addr)\<^sup>*\<^sup>* (?at M_signalled) ?last"
    using main_step.stop [of "?at M_signalled" show_addr] by simp
  have "main_step show_addr (?at M_receiving) (?at M_signalled)"
    using main_step.signalled [of show_addr "?at M_receiving" SIGINT] by (simp add: on_signal_def asked_for_def)
  then have 3: "(main_step show_addr)\<^sup>*\<^sup>* (?at M_receiving) ?last" using 4 by (rule converse_rtranclp_into_rtranclp)
  have "main_step show_addr (?at M_notified) (?at M_receiving)"
    using main_step.receive [of "?at M_notified" show_addr] by simp
  then have 2: "(main_step show_addr)\<^sup>*\<^sup>* (?at M_notified) ?last" using 3 by (rule converse_rtranclp_into_rtranclp)
  have "main_step show_addr (?at M_started) (?at M_notified)"
    using main_step.notify [of "?at M_started" show_addr] by simp
  then have 1: "(main_step show_addr)\<^sup>*\<^sup>* (?at M_started) ?last" using 2 by (rule converse_rtranclp_into_rtranclp)
  have "?at pc = m" if "mr_pc m = pc" for pc using that by (cases m) simp
  with assms 1 2 3 4 show ?thesis by fastforce
qed

definition server_hangs :: "'a server \<Rightarrow> bool" where
  "server_hangs s \<longleftrightarrow> (\<exists>n. s_loop s = L_stuck n) \<or> discovery_blocked s"

lemma server_hangs_Stop: "server_hangs (srv_Stop s) = server_hangs s"
  by (simp add: server_hangs_def srv_Stop_def discovery_blocked_def)

lemma server_hangs_step: "srv_step show_addr s s' \<Longrightarrow> server_hangs s \<Longrightarrow> server_hangs s'"
  unfolding server_hangs_def using stuck_step discovery_blocked_step by blast

lemma hangs_not_done: "server_hangs s \<Longrightarrow> s_loop s \<noteq> L_done"
  by (auto simp: server_hangs_def discovery_blocked_def)

lemma stopping_ends:
  assumes "mr_pc m = M_stopping" and "srv_reachable show_addr b ps (mr_server m)" and "\<not> s_running (mr_server m)"
    and "\<not> server_hangs (mr_server m)"
  shows "\<exists>m'. (main_step show_addr)\<^sup>*\<^sup>* m m' \<and> mr_pc m' = M_exited"
proof -
  obtain t where t: "(srv_step show_addr)\<^sup>*\<^sup>* (mr_server m) t" "s_loop t = L_done"
    using server_ends_exactly [OF assms(2)] assms(4) by (auto simp: server_hangs_def)
  have "(main_step show_addr)\<^sup>*\<^sup>* m (m\<lparr>mr_server := t\<rparr>)"
    using stopped_steps [OF t(1) assms(3)] assms(1) by (intro server_runs) auto
  moreover have "main_step show_addr (m\<lparr>mr_server := t\<rparr>) (m\<lparr>mr_server := t\<rparr>\<lparr>mr_pc := M_exited\<rparr>)"
    by (rule main_step.stopped) (use assms(1) t(2) in simp_all)
  ultimately show ?thesis
    by (intro exI [of _ "m\<lparr>mr_server := t\<rparr>\<lparr>mr_pc := M_exited\<rparr>"]) (simp add: rtranclp.rtrancl_into_rtrancl)
qed

text \<open>A process whose server hangs, or that a signal has killed, stays so.\<close>

definition main_hangs :: "'a main_run \<Rightarrow> bool" where
  "main_hangs m \<longleftrightarrow> mr_pc m = M_killed \<or> mr_pc m \<notin> {M_starting, M_exited} \<and> server_hangs (mr_server m)"

lemma main_hangs_step: "main_step show_addr m m' \<Longrightarrow> main_hangs m \<Longrightarrow> main_hangs m'"
proof (induction rule: main_step.induct)
  case (goroutines m s)
  then show ?case by (auto simp: main_hangs_def unstopped_def intro: server_hangs_step)
qed (auto simp: main_hangs_def on_signal_def server_hangs_Stop hangs_not_done split: if_splits)

lemma main_hangs_steps: "(main_step show_addr)\<^sup>*\<^sup>* m m' \<Longrightarrow> main_hangs m \<Longrightarrow> main_hangs m'"
  by (induction rule: rtranclp_induct) (auto intro: main_hangs_step)

text \<open>Once \<open>Stop\<close> is called on a server whose loop is stuck, the process stays in it, or is killed.\<close>

definition stuck_in_Stop :: "'a node \<Rightarrow> 'a main_run \<Rightarrow> bool" where
  "stuck_in_Stop n m \<longleftrightarrow> mr_pc m = M_killed \<or> mr_pc m = M_stopping \<and> s_loop (mr_server m) = L_stuck n"

lemma stuck_in_Stop_step: "main_step show_addr m m' \<Longrightarrow> stuck_in_Stop n m \<Longrightarrow> stuck_in_Stop n m'"
proof (induction rule: main_step.induct)
  case (goroutines m s)
  then show ?case by (auto simp: stuck_in_Stop_def unstopped_def dest: stuck_step)
qed (auto simp: stuck_in_Stop_def on_signal_def)

lemma stuck_in_Stop_steps: "(main_step show_addr)\<^sup>*\<^sup>* m m' \<Longrightarrow> stuck_in_Stop n m \<Longrightarrow> stuck_in_Stop n m'"
  by (induction rule: rtranclp_induct) (auto dest: stuck_in_Stop_step)

lemma alive_ends:
  assumes inv: "main_inv show_addr m" and pc: "mr_pc m \<in> {M_started, M_notified, M_receiving, M_signalled}"
    and free: "\<not> server_hangs (mr_server m)"
  shows "\<exists>m'. (main_step show_addr)\<^sup>*\<^sup>* m m' \<and> mr_pc m' = M_exited"
proof -
  let ?m = "m\<lparr>mr_pc := M_stopping, mr_server := srv_Stop (mr_server m)\<rparr>"
  obtain ps where "srv_reachable show_addr main_MaxPeers ps (mr_server m)" using inv pc by (auto simp: main_inv_def)
  then have "srv_reachable show_addr main_MaxPeers ps (srv_Stop (mr_server m))" by (rule reachable_step) (rule srv_step.stop)
  with free obtain m' where "(main_step show_addr)\<^sup>*\<^sup>* ?m m'" "mr_pc m' = M_exited"
    using stopping_ends [of ?m show_addr main_MaxPeers ps] by (auto simp: srv_Stop_running server_hangs_Stop)
  with to_stopping [OF pc] show ?thesis by (blast intro: rtranclp_trans)
qed

lemma start_step:
  assumes "main_inv show_addr m" and "mr_pc m = M_starting"
  obtains m' where "main_step show_addr m m'" and "mr_pc m' = M_started" and "\<not> server_hangs (mr_server m')"
proof -
  obtain ps where "mr_server m = new_server main_MaxPeers ps"
    using assms main_server_new [of "mr_server m"] by (auto simp: main_inv_def)
  then have "\<not> server_hangs (case srv_Start (mr_server m) of Inl e \<Rightarrow> mr_server m | Inr s \<Rightarrow> s)"
    by (simp add: srv_Start_def setupDiscovery_def new_server_def server_hangs_def discovery_blocked_def)
  then show thesis by (intro that [OF main_step.start [OF assms(2)]]) simp_all
qed

text \<open>A run of the process in which the server hangs before a signal comes.\<close>

lemma main_start_Inr: "\<exists>m0 ps. main_start = Inr m0 \<and> m0 = \<lparr>mr_pc = M_starting, mr_server = new_server main_MaxPeers ps\<rparr>"
proof -
  obtain ps where "main_protocols = Inr ps" using command_without_tau by blast
  then show ?thesis by (auto simp: main_start_def main_server_def bind_go_Inr_iff)
qed

lemma hanging_run:
  fixes show_addr :: "'a \<Rightarrow> string"
  assumes "isP2pCircuit show_addr c" and "isP2pCircuit show_addr d" and "ci_id c \<noteq> ci_id d"
  shows "\<exists>m. main_reachable show_addr m \<and> mr_pc m = M_stopping \<and> s_loop (mr_server m) = L_stuck (node_New d) \<and>
    s_checkpoint (mr_server m) = [node_New c]"
proof -
  obtain m0 :: "'a main_run" and ps where m0: "main_start = Inr m0" "m0 = \<lparr>mr_pc = M_starting, mr_server = new_server main_MaxPeers ps\<rparr>"
    using main_start_Inr by blast
  obtain s where s: "srv_Start (new_server main_MaxPeers ps) = Inr s" "srv_step show_addr s (started main_MaxPeers ps)"
    using Start_then_begin by blast
  obtain t where t: "(unstopped show_addr)\<^sup>*\<^sup>* (started main_MaxPeers ps) t" "s_loop t = L_stuck (node_New d)"
      "s_checkpoint t = [node_New c]"
    using two_connect [OF _ assms, of main_MaxPeers ps] by (auto simp: main_MaxPeers_def)
  have "s_running s" using s(1) by (auto simp: srv_Start_def new_server_def setupDiscovery_def)
  then have "unstopped show_addr s (started main_MaxPeers ps)" by (intro unstoppedI [OF s(2)]) (simp add: started_def)
  then have run: "(unstopped show_addr)\<^sup>*\<^sup>* s t" using t(1) by (rule converse_rtranclp_into_rtranclp)
  let ?m = "\<lambda>s. \<lparr>mr_pc = M_started, mr_server = s\<rparr>" and ?n = "\<lparr>mr_pc = M_stopping, mr_server = srv_Stop t\<rparr>"
  have "main_step show_addr m0 (?m s)" using main_step.start [of m0 show_addr] m0(2) s(1) by simp
  moreover have "(main_step show_addr)\<^sup>*\<^sup>* (?m s) (?m t)" using server_runs [OF run, of "?m s"] by simp
  moreover have "(main_step show_addr)\<^sup>*\<^sup>* (?m t) ?n" using to_stopping [of "?m t" show_addr] by simp
  ultimately have "(main_step show_addr)\<^sup>*\<^sup>* m0 ?n" by (meson converse_rtranclp_into_rtranclp rtranclp_trans)
  moreover have "s_loop (srv_Stop t) = L_stuck (node_New d)" "s_checkpoint (srv_Stop t) = [node_New c]"
    using t(2,3) by (simp_all add: srv_Stop_def)
  ultimately show ?thesis using m0(1) unfolding main_reachable_def by (intro exI [of _ ?n]) auto
qed

subsection \<open>Properties\<close>

text \<open>
  C28: The command can come to the end of \<open>main\<close> from exactly the reachable states in which no
  signal has killed it and its server does not hang: a server hangs when its loop is stuck in its own
  send to \<open>checkpointAddPeer\<close>, or when discovery is still sending a node to a loop that has ended.
\<close>

theorem command_ends_exactly:
  assumes "main_reachable show_addr m"
  shows "(\<exists>m'. (main_step show_addr)\<^sup>*\<^sup>* m m' \<and> mr_pc m' = M_exited) \<longleftrightarrow>
    mr_pc m \<noteq> M_killed \<and> (mr_pc m \<in> {M_starting, M_exited} \<or>
      \<not> ((\<exists>n. s_loop (mr_server m) = L_stuck n) \<or> discovery_blocked (mr_server m)))"
proof -
  have inv: "main_inv show_addr m" by (rule main_inv_reachable [OF assms])
  have "\<exists>m'. (main_step show_addr)\<^sup>*\<^sup>* m m' \<and> mr_pc m' = M_exited" if free: "\<not> main_hangs m"
  proof (cases "mr_pc m")
    case M_starting
    obtain m' where m': "main_step show_addr m m'" "mr_pc m' = M_started" "\<not> server_hangs (mr_server m')"
      using start_step [OF inv M_starting] .
    with alive_ends [OF main_inv_step [OF m'(1) inv]] show ?thesis by (auto intro: converse_rtranclp_into_rtranclp)
  next
    case M_stopping
    with inv obtain ps where "srv_reachable show_addr main_MaxPeers ps (mr_server m)" "\<not> s_running (mr_server m)"
      by (auto simp: main_inv_def stop_called_def)
    with M_stopping free show ?thesis using stopping_ends by (auto simp: main_hangs_def)
  qed (use alive_ends [OF inv] free in \<open>auto simp: main_hangs_def\<close>)
  moreover have "mr_pc m' \<noteq> M_exited" if "main_hangs m" "(main_step show_addr)\<^sup>*\<^sup>* m m'" for m'
    using main_hangs_steps [OF that(2,1)] by (auto simp: main_hangs_def)
  ultimately show ?thesis unfolding main_hangs_def server_hangs_def by auto
qed

lemma command_ends_exactly_witness:
  "\<exists>(m :: unit main_run) m'. main_reachable (\<lambda>a. ''/p2p-circuit'') m \<and> mr_pc m = M_starting \<and>
     (main_step (\<lambda>a. ''/p2p-circuit''))\<^sup>*\<^sup>* m m' \<and> mr_pc m' = M_exited"
proof -
  obtain m :: "unit main_run" and ps where m: "main_start = Inr m" "m = \<lparr>mr_pc = M_starting, mr_server = new_server main_MaxPeers ps\<rparr>"
    using main_start_Inr by blast
  then have r: "main_reachable (\<lambda>a. ''/p2p-circuit'') m" by (auto simp: main_reachable_def)
  have pc: "mr_pc m = M_starting" using m(2) by simp
  from command_ends_exactly [OF r] pc
  have "\<exists>m'. (main_step (\<lambda>a. ''/p2p-circuit''))\<^sup>*\<^sup>* m m' \<and> mr_pc m' = M_exited" by simp
  with r pc show ?thesis by blast
qed

text \<open>
  C25: When two nodes connect in the same round of discovery the command can get into \<open>Stop\<close> for ever:
  the loop sends the second node to the checkpoint channel, which holds the first and which only the loop
  itself receives from.  From then on the loop stays in that send and \<open>main\<close> in \<open>Stop\<close>, until the process
  is killed: the signals the command has asked for are lost, so that only \<open>SIGKILL\<close> or a signal it has
  not asked for ends it.
\<close>

theorem command_unstoppable:
  assumes "isP2pCircuit show_addr c" and "isP2pCircuit show_addr d" and "ci_id c \<noteq> ci_id d"
  shows "\<exists>m. main_reachable show_addr m \<and> mr_pc m = M_stopping \<and>
    s_loop (mr_server m) = L_stuck (node_New d) \<and> s_checkpoint (mr_server m) = [node_New c] \<and>
    (\<forall>m'. (main_step show_addr)\<^sup>*\<^sup>* m m' \<longrightarrow>
       mr_pc m' = M_killed \<or> mr_pc m' = M_stopping \<and> s_loop (mr_server m') = L_stuck (node_New d)) \<and>
    (\<forall>sig. on_signal sig (mr_pc m) = (if ends_process sig \<and> (sig = SIGKILL \<or> \<not> asked_for sig) then M_killed else M_stopping))"
proof -
  obtain m where m: "main_reachable show_addr m" "mr_pc m = M_stopping" "s_loop (mr_server m) = L_stuck (node_New d)"
      "s_checkpoint (mr_server m) = [node_New c]"
    using hanging_run [OF assms] by blast
  then have "stuck_in_Stop (node_New d) m" by (simp add: stuck_in_Stop_def)
  then have "mr_pc m' = M_killed \<or> mr_pc m' = M_stopping \<and> s_loop (mr_server m') = L_stuck (node_New d)"
    if "(main_step show_addr)\<^sup>*\<^sup>* m m'" for m'
    using stuck_in_Stop_steps [OF that] by (simp add: stuck_in_Stop_def)
  with m show ?thesis by (intro exI [of _ m]) (auto simp: on_signal_def)
qed

lemma command_unstoppable_witness:
  "\<exists>(m :: unit main_run). main_reachable (\<lambda>a. ''/p2p-circuit'') m \<and> mr_pc m = M_stopping \<and>
    map n_id (s_checkpoint (mr_server m)) = [''a''] \<and> on_signal SIGTERM (mr_pc m) = M_stopping \<and>
    (\<forall>m'. (main_step (\<lambda>a. ''/p2p-circuit''))\<^sup>*\<^sup>* m m' \<longrightarrow> mr_pc m' \<noteq> M_exited)"
proof -
  let ?c = "\<lparr>ci_id = ''a'', ci_addr = (), ci_streams = []\<rparr>" and ?d = "\<lparr>ci_id = ''b'', ci_addr = (), ci_streams = []\<rparr>"
  let ?show = "\<lambda>a :: unit. ''/p2p-circuit''"
  have "isP2pCircuit ?show ?c" "isP2pCircuit ?show ?d" "ci_id ?c \<noteq> ci_id ?d"
    by (simp_all add: isP2pCircuit_def P2pCircuit_def has_prefix_def)
  from command_unstoppable [OF this] obtain m where m: "main_reachable ?show m" "mr_pc m = M_stopping"
      "s_checkpoint (mr_server m) = [node_New ?c]"
      "\<forall>m'. (main_step ?show)\<^sup>*\<^sup>* m m' \<longrightarrow> mr_pc m' = M_killed \<or> mr_pc m' = M_stopping \<and> s_loop (mr_server m') = L_stuck (node_New ?d)"
      "\<forall>sig. on_signal sig (mr_pc m) = (if ends_process sig \<and> (sig = SIGKILL \<or> \<not> asked_for sig) then M_killed else M_stopping)"
    by blast
  have "mr_pc m' \<noteq> M_exited" if "(main_step ?show)\<^sup>*\<^sup>* m m'" for m'
    using m(4) [rule_format, OF that] by auto
  with m(1-3) m(5) [rule_format, of SIGTERM] show ?thesis
    by (intro exI [of _ m]) (simp add: node_New_def asked_for_def)
qed

end
