(* ===== verification/Server_Stale.thy ===== *)
theory Server_Stale
  imports Server
begin

text \<open>
  A node that disconnects while it waits in \<open>checkpointAddPeer\<close>.  The run loop of \<open>p2p/server.go\<close> looks
  for it in the peers map, does not find it and drops the notification; then it takes the node from
  the channel and makes it a peer, which nobody tells that its node has gone.
\<close>

subsection \<open>Runs in which a node is left alone\<close>

text \<open>The loop of a peer's \<open>run\<close> is left for a reason of its own, not because the server disconnects it.\<close>

definition peer_leaves :: "'a server \<Rightarrow> 'a server \<Rightarrow> bool" where
  "peer_leaves s s' \<longleftrightarrow>
     (\<exists>i p requested err. gm_get (s_live s) i = Some (p, P_serving) \<and> s' = peer_stops i p requested err s)"

text \<open>Nobody calls \<open>Stop\<close>, the node \<open>k\<close> does not connect again, and no peer fails.\<close>

definition left_alone :: "('a \<Rightarrow> string) \<Rightarrow> string \<Rightarrow> 'a server \<Rightarrow> 'a server \<Rightarrow> bool" where
  "left_alone show_addr k s s' \<longleftrightarrow>
     unstopped show_addr s s' \<and> gm_get (db_nodes (s_db s')) k = None \<and> \<not> peer_leaves s s'"

definition names_node :: "string \<Rightarrow> 'a notif \<Rightarrow> bool" where
  "names_node k n \<longleftrightarrow> (\<exists>nd. n = Disc_node nd \<and> n_id nd = k)"

text \<open>The node \<open>k\<close> has gone, and its peer \<open>i\<close> serves.\<close>

definition stale :: "int \<Rightarrow> string \<Rightarrow> nat \<Rightarrow> 'a p2p_peer \<Rightarrow> 'a server \<Rightarrow> bool" where
  "stale m k i p s \<longleftrightarrow>
     srv_inv m s \<and> s_running s \<and> \<not> s_quit s \<and> s_loop s \<noteq> L_draining \<and>
     gm_get (s_peers s) k = Some i \<and> gm_get (s_live s) i = Some (p, P_serving) \<and>
     gm_get (db_nodes (s_db s)) k = None \<and> list_all (\<lambda>n. \<not> names_node k n) (s_pending s)"

lemma staleD:
  assumes "stale m k i p s"
  shows "srv_inv m s" and "tables_ok s" and "gm_ok (s_live s)" and "peer_ID p = k"
    and "gm_get (s_peers s) k = Some i" and "gm_get (s_live s) i = Some (p, P_serving)"
proof -
  show inv: "srv_inv m s" and peers: "gm_get (s_peers s) k = Some i" and live: "gm_get (s_live s) i = Some (p, P_serving)"
    using assms by (simp_all add: stale_def)
  show ok: "tables_ok s" using inv by (simp add: srv_inv_def)
  then show "gm_ok (s_live s)" by (rule tables_ok_maps)
  show "peer_ID p = k" using tables_ok_peer [OF ok peers] live by auto
qed

text \<open>Every step of such a run keeps the peer.\<close>

lemma stale_on_disc:
  assumes st: "stale m k i p s" and "n_id n \<noteq> k"
  shows "gm_get (s_live (on_disc n (s\<lparr>s_pending := rest\<rparr>))) i = Some (p, P_serving)"
proof (cases "gm_get (s_peers s) (n_id n)")
  case (Some j)
  then have "j \<noteq> i" using tables_ok_peer [OF staleD(2) [OF st] Some] staleD(4,6) [OF st] assms(2) by auto
  then show ?thesis
    using Some staleD(6) [OF st] by (auto simp: on_disc_def tell_peer_def map_simps split: option.split peer_phase.split)
qed (use staleD(6) [OF st] in \<open>simp add: on_disc_def\<close>)

lemma stale_on_delpeer:
  assumes st: "stale m k i p s" and other: "gm_get (s_live s) j = Some (q, P_leaving requested err)"
  shows "gm_get (s_live (on_delpeer j q s)) i = Some (p, P_serving)" and "gm_get (s_peers (on_delpeer j q s)) k = Some i"
proof -
  have ne: "j \<noteq> i" using staleD(6) [OF st] other by auto
  then have "peer_ID q \<noteq> k"
    using tables_ok_live(1) [OF staleD(2) [OF st] other] staleD(5) [OF st] by auto
  with ne staleD(5,6) [OF st] show "gm_get (s_live (on_delpeer j q s)) i = Some (p, P_serving)"
    "gm_get (s_peers (on_delpeer j q s)) k = Some i"
    by (simp_all add: on_delpeer_def map_simps)
qed

lemma stale_on_checkpoint:
  assumes st: "stale m k i p s" and ch: "s_checkpoint s = n # rest"
  shows "gm_get (s_live (on_checkpoint n (s\<lparr>s_checkpoint := rest\<rparr>))) i = Some (p, P_serving)"
    and "gm_get (s_peers (on_checkpoint n (s\<lparr>s_checkpoint := rest\<rparr>))) k = Some i"
proof -
  have "n_id n \<noteq> k" using staleD(1,5) [OF st] ch by (auto simp: srv_inv_def)
  moreover have "i \<noteq> s_next s" using tables_ok_live(2) [OF staleD(2,6) [OF st]] by simp
  ultimately show "gm_get (s_live (on_checkpoint n (s\<lparr>s_checkpoint := rest\<rparr>))) i = Some (p, P_serving)"
    "gm_get (s_peers (on_checkpoint n (s\<lparr>s_checkpoint := rest\<rparr>))) k = Some i"
    using staleD(5,6) [OF st] by (auto simp: on_checkpoint_def addPeerChecks_def Let_def map_simps split: option.split)
qed

lemma stale_tick:
  assumes st: "stale m k i p s" and tick: "discover_tick show_addr self conns (s_db s) = (db', disc, conn)"
  shows "list_all (\<lambda>n. \<not> names_node k n) (map Disc_node disc @ map Conn_node conn)"
proof -
  have "db_ok (s_db s)" using staleD(1) [OF st] by (simp add: srv_inv_def)
  then have "tick_good (s_db s) (db', disc, conn)" using tick_good_tick [of "s_db s" show_addr self conns] tick by simp
  then have "node_ids disc \<subseteq> gm_keys (db_nodes (s_db s))" by (simp add: tick_good_def)
  moreover have "k \<notin> gm_keys (db_nodes (s_db s))" using st by (simp add: stale_def gm_keys_get)
  ultimately show ?thesis by (auto simp: names_node_def node_ids_def list_all_iff)
qed

lemma stale_step:
  assumes "left_alone show_addr k s s'" and st: "stale m k i p s"
  shows "stale m k i p s'"
proof -
  have step: "srv_step show_addr s s'" and run: "s_running s'" and db: "gm_get (db_nodes (s_db s')) k = None"
    and stays: "\<not> peer_leaves s s'"
    using assms by (auto simp: left_alone_def unstopped_def stale_def)
  have inv: "srv_inv m s'" by (rule srv_inv_step [OF step staleD(1) [OF st]])
  have "\<not> s_quit s' \<and> s_loop s' \<noteq> L_draining \<and> gm_get (s_peers s') k = Some i \<and>
      gm_get (s_live s') i = Some (p, P_serving) \<and> list_all (\<lambda>n. \<not> names_node k n) (s_pending s')"
    using step
  proof cases
    case (tick self conns db' disc conn)
    with st stale_tick [OF st tick(5)] show ?thesis by (simp add: stale_def)
  next
    case (conn n rest)
    with st show ?thesis by (auto simp: stale_def on_conn_def Let_def)
  next
    case (disc n rest)
    then have "n_id n \<noteq> k" using st by (auto simp: stale_def names_node_def)
    from stale_on_disc [OF st this, of rest] disc st show ?thesis
      by (auto simp: stale_def on_disc_def split: option.splits)
  next
    case (checkpoint n rest)
    with stale_on_checkpoint [OF st checkpoint(3)] st show ?thesis
      by (auto simp: stale_def on_checkpoint_def addPeerChecks_def Let_def split: option.splits)
  next
    case (loop_ends j q requested err)
    with stays show ?thesis by (auto simp: peer_leaves_def)
  next
    case (run_ends j q requested err)
    then have "j \<noteq> i" using staleD(6) [OF st] by auto
    with run_ends st show ?thesis by (simp add: stale_def peer_returns_def map_simps)
  next
    case (delpeer j q requested err)
    with stale_on_delpeer [OF st delpeer(3)] st show ?thesis by (simp add: stale_def on_delpeer_def)
  next
    case stop
    with run st show ?thesis by (simp add: stale_def srv_Stop_def)
  qed (use st in \<open>auto simp: stale_def\<close>)
  with inv run db show ?thesis by (simp add: stale_def)
qed

lemma stale_steps: "(left_alone show_addr k)\<^sup>*\<^sup>* s t \<Longrightarrow> stale m k i p s \<Longrightarrow> stale m k i p t"
  by (induction rule: rtranclp_induct) (auto intro: stale_step)


text \<open>A node connects, gets into the channel, and disconnects before the loop takes it from there.\<close>

lemma gone_in_checkpoint:
  assumes "0 < m" and "isP2pCircuit show_addr c"
  shows "\<exists>s h. srv_reachable show_addr m ps s \<and> s_loop s = L_select \<and> s_running s \<and> \<not> s_quit s \<and>
    s_checkpoint s = [node_New c] \<and> s_pending s = [Disc_node (node_New c)] \<and> s_peers s = [] \<and>
    s_home s = Some h \<and> db_nodes (s_db s) = []"
proof -
  let ?n = "node_New c"
  let ?a = "(started m ps)\<lparr>s_db := (NewDB 0)\<lparr>db_home := Some (NewNode '''' None None),
      db_nodes := map (\<lambda>c. (ci_id c, node_New c)) [c]\<rparr>,
    s_pending := map Conn_node (map node_New [c])\<rparr>"
  let ?b = "on_conn ?n (?a\<lparr>s_pending := []\<rparr>)"
  let ?db = "(s_db ?b)\<lparr>db_nodes := []\<rparr>"
  let ?c = "?b\<lparr>s_db := ?db, s_pending := [Disc_node ?n]\<rparr>"
  have "srv_step show_addr (started m ps) ?a"
    by (rule first_tick) (use assms in auto)
  moreover have "srv_step show_addr ?a ?b"
    by (rule srv_step.conn) (simp_all add: started_def)
  moreover have b: "s_loop ?b = L_select" "s_pending ?b = []" "s_checkpoint ?b = [?n]" "s_peers ?b = []" "s_running ?b" "\<not> s_quit ?b"
      "s_disc_begun ?b" "\<not> s_disc_done ?b" "db_nodes (s_db ?b) = [(ci_id c, ?n)]" "db_home (s_db ?b) = Some (NewNode '''' None None)"
      "s_home ?b = Some (NewNode '''' None None)"
    using assms(1) by (simp_all add: on_conn_def started_def new_server_def db_Home_def checkpoint_cap_def Let_def)
  have "discover_tick show_addr None [] (s_db ?b) = (?db, [?n], [])"
    using b(9,10) by (simp add: discover_tick_def db_Home_def db_Size_def gm_len_def MakeNodesMap_def
        Choose_def missing_in_def db_Replace_def)
  then have "srv_step show_addr ?b ?c"
    using srv_step.tick [OF b(7,8,2), of show_addr None "[]" ?db "[?n]" "[]"] by simp
  ultimately have "srv_reachable show_addr m ps ?c"
    by (intro reachable_started) (meson r_into_rtranclp rtranclp.rtrancl_into_rtrancl)
  with b show ?thesis by (intro exI [of _ ?c] exI [of _ "NewNode '''' None None"]) simp
qed

text \<open>The loop takes both, the notification first.\<close>

lemma gone_then_peer:
  assumes reach: "srv_reachable show_addr m ps s" and s: "s_loop s = L_select" "s_running s" "\<not> s_quit s"
      "s_checkpoint s = [n]" "s_pending s = [Disc_node n]" "s_peers s = []" "s_home s = Some h" "db_nodes (s_db s) = []"
  shows "\<exists>s' i p. (unstopped show_addr)\<^sup>*\<^sup>* s s' \<and> s_pending s' = [] \<and> s_checkpoint s' = [] \<and> stale m (n_id n) i p s'"
proof -
  define d where "d = s\<lparr>s_pending := []\<rparr>"
  define e where "e = on_checkpoint n (d\<lparr>s_checkpoint := []\<rparr>)"
  have "srv_step show_addr s (on_disc n (s\<lparr>s_pending := []\<rparr>))" by (rule srv_step.disc) (use s in simp_all)
  then have "unstopped show_addr s d" using s(6) by (intro unstoppedI) (simp_all add: on_disc_def d_def)
  moreover have "srv_step show_addr d e" unfolding e_def by (rule srv_step.checkpoint) (use s in \<open>simp_all add: d_def\<close>)
  then have "unstopped show_addr d e"
    by (rule unstoppedI) (simp add: e_def d_def s on_checkpoint_def addPeerChecks_def Let_def)
  ultimately have steps: "(unstopped show_addr)\<^sup>*\<^sup>* s e" by (meson r_into_rtranclp rtranclp.rtrancl_into_rtrancl)
  have "srv_inv m e" using srv_inv_steps srv_inv_reachable [OF reach] unstopped_steps [OF steps] by blast
  then have "stale m (n_id n) (s_next s) (newPeer n (n_id h) (s_Protocols s)) e"
    by (simp add: stale_def) (simp add: e_def d_def s on_checkpoint_def addPeerChecks_def Let_def map_simps)
  moreover have "s_pending e = []" "s_checkpoint e = []"
    by (simp_all add: e_def d_def s on_checkpoint_def addPeerChecks_def Let_def)
  ultimately show ?thesis using steps by blast
qed

subsection \<open>Properties\<close>

text \<open>
  C27: A disconnect notification for a node that waits in \<open>checkpointAddPeer\<close> is lost: in some run the
  loop receives it while the node is in the channel, the node becomes a peer afterwards, and
  when no notification is on its way, in the channel or due from the database, the peer serves;
  it goes on to serve in every run in which \<open>Stop\<close> is not called, the node does not connect
  again and no peer fails.
\<close>

theorem server_stale_peer:
  assumes "0 < m" and "isP2pCircuit show_addr c"
  shows "\<exists>s s' i p. srv_reachable show_addr m ps s \<and> s_loop s = L_select \<and> s_checkpoint s = [node_New c] \<and>
    s_pending s = [Disc_node (node_New c)] \<and> gm_get (s_peers s) (ci_id c) = None \<and>
    (unstopped show_addr)\<^sup>*\<^sup>* s s' \<and> s_pending s' = [] \<and> s_checkpoint s' = [] \<and> gm_get (db_nodes (s_db s')) (ci_id c) = None \<and>
    (\<forall>t. (left_alone show_addr (ci_id c))\<^sup>*\<^sup>* s' t \<longrightarrow>
       gm_get (s_peers t) (ci_id c) = Some i \<and> gm_get (s_live t) i = Some (p, P_serving))"
proof -
  obtain s h where reach: "srv_reachable show_addr m ps s" and s: "s_loop s = L_select" "s_running s" "\<not> s_quit s"
      "s_checkpoint s = [node_New c]" "s_pending s = [Disc_node (node_New c)]" "s_peers s = []" "s_home s = Some h"
      "db_nodes (s_db s) = []"
    using gone_in_checkpoint [OF assms] by blast
  obtain s' i p where s': "(unstopped show_addr)\<^sup>*\<^sup>* s s'" "s_pending s' = []" "s_checkpoint s' = []" "stale m (ci_id c) i p s'"
    using gone_then_peer [OF reach s] by (auto simp: node_New_def)
  have "gm_get (s_peers t) (ci_id c) = Some i \<and> gm_get (s_live t) i = Some (p, P_serving)"
    if "(left_alone show_addr (ci_id c))\<^sup>*\<^sup>* s' t" for t
    using stale_steps [OF that s'(4)] by (simp add: stale_def)
  moreover have "gm_get (db_nodes (s_db s')) (ci_id c) = None" using s'(4) by (simp add: stale_def)
  moreover have "gm_get (s_peers s) (ci_id c) = None" using s(6) by simp
  ultimately show ?thesis using reach s(1,4,5) s'(1-3) by blast
qed

lemma server_stale_peer_witness:
  "\<exists>s s' i p. srv_reachable (\<lambda>a :: unit. ''/p2p-circuit'') 10 [] s \<and> n_id (hd (s_checkpoint s)) = ''a'' \<and> length (s_pending s) = 1 \<and>
    (unstopped (\<lambda>a. ''/p2p-circuit''))\<^sup>*\<^sup>* s s' \<and> s_pending s' = [] \<and> gm_get (db_nodes (s_db s')) ''a'' = None \<and>
    gm_get (s_peers s') ''a'' = Some i \<and> gm_get (s_live s') i = Some (p, P_serving)"
proof -
  let ?c = "\<lparr>ci_id = ''a'', ci_addr = (), ci_streams = []\<rparr>" and ?show = "\<lambda>a :: unit. ''/p2p-circuit''"
  have "isP2pCircuit ?show ?c" by (simp add: isP2pCircuit_def P2pCircuit_def has_prefix_def)
  from server_stale_peer [OF _ this, of 10 "[]"] obtain s s' i p where s: "srv_reachable ?show 10 [] s"
      "s_checkpoint s = [node_New ?c]" "s_pending s = [Disc_node (node_New ?c)]" "(unstopped ?show)\<^sup>*\<^sup>* s s'" "s_pending s' = []"
      "gm_get (db_nodes (s_db s')) ''a'' = None"
      "\<forall>t. (left_alone ?show ''a'')\<^sup>*\<^sup>* s' t \<longrightarrow> gm_get (s_peers t) ''a'' = Some i \<and> gm_get (s_live t) i = Some (p, P_serving)"
    by auto
  then have "gm_get (s_peers s') ''a'' = Some i \<and> gm_get (s_live s') i = Some (p, P_serving)" by blast
  with s(1-6) show ?thesis
    by (intro exI [of _ s] exI [of _ s'] exI [of _ i] exI [of _ p]) (simp add: node_New_def)
qed

end
