(* ===== verification/Server_Discovery.thy ===== *)
theory Server_Discovery
  imports Server
begin

text \<open>
  The server and discovery together: the server's view of discovery, four flags and two fields of its
  record, is a simulation of the goroutine of \<open>Discover_Run\<close>, and the peers of the server are nodes that
  discovery has sent.
\<close>

text \<open>
  The server calls \<open>Start\<close> once when it starts and \<open>Stop\<close> once, when its loop has ended.
\<close>

definition disc_sees :: "'a server \<Rightarrow> 'a discover \<Rightarrow> bool" where
  "disc_sees s d \<longleftrightarrow>
     d_db d = s_db s \<and> d_pending d = s_pending s \<and>
     d_loop d = (if s_disc_done s then D_ended else if s_disc_begun s then D_running else D_idle) \<and>
     d_starters d = (if s_disc_begun s then 0 else 1) \<and>
     d_quit d = (if s_disc_quit s \<and> \<not> s_disc_done s then 1 else 0) \<and>
     d_stoppers d = (if s_loop s = L_done then [St_returned] else if s_disc_quit s then [St_waiting] else []) \<and>
     (s_disc_done s \<longrightarrow> s_disc_begun s \<and> s_disc_quit s) \<and>
     s_disc_quit s = (s_loop s = L_exited \<or> s_loop s = L_done)"

text \<open>Whoever is a peer or about to become one has been sent as connected.\<close>

definition announced_by :: "'a notif list \<Rightarrow> 'a server \<Rightarrow> bool" where
  "announced_by ns s \<longleftrightarrow>
     (\<forall>k\<in>gm_keys (s_peers s). \<exists>n. Conn_node n \<in> set ns \<and> n_id n = k) \<and>
     (\<forall>n\<in>set (s_checkpoint s). Conn_node n \<in> set ns)"

lemma announced_by_mono: "announced_by ns s \<Longrightarrow> set ns \<subseteq> set ms \<Longrightarrow> announced_by ms s"
  unfolding announced_by_def by blast

lemma announced_by_less:
  "announced_by ns s \<Longrightarrow> gm_keys (s_peers s') \<subseteq> gm_keys (s_peers s) \<Longrightarrow> set (s_checkpoint s') \<subseteq> set (s_checkpoint s) \<Longrightarrow>
   announced_by ns s'"
  unfolding announced_by_def by blast

text \<open>Steps that discovery does not see.\<close>

lemma disc_sees_same:
  assumes "disc_sees s d" and "s_db s' = s_db s" "s_pending s' = s_pending s" "s_disc_done s' = s_disc_done s"
    "s_disc_begun s' = s_disc_begun s" "s_disc_quit s' = s_disc_quit s"
    and "s_loop s' = s_loop s \<or> (s_loop s \<notin> {L_exited, L_done} \<and> s_loop s' \<notin> {L_exited, L_done})"
  shows "disc_sees s' d"
  using assms by (auto simp: disc_sees_def)

lemma on_conn_fields:
  "s_db (on_conn n s) = s_db s" "s_pending (on_conn n s) = s_pending s" "s_disc_done (on_conn n s) = s_disc_done s"
  "s_disc_begun (on_conn n s) = s_disc_begun s" "s_disc_quit (on_conn n s) = s_disc_quit s" "s_peers (on_conn n s) = s_peers s"
  "s_loop (on_conn n s) \<in> {s_loop s, L_stuck n}" "set (s_checkpoint (on_conn n s)) \<subseteq> insert n (set (s_checkpoint s))"
  by (auto simp: on_conn_def Let_def)

lemma on_checkpoint_fields:
  "s_db (on_checkpoint n s) = s_db s" "s_pending (on_checkpoint n s) = s_pending s" "s_disc_done (on_checkpoint n s) = s_disc_done s"
  "s_disc_begun (on_checkpoint n s) = s_disc_begun s" "s_disc_quit (on_checkpoint n s) = s_disc_quit s"
  "s_checkpoint (on_checkpoint n s) = s_checkpoint s" "gm_keys (s_peers (on_checkpoint n s)) \<subseteq> insert (n_id n) (gm_keys (s_peers s))"
  "s_loop (on_checkpoint n s) \<in> {s_loop s, L_panicked Nil_dereference}"
  by (auto simp: on_checkpoint_def addPeerChecks_def Let_def map_simps split: option.split)

lemma disc_sees_receive:
  assumes sees: "disc_sees s d" and pend: "s_pending s = n # rest" and inv: "disc_inv db d"
    and fields: "s_db s' = s_db s" "s_pending s' = rest" "s_disc_done s' = s_disc_done s"
      "s_disc_begun s' = s_disc_begun s" "s_disc_quit s' = s_disc_quit s"
    and loop: "s_loop s = L_select" "s_loop s' \<notin> {L_exited, L_done}"
  shows "disc_step show_addr d (d\<lparr>d_pending := rest, d_sent := d_sent d @ [n]\<rparr>)"
    and "disc_sees s' (d\<lparr>d_pending := rest, d_sent := d_sent d @ [n]\<rparr>)"
proof -
  have pend': "d_pending d = n # rest" using sees pend by (simp add: disc_sees_def)
  with inv have "d_loop d = D_running" by (auto simp: disc_inv_def)
  then show "disc_step show_addr d (d\<lparr>d_pending := rest, d_sent := d_sent d @ [n]\<rparr>)"
    using pend' by (rule disc_step.received)
  show "disc_sees s' (d\<lparr>d_pending := rest, d_sent := d_sent d @ [n]\<rparr>)"
    using sees fields loop by (auto simp: disc_sees_def)
qed

lemma sim_step:
  assumes step: "srv_step show_addr s s'" and sees: "disc_sees s d" and ann: "announced_by (d_sent d) s"
    and inv: "disc_inv db d"
  shows "\<exists>d'. (disc_step show_addr)\<^sup>*\<^sup>* d d' \<and> disc_sees s' d' \<and> announced_by (d_sent d') s'"
proof -
  have quiet: ?thesis if "disc_sees s' d" "announced_by (d_sent d) s'" using that by blast
  have one: ?thesis if "disc_step show_addr d d'" "disc_sees s' d'" "announced_by (d_sent d') s'" for d'
    using that by blast
  show ?thesis using step
  proof cases
    case (disc_begins)
    have "disc_step show_addr d (d\<lparr>d_starters := d_starters d - 1, d_loop := D_running\<rparr>)"
      by (rule disc_step.enter_once) (use sees disc_begins in \<open>simp_all add: disc_sees_def\<close>)
    then show ?thesis
      by (rule one) (use sees ann disc_begins in \<open>auto simp: disc_sees_def announced_by_def\<close>)
  next
    case (tick self conns db' disc conn)
    have "disc_step show_addr d (d\<lparr>d_db := db', d_pending := round_notifs disc conn\<rparr>)"
      by (rule disc_step.round) (use sees tick in \<open>simp_all add: disc_sees_def\<close>)
    then show ?thesis
      by (rule one) (use sees ann tick in \<open>auto simp: disc_sees_def announced_by_def round_notifs_def\<close>)
  next
    case (disc_stops)
    have "disc_step show_addr d (d\<lparr>d_loop := D_ended, d_quit := d_quit d - 1\<rparr>)"
      by (rule disc_step.take_quit) (use sees disc_stops in \<open>simp_all add: disc_sees_def\<close>)
    then show ?thesis
      by (rule one) (use sees ann disc_stops in \<open>auto simp: disc_sees_def announced_by_def\<close>)
  next
    case (conn n rest)
    let ?t = "s\<lparr>s_pending := rest\<rparr>"
    have fields: "s_db s' = s_db s" "s_pending s' = rest" "s_disc_done s' = s_disc_done s"
      "s_disc_begun s' = s_disc_begun s" "s_disc_quit s' = s_disc_quit s" "s_loop s' \<notin> {L_exited, L_done}"
      "s_peers s' = s_peers s" "set (s_checkpoint s') \<subseteq> insert n (set (s_checkpoint s))"
      using conn(2) on_conn_fields [of n ?t] unfolding conn(1) by auto
    note received = disc_sees_receive [OF sees conn(3) inv fields(1-5) conn(2) fields(6)]
    show ?thesis
      by (rule one [OF received]) (use ann fields(7,8) in \<open>auto simp: announced_by_def\<close>)
  next
    case (disc n rest)
    have fields: "s_db s' = s_db s" "s_pending s' = rest" "s_disc_done s' = s_disc_done s"
      "s_disc_begun s' = s_disc_begun s" "s_disc_quit s' = s_disc_quit s" "s_loop s' \<notin> {L_exited, L_done}"
      "s_peers s' = s_peers s" "s_checkpoint s' = s_checkpoint s"
      using disc(2) unfolding disc(1) by (auto simp: on_disc_def split: option.splits)
    note received = disc_sees_receive [OF sees disc(3) inv fields(1-5) disc(2) fields(6)]
    show ?thesis
      by (rule one [OF received]) (use ann fields(7,8) in \<open>auto simp: announced_by_def\<close>)
  next
    case (checkpoint n rest)
    let ?t = "s\<lparr>s_checkpoint := rest\<rparr>"
    note fields = on_checkpoint_fields [of n ?t]
    show ?thesis
    proof (rule quiet)
      show "disc_sees s' d"
        by (rule disc_sees_same [OF sees]) (use fields checkpoint(2) in \<open>auto simp: checkpoint(1)\<close>)
      show "announced_by (d_sent d) s'"
        unfolding announced_by_def
      proof (intro conjI ballI)
        fix k assume "k \<in> gm_keys (s_peers s')"
        then have "k \<in> insert (n_id n) (gm_keys (s_peers s))" using fields(7) by (auto simp: checkpoint(1))
        then show "\<exists>n. Conn_node n \<in> set (d_sent d) \<and> n_id n = k"
          using ann checkpoint(3) by (auto simp: announced_by_def)
      next
        fix k assume "k \<in> set (s_checkpoint s')"
        then have "k \<in> set (s_checkpoint s)" using fields(6) checkpoint(3) by (simp add: checkpoint(1))
        then show "Conn_node k \<in> set (d_sent d)" using ann by (simp add: announced_by_def)
      qed
    qed
  next
    case (drained)
    let ?d1 = "d\<lparr>d_stoppers := d_stoppers d @ [St_sending]\<rparr>"
    let ?d2 = "?d1\<lparr>d_quit := Suc (d_quit ?d1), d_stoppers := (d_stoppers ?d1)[0 := St_waiting]\<rparr>"
    have d: "d_stoppers d = []" "d_quit d = 0" "\<not> s_disc_done s" using sees drained by (auto simp: disc_sees_def)
    have "disc_step show_addr d ?d1" by (rule disc_step.call_stop)
    moreover have "disc_step show_addr ?d1 ?d2"
      by (rule disc_step.send_quit) (use d in \<open>simp_all add: quit_cap_def\<close>)
    ultimately have "(disc_step show_addr)\<^sup>*\<^sup>* d ?d2" by (meson converse_rtranclp_into_rtranclp r_into_rtranclp)
    moreover have "disc_sees s' ?d2" using sees drained d by (auto simp: disc_sees_def)
    moreover have "announced_by (d_sent ?d2) s'" using ann drained by (auto simp: announced_by_def)
    ultimately show ?thesis by blast
  next
    case (finished)
    have d: "d_stoppers d = [St_waiting]" "s_disc_quit s" using sees finished by (auto simp: disc_sees_def)
    have "disc_step show_addr d (d\<lparr>d_stoppers := (d_stoppers d)[0 := St_returned]\<rparr>)"
      by (rule disc_step.stop_returns) (use sees finished d in \<open>auto simp: disc_sees_def d_wg_def\<close>)
    then show ?thesis
      by (rule one) (use sees ann finished d in \<open>auto simp: disc_sees_def announced_by_def\<close>)
  next
    case (stop)
    show ?thesis
      by (rule quiet; rule disc_sees_same [OF sees] announced_by_less [OF ann]) (auto simp: stop srv_Stop_def)
  next
    case (quit)
    show ?thesis
      by (rule quiet; rule disc_sees_same [OF sees] announced_by_less [OF ann]) (auto simp: quit on_quit_def)
  next
    case (loop_ends i p requested err)
    show ?thesis
      by (rule quiet; rule disc_sees_same [OF sees] announced_by_less [OF ann]) (auto simp: loop_ends peer_stops_def)
  next
    case (run_ends i p requested err)
    show ?thesis
      by (rule quiet; rule disc_sees_same [OF sees] announced_by_less [OF ann]) (auto simp: run_ends peer_returns_def)
  next
    case (delpeer i p requested err)
    show ?thesis
      by (rule quiet; rule disc_sees_same [OF sees] announced_by_less [OF ann]) (auto simp: delpeer on_delpeer_def map_simps)
  next
    case (drain i p requested err)
    show ?thesis
      by (rule quiet; rule disc_sees_same [OF sees] announced_by_less [OF ann]) (auto simp: drain on_delpeer_def map_simps)
  qed
qed

lemma sim_start:
  assumes "srv_Start (new_server m ps) = Inr s"
  shows "\<exists>d. disc_reachable show_addr (NewDB 0) d \<and> disc_sees s d \<and> announced_by (d_sent d) s"
proof -
  obtain d0 where new: "disc_New (Some (NewDB 0 :: 'a node_db)) = Inr d0" by (simp add: disc_New_def)
  have "disc_reachable show_addr (NewDB 0) (disc_Start d0)"
    unfolding disc_reachable_def using new disc_step.call_start [of show_addr d0] by blast
  moreover have "disc_sees s (disc_Start d0)" "announced_by (d_sent (disc_Start d0)) s"
    using assms new by (auto simp: srv_Start_def setupDiscovery_def new_server_def disc_New_def disc_Start_def disc_sees_def announced_by_def)
  ultimately show ?thesis by blast
qed

lemma NewDB_ok: "db_ok (NewDB m)"
  by (simp add: db_ok_def NewDB_def)

lemma sim_reachable:
  assumes "srv_reachable show_addr m ps s"
  shows "\<exists>d. disc_reachable show_addr (NewDB 0) d \<and> disc_sees s d \<and> announced_by (d_sent d) s"
proof -
  obtain s0 where start: "srv_Start (new_server m ps) = Inr s0" and run: "(srv_step show_addr)\<^sup>*\<^sup>* s0 s"
    using assms unfolding srv_reachable_def by blast
  from run show ?thesis
  proof (induction rule: rtranclp_induct)
    case base
    show ?case by (rule sim_start [OF start])
  next
    case (step t u)
    then obtain d where d: "disc_reachable show_addr (NewDB 0) d" "disc_sees t d" "announced_by (d_sent d) t" by blast
    from sim_step [OF step.hyps(2) d(2,3) disc_inv_reachable [OF d(1) NewDB_ok]] obtain d'
      where "(disc_step show_addr)\<^sup>*\<^sup>* d d'" "disc_sees u d'" "announced_by (d_sent d') u" by blast
    with disc_reachable_steps [OF d(1)] show ?case by blast
  qed
qed

subsection \<open>Properties\<close>

text \<open>
  C10: Every state of the server is one of discovery seen from the server; the notifications the server has
  received and those under way lead from no nodes to the nodes of the database; and every peer of the server
  and every node in the checkpoint is one that discovery has sent as connected.
\<close>

theorem server_follows_discovery:
  assumes "srv_reachable show_addr m ps s"
  shows "\<exists>d. disc_reachable show_addr (NewDB 0) d \<and> disc_sees s d \<and>
    follow {} (d_sent d @ s_pending s) = Some (gm_keys (db_nodes (s_db s))) \<and>
    (\<forall>k\<in>gm_keys (s_peers s). \<exists>n. Conn_node n \<in> set (d_sent d) \<and> n_id n = k) \<and>
    (\<forall>n\<in>set (s_checkpoint s). Conn_node n \<in> set (d_sent d))"
proof -
  obtain d where d: "disc_reachable show_addr (NewDB 0) d" "disc_sees s d" "announced_by (d_sent d) s"
    using sim_reachable [OF assms] by blast
  have "follow {} (d_sent d @ d_pending d) = Some (gm_keys (db_nodes (d_db d)))"
    using disc_inv_reachable [OF d(1) NewDB_ok] by (simp add: disc_inv_def NewDB_def)
  moreover have "d_db d = s_db s" "d_pending d = s_pending s" using d(2) by (simp_all add: disc_sees_def)
  ultimately show ?thesis using d unfolding announced_by_def by (intro exI [of _ d]) simp
qed

lemma server_follows_discovery_witness:
  "\<exists>(s :: unit server) d. gm_keys (s_peers s) = {''n1''} \<and> disc_sees s d \<and> (\<exists>n. Conn_node n \<in> set (d_sent d) \<and> n_id n = ''n1'')"
proof -
  let ?show = "\<lambda>a :: unit. ''/p2p-circuit''"
  obtain s where s: "srv_reachable ?show 1 [] s" "gm_keys (s_peers s) = {''n1''}"
    using one_peer_reachable [of 1 ?show sample_conn "[]"] sample_circuit by (auto simp: sample_conn_def)
  obtain d where "disc_sees s d" "\<forall>k\<in>gm_keys (s_peers s). \<exists>n. Conn_node n \<in> set (d_sent d) \<and> n_id n = k"
    using server_follows_discovery [OF s(1)] by blast
  with s(2) show ?thesis by (intro exI [of _ s] exI [of _ d]) simp
qed

end
