(* ===== verification/Peer_Writes.thy ===== *)
theory Peer_Writes
  imports Peer_Run
begin

text \<open>
  What a peer publishes: the messages published in a run of \<open>Peer_Run\<close>, and how many of them come after the
  peer has been closed.
\<close>

text \<open>A step publishes if it takes a writer from holding a message to reporting a result.\<close>

fun publishes :: "writer \<Rightarrow> writer \<Rightarrow> bool" where
  "publishes (W_holding topic (Inr data)) (W_reporting r) = True"
| "publishes w w' = False"

definition published :: "peer_run \<Rightarrow> peer_run \<Rightarrow> nat" where
  "published s t = length (filter (\<lambda>(w, w'). publishes w w') (zip (r_writers s) (r_writers t)))"

text \<open>A run and the number of messages it publishes.\<close>

inductive peer_pubs :: "string \<Rightarrow> 'a p2p_peer \<Rightarrow> nat \<Rightarrow> peer_run \<Rightarrow> peer_run \<Rightarrow> bool" for homeID p where
  pubs_refl: "peer_pubs homeID p 0 s s"
| pubs_step: "peer_pubs homeID p n s t \<Longrightarrow> peer_step homeID p t u \<Longrightarrow> peer_pubs homeID p (n + published t u) s u"

lemma peer_pubs_steps: "peer_pubs homeID p n s t \<Longrightarrow> (peer_step homeID p)\<^sup>*\<^sup>* s t"
  by (induction rule: peer_pubs.induct) (auto intro: rtranclp.rtrancl_into_rtrancl)

lemma peer_steps_pubs: "(peer_step homeID p)\<^sup>*\<^sup>* s t \<Longrightarrow> \<exists>n. peer_pubs homeID p n s t"
  by (induction rule: rtranclp_induct) (blast intro: peer_pubs.intros)+

subsection \<open>The messages still to come\<close>

fun holds_message :: "writer \<Rightarrow> bool" where
  "holds_message (W_holding topic (Inr data)) = True"
| "holds_message w = False"

definition unpublished :: "peer_run \<Rightarrow> nat" where
  "unpublished s = r_writeStart s + length (filter holds_message (r_writers s))"

lemma publishes_same [simp]: "\<not> publishes w w"
  by (cases "(w, w)" rule: publishes.cases) auto

lemma publishes_zip_same: "filter (\<lambda>(w, w'). publishes w w') (zip ws ws) = []"
  by (induction ws) simp_all

lemma published_same: "r_writers u = r_writers t \<Longrightarrow> published t u = 0"
  by (simp add: published_def publishes_zip_same)

lemma published_update:
  assumes "i < length ws"
  shows "length (filter (\<lambda>(w, w'). publishes w w') (zip ws (ws[i := x]))) = of_bool (publishes (ws ! i) x)"
  using assms
proof (induction ws arbitrary: i)
  case (Cons w ws)
  with publishes_zip_same [of ws] show ?case by (cases i) auto
qed simp

text \<open>A writer moves: what it publishes it no longer holds, and what it comes to hold cost a token.\<close>

lemma unpublished_writer:
  assumes "i < length (r_writers t)" and "r_writers u = (r_writers t)[i := w]"
    and "r_writeStart u + of_bool (publishes (r_writers t ! i) w) + of_bool (holds_message w) \<le>
      r_writeStart t + of_bool (holds_message (r_writers t ! i))"
  shows "unpublished u + published t u \<le> unpublished t"
  using assms count_update [OF assms(1), of holds_message w] published_update [OF assms(1), of w]
  unfolding unpublished_def published_def by simp

lemma unpublished_other:
  assumes "r_writers u = r_writers t" and "r_writeStart u = r_writeStart t"
  shows "unpublished u + published t u \<le> unpublished t"
  using assms published_same [OF assms(1)] by (simp add: unpublished_def)

lemma publishes_holds: "publishes w w' \<Longrightarrow> holds_message w \<and> \<not> holds_message w'"
  by (induction w w' rule: publishes.induct) simp_all

lemma unpublished_step:
  assumes step: "peer_step homeID p t u" and closed: "r_closed t"
  shows "unpublished u + published t u \<le> unpublished t \<and> r_closed u"
proof -
  have "\<exists>b e. r_main t = Waiting b e \<or> r_main t = Returned b e"
    using closed by (cases "r_main t") (simp_all add: r_closed_def)
  then obtain b e where main: "r_main t = Waiting b e \<or> r_main t = Returned b e" by blast
  have "r_closed u"
    using step closed by cases (auto simp: r_closed_def end_reader_def)
  moreover from step have "unpublished u + published t u \<le> unpublished t"
  proof cases
    case (call_write i r m)
    show ?thesis
      by (rule unpublished_writer [OF call_write(2), of _ "W_waiting m"]) (use call_write in \<open>auto\<close>)
  next
    case (take_token i m)
    show ?thesis
      by (rule unpublished_writer [OF take_token(2)]) (use take_token in \<open>auto simp: Suc_le_eq split: if_splits\<close>)
  next
    case (refuse_write i m)
    show ?thesis
      by (rule unpublished_writer [OF refuse_write(2)]) (use refuse_write in \<open>auto\<close>)
  next
    case (payload_failed i topic e)
    show ?thesis
      by (rule unpublished_writer [OF payload_failed(2)]) (use payload_failed in \<open>auto\<close>)
  next
    case (publish i topic data r)
    show ?thesis
      by (rule unpublished_writer [OF publish(2)]) (use publish in \<open>auto\<close>)
  next
    case (report i r)
    show ?thesis
      by (rule unpublished_writer [OF report(2)]) (use report in \<open>auto\<close>)
  qed (use main in \<open>auto intro!: unpublished_other simp: end_reader_def\<close>)
  ultimately show ?thesis by simp
qed

lemma pubs_bounded: "peer_pubs homeID p n s t \<Longrightarrow> r_closed s \<Longrightarrow> n + unpublished t \<le> unpublished s \<and> r_closed t"
proof (induction rule: peer_pubs.induct)
  case (pubs_step n s t u)
  then show ?case using unpublished_step [OF pubs_step.hyps(2)] by simp
qed simp

lemma holds_token: "length (filter holds_message ws) \<le> tokens_held ws"
proof (induction ws)
  case (Cons w ws)
  have "holds_message w \<Longrightarrow> has_token w" by (induction w rule: holds_message.induct) simp_all
  with Cons show ?case by (auto simp: tokens_held_def)
qed (simp add: tokens_held_def)

text \<open>A run of a closed peer that publishes.\<close>

lemma closed_peer_publishes:
  "\<exists>u v. peer_reachable homeID p 1 u \<and> r_closed u \<and> peer_pubs homeID p 1 u v"
proof -
  let ?d = "Disc_reason DiscQuitting"
  let ?m = "\<lparr>msg_From = [], msg_Topic = [], msg_Payload = Inr []\<rparr>"
  let ?u = "(run_start p 1)\<lparr>r_main := Waiting False ?d\<rparr>"
  let ?v = "?u\<lparr>r_writers := [W_waiting ?m]\<rparr>"
  let ?w = "?v\<lparr>r_writeStart := 0, r_writers := [W_holding (constructTopic homeID []) (Inr [])]\<rparr>"
  let ?x = "?w\<lparr>r_writers := [W_reporting None]\<rparr>"
  have "(peer_step homeID p)\<^sup>*\<^sup>* (run_start p 1) ?u"
    using disconnect_closes [of "run_start p 1" homeID p DiscQuitting] by (simp add: run_start_def)
  moreover have "peer_step homeID p ?u ?v" using peer_step.call_write [of 0 ?u None homeID p ?m] by (simp add: run_start_def)
  moreover have "peer_step homeID p ?v ?w" using peer_step.take_token [of 0 ?v ?m homeID p] by (simp add: run_start_def)
  moreover have "peer_step homeID p ?w ?x" using peer_step.publish [of 0 ?w _ "[]" homeID p None] by (simp add: run_start_def)
  ultimately have "peer_reachable homeID p 1 ?u"
    and pubs: "peer_pubs homeID p (0 + published ?u ?v + published ?v ?w + published ?w ?x) ?u ?x"
    unfolding peer_reachable_def by (blast intro: peer_pubs.intros)+
  moreover have "0 + published ?u ?v + published ?v ?w + published ?w ?x = 1" by (simp add: published_def run_start_def)
  ultimately show ?thesis by (intro exI [of _ ?u] exI [of _ ?x]) (simp add: r_closed_def)
qed

subsection \<open>Properties\<close>

text \<open>
  C29: Once a peer is closed at most one more message is published, whatever the writers do: \<open>WriteMsg\<close> may still
  choose the write token where \<open>closed\<close> is closed, but nobody returns the token.
  And one is in some run.
\<close>

theorem late_write_at_most_one:
  assumes "peer_reachable homeID p callers s" and "r_closed s" and "peer_pubs homeID p n s t"
  shows "n \<le> 1 \<and> (\<exists>u v. peer_reachable homeID p 1 u \<and> r_closed u \<and> peer_pubs homeID p 1 u v)"
proof -
  have "unpublished s \<le> 1"
    using run_inv_reachable [OF assms(1)] holds_token [of "r_writers s"] by (simp add: run_inv_def tokens_def unpublished_def)
  then have "n \<le> 1" using pubs_bounded [OF assms(3,2)] by simp
  then show ?thesis using closed_peer_publishes by blast
qed

lemma late_write_at_most_one_witness:
  "let p = newPeer (NewNode ''n'' None None :: unit node) ''h'' [] in
   \<exists>u v. peer_reachable ''h'' p 1 u \<and> r_closed u \<and> peer_pubs ''h'' p 1 u v \<and> (\<forall>n w. peer_pubs ''h'' p n u w \<longrightarrow> n \<le> 1)"
  unfolding Let_def using closed_peer_publishes late_write_at_most_one by blast

end
