(* ===== verification/File_Store.thy ===== *)
theory File_Store
  imports Batch_Decode
begin

text \<open>
  The contract of the interface \<open>Storage\<close> (\<open>taudb/storage/storage.go\<close>) for clients that
  write, read, remove and rename whole files, one at a time.  \<open>view\<close> gives
  the contents of each valid descriptor's file.  The memory storage and the file storage
  both provide it.
\<close>

subsection \<open>Client programs\<close>

datatype 'b store_cmd =
    Cmd_store file_desc 'b
  | Cmd_load file_desc
  | Cmd_remove file_desc
  | Cmd_rename file_desc file_desc

text \<open>What a command answers: nothing, contents, or an error.\<close>

type_synonym 'b answer = "go_error + 'b option"

fun spec_step :: "'b store_cmd \<Rightarrow> (file_desc \<Rightarrow> 'b option) \<Rightarrow> 'b answer \<times> (file_desc \<Rightarrow> 'b option)" where
  "spec_step (Cmd_store fd bs) m = (Inr None, m(fd \<mapsto> bs))"
| "spec_step (Cmd_load fd) m = ((case m fd of None \<Rightarrow> Inl ErrNotExist | Some bs \<Rightarrow> Inr (Some bs)), m)"
| "spec_step (Cmd_remove fd) m =
     (case m fd of None \<Rightarrow> (Inl ErrNotExist, m) | Some bs \<Rightarrow> (Inr None, m(fd := None)))"
| "spec_step (Cmd_rename old new) m =
     (if old = new then (Inr None, m)
      else case m old of None \<Rightarrow> (Inl ErrNotExist, m) | Some bs \<Rightarrow> (Inr None, m(old := None, new \<mapsto> bs)))"

fun spec_run :: "'b store_cmd list \<Rightarrow> (file_desc \<Rightarrow> 'b option) \<Rightarrow> 'b answer list \<times> (file_desc \<Rightarrow> 'b option)" where
  "spec_run [] m = ([], m)"
| "spec_run (c # cs) m =
     (let (a, m1) = spec_step c m; (as, m2) = spec_run cs m1 in (a # as, m2))"

fun cmd_fds :: "'b store_cmd \<Rightarrow> file_desc set" where
  "cmd_fds (Cmd_store fd bs) = {fd}"
| "cmd_fds (Cmd_load fd) = {fd}"
| "cmd_fds (Cmd_remove fd) = {fd}"
| "cmd_fds (Cmd_rename old new) = {old, new}"

text \<open>
  The same program on a storage, given by what it does to its state: \<open>store\<close> creates, writes
  and closes; \<open>load\<close> opens, reads to the end and closes.
\<close>

fun store_step ::
  "(file_desc \<Rightarrow> 'b \<Rightarrow> 's \<Rightarrow> go_error option \<times> 's) \<Rightarrow> (file_desc \<Rightarrow> 's \<Rightarrow> (go_error + 'b) \<times> 's) \<Rightarrow>
   (file_desc \<Rightarrow> 's \<Rightarrow> go_error option \<times> 's) \<Rightarrow> (file_desc \<Rightarrow> file_desc \<Rightarrow> 's \<Rightarrow> go_error option \<times> 's) \<Rightarrow>
   'b store_cmd \<Rightarrow> 's \<Rightarrow> 'b answer \<times> 's" where
  "store_step store load remove rename (Cmd_store fd bs) s =
     (case store fd bs s of (Some e, s') \<Rightarrow> (Inl e, s') | (None, s') \<Rightarrow> (Inr None, s'))"
| "store_step store load remove rename (Cmd_load fd) s =
     (case load fd s of (Inl e, s') \<Rightarrow> (Inl e, s') | (Inr bs, s') \<Rightarrow> (Inr (Some bs), s'))"
| "store_step store load remove rename (Cmd_remove fd) s =
     (case remove fd s of (Some e, s') \<Rightarrow> (Inl e, s') | (None, s') \<Rightarrow> (Inr None, s'))"
| "store_step store load remove rename (Cmd_rename old new) s =
     (case rename old new s of (Some e, s') \<Rightarrow> (Inl e, s') | (None, s') \<Rightarrow> (Inr None, s'))"

fun store_run ::
  "('c \<Rightarrow> 's \<Rightarrow> 'x \<times> 's) \<Rightarrow> 'c list \<Rightarrow> 's \<Rightarrow> 'x list \<times> 's" where
  "store_run step [] s = ([], s)"
| "store_run step (c # cs) s =
     (let (a, s1) = step c s; (as, s2) = store_run step cs s1 in (a # as, s2))"

subsection \<open>The contract\<close>

locale whole_files =
  fixes store :: "file_desc \<Rightarrow> 'b \<Rightarrow> 's \<Rightarrow> go_error option \<times> 's"
    and load :: "file_desc \<Rightarrow> 's \<Rightarrow> (go_error + 'b) \<times> 's"
    and remove :: "file_desc \<Rightarrow> 's \<Rightarrow> go_error option \<times> 's"
    and rename :: "file_desc \<Rightarrow> file_desc \<Rightarrow> 's \<Rightarrow> go_error option \<times> 's"
    and ready :: "'s \<Rightarrow> bool"
    and valid :: "file_desc \<Rightarrow> bool"
    and view :: "'s \<Rightarrow> file_desc \<Rightarrow> 'b option"
  assumes store_law: "ready s \<Longrightarrow> valid fd \<Longrightarrow>
      \<exists>s'. store fd bs s = (None, s') \<and> ready s' \<and> view s' = (view s)(fd \<mapsto> bs)"
    and load_law: "ready s \<Longrightarrow> valid fd \<Longrightarrow>
      \<exists>s'. load fd s = (case view s fd of None \<Rightarrow> Inl ErrNotExist | Some bs \<Rightarrow> Inr bs, s') \<and> ready s' \<and> view s' = view s"
    and remove_law: "ready s \<Longrightarrow> valid fd \<Longrightarrow>
      \<exists>s'. remove fd s = (if view s fd = None then Some ErrNotExist else None, s') \<and> ready s' \<and>
        view s' = (view s)(fd := None)"
    and rename_law: "ready s \<Longrightarrow> valid old \<Longrightarrow> valid new \<Longrightarrow>
      \<exists>s'. rename old new s = (if old \<noteq> new \<and> view s old = None then Some ErrNotExist else None, s') \<and> ready s' \<and>
        view s' = (if old = new \<or> view s old = None then view s else (view s)(old := None, new := view s old))"
begin

lemma step_refines:
  assumes ready: "ready s" and valid: "\<forall>fd\<in>cmd_fds c. valid fd"
  shows "\<exists>s'. store_step store load remove rename c s = (fst (spec_step c (view s)), s') \<and> ready s' \<and> view s' = snd (spec_step c (view s))"
proof (cases c)
  case (Cmd_store fd bs)
  with store_law [OF ready, of fd bs] valid show ?thesis by auto
next
  case (Cmd_load fd)
  with load_law [OF ready, of fd] valid show ?thesis by (auto split: option.splits)
next
  case (Cmd_remove fd)
  with remove_law [OF ready, of fd] valid show ?thesis
    by (cases "view s fd") (auto simp: fun_upd_idem)
next
  case (Cmd_rename old new)
  with rename_law [OF ready, of old new] valid show ?thesis
    by (cases "view s old") auto
qed

lemma run_refines:
  "ready s \<Longrightarrow> \<forall>c\<in>set cs. \<forall>fd\<in>cmd_fds c. valid fd \<Longrightarrow>
   \<exists>s'. store_run (store_step store load remove rename) cs s = (fst (spec_run cs (view s)), s') \<and> ready s' \<and> view s' = snd (spec_run cs (view s))"
proof (induction cs arbitrary: s)
  case (Cons c cs)
  obtain s1 where one: "store_step store load remove rename c s = (fst (spec_step c (view s)), s1)" "ready s1" "view s1 = snd (spec_step c (view s))"
    using step_refines [OF Cons.prems(1), of c] Cons.prems(2) by auto
  obtain s2 where "store_run (store_step store load remove rename) cs s1 = (fst (spec_run cs (view s1)), s2)" "ready s2" "view s2 = snd (spec_run cs (view s1))"
    using Cons.IH [OF one(2)] Cons.prems(2) by auto
  with one show ?case by (simp add: split_beta Let_def)
qed auto

end

end
