(* ===== verification/Mem_Storage.thy ===== *)
theory Mem_Storage
  imports File_Store Go_Collections
begin

text \<open>
  The memory storage of \<open>taudb/storage/mem_storage.go\<close>.  Files are shared by the storage, by
  readers and by writers, so they live in a heap and the storage maps packed descriptors to
  addresses.  A file is the standard library's \<open>bytes.Buffer\<close>, here its unread bytes, with
  the flag \<open>open\<close>.  Every operation holds the storage's mutex, so operations are atomic.
\<close>

subsection \<open>State\<close>

record mem_file =
  mf_bytes :: "byte list"
  mf_open :: bool

record mem_storage =
  ms_slock :: "nat option"
  ms_locks :: nat
  ms_files :: "(u64, nat) gomap"
  ms_meta :: file_desc
  ms_heap :: "mem_file list"

text \<open>A reader keeps the bytes it was opened on and its position, a writer its file.\<close>

record mem_handle =
  mh_file :: nat
  mh_closed :: bool

definition NewMemStorage :: mem_storage where
  "NewMemStorage = \<lparr>ms_slock = None, ms_locks = 0, ms_files = [], ms_meta = zero_fd, ms_heap = []\<rparr>"

definition set_open :: "nat \<Rightarrow> bool \<Rightarrow> mem_storage \<Rightarrow> mem_storage" where
  "set_open a b s = s\<lparr>ms_heap := (ms_heap s)[a := (ms_heap s ! a)\<lparr>mf_open := b\<rparr>]\<rparr>"

subsection \<open>Operations\<close>

text \<open>A lock is the number of its allocation; \<open>Unlock\<close> only releases the lock that is held.\<close>

definition mem_Lock :: "mem_storage \<Rightarrow> (go_error + nat) \<times> mem_storage" where
  "mem_Lock s =
     (if ms_slock s \<noteq> None then (Inl ErrLocked, s)
      else (Inr (ms_locks s), s\<lparr>ms_slock := Some (ms_locks s), ms_locks := Suc (ms_locks s)\<rparr>))"

definition mem_Unlock :: "nat \<Rightarrow> mem_storage \<Rightarrow> mem_storage" where
  "mem_Unlock lock s = (if ms_slock s = Some lock then s\<lparr>ms_slock := None\<rparr> else s)"

definition mem_SetMeta :: "file_desc \<Rightarrow> mem_storage \<Rightarrow> go_error option \<times> mem_storage" where
  "mem_SetMeta fd s = (if \<not> FileDescOk fd then (Some ErrInvalidFile, s) else (None, s\<lparr>ms_meta := fd\<rparr>))"

definition mem_GetMeta :: "mem_storage \<Rightarrow> go_error + file_desc" where
  "mem_GetMeta s = (if fd_zero (ms_meta s) then Inl ErrNotExist else Inr (ms_meta s))"

definition mem_List :: "int \<Rightarrow> mem_storage \<Rightarrow> file_desc list" where
  "mem_List ft s = filter (\<lambda>fd. fd_type fd AND ft \<noteq> 0) (map (\<lambda>(x, a). unpackFile x) (ms_files s))"

definition mem_Open :: "file_desc \<Rightarrow> mem_storage \<Rightarrow> (go_error + (mem_handle \<times> byte list)) \<times> mem_storage" where
  "mem_Open fd s =
     (if \<not> FileDescOk fd then (Inl ErrInvalidFile, s)
      else case gm_get (ms_files s) (packFile fd) of
             None \<Rightarrow> (Inl ErrNotExist, s)
           | Some a \<Rightarrow>
               if mf_open (ms_heap s ! a) then (Inl errFileOpen, s)
               else (Inr (\<lparr>mh_file = a, mh_closed = False\<rparr>, mf_bytes (ms_heap s ! a)), set_open a True s))"

definition mem_Create :: "file_desc \<Rightarrow> mem_storage \<Rightarrow> (go_error + mem_handle) \<times> mem_storage" where
  "mem_Create fd s =
     (if \<not> FileDescOk fd then (Inl ErrInvalidFile, s)
      else case gm_get (ms_files s) (packFile fd) of
             Some a \<Rightarrow>
               if mf_open (ms_heap s ! a) then (Inl errFileOpen, s)
               else (Inr \<lparr>mh_file = a, mh_closed = False\<rparr>,
                     s\<lparr>ms_heap := (ms_heap s)[a := \<lparr>mf_bytes = [], mf_open = True\<rparr>]\<rparr>)
           | None \<Rightarrow>
               let a = length (ms_heap s) in
               (Inr \<lparr>mh_file = a, mh_closed = False\<rparr>,
                s\<lparr>ms_files := gm_put (packFile fd) a (ms_files s),
                  ms_heap := ms_heap s @ [\<lparr>mf_bytes = [], mf_open = True\<rparr>]\<rparr>))"

text \<open>\<open>Write\<close> of the embedded buffer.\<close>

definition mem_Write :: "mem_handle \<Rightarrow> byte list \<Rightarrow> mem_storage \<Rightarrow> mem_storage" where
  "mem_Write h bs s =
     (let f = ms_heap s ! mh_file h
      in s\<lparr>ms_heap := (ms_heap s)[mh_file h := f\<lparr>mf_bytes := mf_bytes f @ bs\<rparr>]\<rparr>)"

text \<open>\<open>Close\<close> of readers and writers; it never sets \<open>closed\<close>.\<close>

definition mem_Close_handle :: "mem_handle \<Rightarrow> mem_storage \<Rightarrow> go_error option \<times> mem_storage" where
  "mem_Close_handle h s =
     (if mh_closed h then (Some ErrClosed, s) else (None, set_open (mh_file h) False s))"

definition mem_Remove :: "file_desc \<Rightarrow> mem_storage \<Rightarrow> go_error option \<times> mem_storage" where
  "mem_Remove fd s =
     (if \<not> FileDescOk fd then (Some ErrInvalidFile, s)
      else if gm_get (ms_files s) (packFile fd) \<noteq> None
      then (None, s\<lparr>ms_files := gm_del (packFile fd) (ms_files s)\<rparr>)
      else (Some ErrNotExist, s))"

definition mem_Rename :: "file_desc \<Rightarrow> file_desc \<Rightarrow> mem_storage \<Rightarrow> go_error option \<times> mem_storage" where
  "mem_Rename oldfd newfd s =
     (if \<not> FileDescOk oldfd \<or> \<not> FileDescOk newfd then (Some ErrInvalidFile, s)
      else if oldfd = newfd then (None, s)
      else case gm_get (ms_files s) (packFile oldfd) of
             None \<Rightarrow> (Some ErrNotExist, s)
           | Some a \<Rightarrow>
               if (case gm_get (ms_files s) (packFile newfd) of None \<Rightarrow> False | Some b \<Rightarrow> mf_open (ms_heap s ! b))
                  \<or> mf_open (ms_heap s ! a)
               then (Some errFileOpen, s)
               else (None, s\<lparr>ms_files := gm_put (packFile newfd) a (gm_del (packFile oldfd) (ms_files s))\<rparr>))"

subsection \<open>Invariant and abstract view\<close>

definition mem_ok :: "mem_storage \<Rightarrow> bool" where
  "mem_ok s \<longleftrightarrow>
     gm_ok (ms_files s) \<and>
     (\<forall>x a. gm_get (ms_files s) x = Some a \<longrightarrow> a < length (ms_heap s)) \<and>
     (\<forall>x y a. gm_get (ms_files s) x = Some a \<longrightarrow> gm_get (ms_files s) y = Some a \<longrightarrow> x = y)"

definition mem_valid :: "file_desc \<Rightarrow> bool" where
  "mem_valid fd \<longleftrightarrow> FileDescOk fd \<and> fd_num fd < 2 ^ 60"

definition mem_view :: "mem_storage \<Rightarrow> file_desc \<Rightarrow> byte list option" where
  "mem_view s fd =
     (if mem_valid fd then map_option (\<lambda>a. mf_bytes (ms_heap s ! a)) (gm_get (ms_files s) (packFile fd)) else None)"

definition mem_idle :: "mem_storage \<Rightarrow> bool" where
  "mem_idle s \<longleftrightarrow> mem_ok s \<and> (\<forall>x a. gm_get (ms_files s) x = Some a \<longrightarrow> \<not> mf_open (ms_heap s ! a))"

lemma pack_eq: "mem_valid a \<Longrightarrow> mem_valid b \<Longrightarrow> packFile a = packFile b \<longleftrightarrow> a = b"
  using pack_inject [of a b] by (auto simp: mem_valid_def)

lemma mem_ok_new: "mem_ok NewMemStorage" and mem_idle_new: "mem_idle NewMemStorage"
  by (simp_all add: mem_ok_def mem_idle_def NewMemStorage_def)

lemma mem_ok_heap:
  "mem_ok s \<Longrightarrow> ms_files s' = ms_files s \<Longrightarrow> length (ms_heap s') = length (ms_heap s) \<Longrightarrow> mem_ok s'"
  by (simp add: mem_ok_def)

lemma mem_ok_Create: "mem_ok s \<Longrightarrow> mem_ok (snd (mem_Create fd s))"
proof (cases "gm_get (ms_files s) (packFile fd)")
  case None
  assume ok: "mem_ok s"
  have "gm_get (ms_files s) x \<noteq> Some (length (ms_heap s))" for x
    using ok by (auto simp: mem_ok_def)
  with ok None show ?thesis
    by (auto simp: mem_Create_def mem_ok_def map_simps Let_def less_Suc_eq split: if_splits)
next
  case (Some a)
  assume ok: "mem_ok s"
  with Some show ?thesis
    by (auto simp: mem_Create_def intro: mem_ok_heap)
qed

lemma mem_ok_Open: "mem_ok s \<Longrightarrow> mem_ok (snd (mem_Open fd s))"
  by (auto simp: mem_Open_def set_open_def intro: mem_ok_heap split: option.split)

lemma mem_ok_Close: "mem_ok s \<Longrightarrow> mem_ok (snd (mem_Close_handle h s))"
  by (auto simp: mem_Close_handle_def set_open_def intro: mem_ok_heap)

lemma mem_ok_Write: "mem_ok s \<Longrightarrow> mem_ok (mem_Write h bs s)"
  by (auto simp: mem_Write_def Let_def intro: mem_ok_heap)

lemma mem_ok_Remove: "mem_ok s \<Longrightarrow> mem_ok (snd (mem_Remove fd s))"
  by (auto simp: mem_Remove_def mem_ok_def map_simps split: if_splits)

lemma mem_ok_Rename: "mem_ok s \<Longrightarrow> mem_ok (snd (mem_Rename old new s))"
  by (auto simp: mem_Rename_def mem_ok_def map_simps split: option.split if_splits)

subsection \<open>Whole files\<close>

definition mem_store :: "file_desc \<Rightarrow> byte list \<Rightarrow> mem_storage \<Rightarrow> go_error option \<times> mem_storage" where
  "mem_store fd bs s =
     (case mem_Create fd s of
        (Inl e, s1) \<Rightarrow> (Some e, s1)
      | (Inr h, s1) \<Rightarrow> mem_Close_handle h (mem_Write h bs s1))"

definition mem_load :: "file_desc \<Rightarrow> mem_storage \<Rightarrow> (go_error + byte list) \<times> mem_storage" where
  "mem_load fd s =
     (case mem_Open fd s of
        (Inl e, s1) \<Rightarrow> (Inl e, s1)
      | (Inr (h, bs), s1) \<Rightarrow> (case mem_Close_handle h s1 of (None, s2) \<Rightarrow> (Inr bs, s2) | (Some e, s2) \<Rightarrow> (Inl e, s2)))"

lemma mem_idleD:
  assumes "mem_idle s" and "gm_get (ms_files s) x = Some a"
  shows "a < length (ms_heap s)" and "\<not> mf_open (ms_heap s ! a)"
    and "gm_get (ms_files s) y = Some a \<Longrightarrow> y = x"
  using assms unfolding mem_idle_def mem_ok_def by blast+

lemma mem_idleI:
  assumes "gm_ok (ms_files s)"
    and "\<And>x a. gm_get (ms_files s) x = Some a \<Longrightarrow> a < length (ms_heap s) \<and> \<not> mf_open (ms_heap s ! a)"
    and "\<And>x y a. gm_get (ms_files s) x = Some a \<Longrightarrow> gm_get (ms_files s) y = Some a \<Longrightarrow> x = y"
  shows "mem_idle s"
  using assms unfolding mem_idle_def mem_ok_def by blast

lemma mem_idle_maps: "mem_idle s \<Longrightarrow> gm_ok (ms_files s)"
  by (simp add: mem_idle_def mem_ok_def)

lemma mem_view_eqI:
  assumes "\<And>fd. mem_valid fd \<Longrightarrow>
    map_option (\<lambda>a. mf_bytes (ms_heap s ! a)) (gm_get (ms_files s) (packFile fd)) = m fd"
    and "\<And>fd. \<not> mem_valid fd \<Longrightarrow> m fd = None"
  shows "mem_view s = m"
  using assms by (auto simp: mem_view_def fun_eq_iff)

lemma mem_idle_ok: "mem_idle s \<Longrightarrow> mem_ok s"
  by (simp add: mem_idle_def)

lemma mem_store_eq:
  assumes idle: "mem_idle s" and "FileDescOk fd"
  shows "mem_store fd bs s = (None,
    (case gm_get (ms_files s) (packFile fd) of
       Some a \<Rightarrow> s\<lparr>ms_heap := (ms_heap s)[a := \<lparr>mf_bytes = bs, mf_open = False\<rparr>]\<rparr>
     | None \<Rightarrow> s\<lparr>ms_files := gm_put (packFile fd) (length (ms_heap s)) (ms_files s),
                 ms_heap := ms_heap s @ [\<lparr>mf_bytes = bs, mf_open = False\<rparr>]\<rparr>))"
proof (cases "gm_get (ms_files s) (packFile fd)")
  case None
  with assms show ?thesis
    by (simp add: mem_store_def mem_Create_def mem_Write_def mem_Close_handle_def set_open_def Let_def)
next
  case (Some a)
  with assms mem_idleD(1,2) [OF idle Some] show ?thesis
    by (simp add: mem_store_def mem_Create_def mem_Write_def mem_Close_handle_def set_open_def Let_def)
qed

lemma mem_store_law:
  assumes idle: "mem_idle s" and valid: "mem_valid fd"
  shows "\<exists>s'. mem_store fd bs s = (None, s') \<and> mem_idle s' \<and> mem_view s' = (mem_view s)(fd \<mapsto> bs)"
proof (cases "gm_get (ms_files s) (packFile fd)")
  case None
  let ?s' = "s\<lparr>ms_files := gm_put (packFile fd) (length (ms_heap s)) (ms_files s),
                 ms_heap := ms_heap s @ [\<lparr>mf_bytes = bs, mf_open = False\<rparr>]\<rparr>"
  have fresh: "gm_get (ms_files s) x \<noteq> Some (length (ms_heap s))" for x
    using mem_idleD(1) [OF idle] by blast
  have "mem_idle ?s'"
  proof (rule mem_idleI)
    show "gm_ok (ms_files ?s')" using mem_idle_maps [OF idle] by (simp add: map_simps)
    show "a < length (ms_heap ?s') \<and> \<not> mf_open (ms_heap ?s' ! a)" if "gm_get (ms_files ?s') x = Some a" for x a
      using that mem_idleD(1,2) [OF idle, of x a] by (auto simp: map_simps nth_append split: if_splits)
    show "x = y" if "gm_get (ms_files ?s') x = Some a" "gm_get (ms_files ?s') y = Some a" for x y a
      using that mem_idleD(3) [OF idle, of y a x] fresh by (auto simp: map_simps split: if_splits)
  qed
  moreover have "mem_view ?s' = (mem_view s)(fd \<mapsto> bs)"
  proof (rule mem_view_eqI)
    fix fd' assume v: "mem_valid fd'"
    show "map_option (\<lambda>a. mf_bytes (ms_heap ?s' ! a)) (gm_get (ms_files ?s') (packFile fd')) = ((mem_view s)(fd \<mapsto> bs)) fd'"
      using v pack_eq [OF v valid] mem_idleD(1) [OF idle, of "packFile fd'"]
      by (cases "gm_get (ms_files s) (packFile fd')") (auto simp: map_simps nth_append mem_view_def)
  qed (use valid in \<open>auto simp: mem_view_def\<close>)
  ultimately show ?thesis using mem_store_eq [OF idle] valid None by (simp add: mem_valid_def)
next
  case (Some a)
  let ?s' = "s\<lparr>ms_heap := (ms_heap s)[a := \<lparr>mf_bytes = bs, mf_open = False\<rparr>]\<rparr>"
  note a = mem_idleD [OF idle Some]
  have "mem_idle ?s'"
  proof (rule mem_idleI)
    show "b < length (ms_heap ?s') \<and> \<not> mf_open (ms_heap ?s' ! b)" if "gm_get (ms_files ?s') x = Some b" for x b
      using that mem_idleD(1,2) [OF idle, of x b] a(1) by (simp add: nth_list_update)
    show "x = y" if "gm_get (ms_files ?s') x = Some b" "gm_get (ms_files ?s') y = Some b" for x y b
      using that mem_idleD(3) [OF idle, of y b x] by simp
  qed (use mem_idle_maps [OF idle] in simp)
  moreover have "mem_view ?s' = (mem_view s)(fd \<mapsto> bs)"
  proof (rule mem_view_eqI)
    fix fd' assume v: "mem_valid fd'"
    show "map_option (\<lambda>a. mf_bytes (ms_heap ?s' ! a)) (gm_get (ms_files ?s') (packFile fd')) = ((mem_view s)(fd \<mapsto> bs)) fd'"
    proof (cases "fd' = fd")
      case True
      with Some a(1) show ?thesis by simp
    next
      case False
      then have "gm_get (ms_files s) (packFile fd') \<noteq> Some a"
        using a(3) [of "packFile fd'"] pack_eq [OF v valid] by blast
      with v False show ?thesis
        by (cases "gm_get (ms_files s) (packFile fd')") (auto simp: mem_view_def)
    qed
  qed (use valid in \<open>auto simp: mem_view_def\<close>)
  ultimately show ?thesis using mem_store_eq [OF idle] valid Some by (simp add: mem_valid_def)
qed

lemma mem_load_law:
  assumes idle: "mem_idle s" and valid: "mem_valid fd"
  shows "\<exists>s'. mem_load fd s = (case mem_view s fd of None \<Rightarrow> Inl ErrNotExist | Some bs \<Rightarrow> Inr bs, s') \<and>
    mem_idle s' \<and> mem_view s' = mem_view s"
proof (cases "gm_get (ms_files s) (packFile fd)")
  case None
  with valid have "mem_load fd s = (Inl ErrNotExist, s)" "mem_view s fd = None"
    by (simp_all add: mem_load_def mem_Open_def mem_view_def mem_valid_def)
  with idle show ?thesis by simp
next
  case (Some a)
  note a = mem_idleD(1,2) [OF idle Some]
  have closed: "(ms_heap s ! a)\<lparr>mf_open := False\<rparr> = ms_heap s ! a" using a(2) by simp
  have "set_open a False (set_open a True s) = s"
    using a(1) by (simp add: set_open_def closed)
  then have "mem_load fd s = (Inr (mf_bytes (ms_heap s ! a)), s)"
    using valid Some a(2) by (simp add: mem_load_def mem_Open_def mem_valid_def mem_Close_handle_def)
  moreover have "mem_view s fd = Some (mf_bytes (ms_heap s ! a))" using valid Some by (simp add: mem_view_def)
  ultimately show ?thesis using idle by simp
qed

lemma mem_remove_law:
  assumes idle: "mem_idle s" and valid: "mem_valid fd"
  shows "\<exists>s'. mem_Remove fd s = (if mem_view s fd = None then Some ErrNotExist else None, s') \<and>
    mem_idle s' \<and> mem_view s' = (mem_view s)(fd := None)"
proof (cases "gm_get (ms_files s) (packFile fd)")
  case None
  then have "mem_view s fd = None" by (simp add: mem_view_def)
  then have "(mem_view s)(fd := None) = mem_view s" by (rule fun_upd_idem)
  with idle valid None \<open>mem_view s fd = None\<close> show ?thesis by (simp add: mem_Remove_def mem_valid_def)
next
  case (Some a)
  let ?s' = "s\<lparr>ms_files := gm_del (packFile fd) (ms_files s)\<rparr>"
  have "mem_idle ?s'"
  proof (rule mem_idleI)
    show "gm_ok (ms_files ?s')" using mem_idle_maps [OF idle] by (simp add: map_simps)
    show "b < length (ms_heap ?s') \<and> \<not> mf_open (ms_heap ?s' ! b)" if "gm_get (ms_files ?s') x = Some b" for x b
      using that mem_idleD(1,2) [OF idle, of x b] by (simp add: map_simps split: if_splits)
    show "x = y" if "gm_get (ms_files ?s') x = Some b" "gm_get (ms_files ?s') y = Some b" for x y b
      using that mem_idleD(3) [OF idle, of y b x] by (simp add: map_simps split: if_splits)
  qed
  moreover have "mem_view ?s' = (mem_view s)(fd := None)"
    by (rule mem_view_eqI) (use pack_eq [OF _ valid] in \<open>auto simp: map_simps mem_view_def\<close>)
  ultimately show ?thesis using valid Some by (simp add: mem_Remove_def mem_view_def mem_valid_def)
qed

lemma mem_rename_law:
  assumes idle: "mem_idle s" and old: "mem_valid old" and new: "mem_valid new"
  shows "\<exists>s'. mem_Rename old new s = (if old \<noteq> new \<and> mem_view s old = None then Some ErrNotExist else None, s') \<and>
    mem_idle s' \<and>
    mem_view s' = (if old = new \<or> mem_view s old = None then mem_view s else (mem_view s)(old := None, new := mem_view s old))"
proof (cases "old = new \<or> gm_get (ms_files s) (packFile old) = None")
  case True
  with idle old new show ?thesis by (auto simp: mem_Rename_def mem_view_def mem_valid_def)
next
  case False
  then obtain a where Some: "gm_get (ms_files s) (packFile old) = Some a" and ne: "old \<noteq> new" by blast
  let ?s' = "s\<lparr>ms_files := gm_put (packFile new) a (gm_del (packFile old) (ms_files s))\<rparr>"
  note a = mem_idleD [OF idle Some]
  have "\<not> (case gm_get (ms_files s) (packFile new) of None \<Rightarrow> False | Some b \<Rightarrow> mf_open (ms_heap s ! b))"
    using mem_idleD(2) [OF idle] by (auto split: option.split)
  then have "mem_Rename old new s = (None, ?s')"
    using ne old new Some a(2) by (simp add: mem_Rename_def mem_valid_def)
  moreover have "mem_idle ?s'"
  proof (rule mem_idleI)
    show "gm_ok (ms_files ?s')" using mem_idle_maps [OF idle] by (simp add: map_simps)
    show "b < length (ms_heap ?s') \<and> \<not> mf_open (ms_heap ?s' ! b)" if "gm_get (ms_files ?s') x = Some b" for x b
      using that mem_idleD(1,2) [OF idle, of x b] a(1,2) by (auto simp: map_simps split: if_splits)
    show "x = y" if "gm_get (ms_files ?s') x = Some b" "gm_get (ms_files ?s') y = Some b" for x y b
      using that mem_idleD(3) [OF idle, of y b x] a(3) by (auto simp: map_simps split: if_splits)
  qed
  moreover have "mem_view ?s' = (mem_view s)(old := None, new := mem_view s old)"
    by (rule mem_view_eqI) (use old new ne Some pack_eq [OF _ old] pack_eq [OF _ new] in \<open>auto simp: map_simps mem_view_def\<close>)
  ultimately show ?thesis using ne Some old by (simp add: mem_view_def)
qed

interpretation mem_files: whole_files mem_store mem_load mem_Remove mem_Rename mem_idle mem_valid mem_view
  by unfold_locales (simp_all add: mem_store_law mem_load_law mem_remove_law mem_rename_law)

subsection \<open>Properties\<close>

text \<open>
  C12: Programs that store, load, remove and rename whole files on the memory storage get
  exactly the answers of a map from descriptors to contents, and leave the storage in the
  state of that map, for descriptors numbered below \<open>2 ^ 60\<close>.
\<close>

theorem mem_storage_refines_map:
  assumes "mem_idle s" and "\<forall>c\<in>set cs. \<forall>fd\<in>cmd_fds c. mem_valid fd"
  shows "\<exists>s'. store_run (store_step mem_store mem_load mem_Remove mem_Rename) cs s =
      (fst (spec_run cs (mem_view s)), s') \<and> mem_idle s' \<and> mem_view s' = snd (spec_run cs (mem_view s))"
  by (rule mem_files.run_refines [OF assms])

lemma mem_storage_refines_map_witness:
  "let t = \<lparr>fd_type = TypeTable, fd_num = 1\<rparr>; cs = [Cmd_store t [1, 2], Cmd_load t] in
   \<exists>s'. store_run (store_step mem_store mem_load mem_Remove mem_Rename) cs NewMemStorage =
      (fst (spec_run cs (mem_view NewMemStorage)), s') \<and> mem_idle s' \<and>
      mem_view s' = snd (spec_run cs (mem_view NewMemStorage))"
  unfolding Let_def
  by (rule mem_storage_refines_map) (simp_all add: mem_idle_new mem_valid_def FileDescOk_def file_type_defs)

text \<open>
  An open file can neither be opened nor created again; but a handle never becomes closed:
  closing it a second time succeeds and clears the flag
  of a file that another handle has opened since, which can then be opened twice.
\<close>

theorem mem_double_close:
  assumes "mem_ok s" and "mem_Open fd s = (Inr (h, bs), s1)"
  shows "fst (mem_Open fd s1) = Inl errFileOpen \<and> fst (mem_Create fd s1) = Inl errFileOpen \<and>
    (\<exists>s2 s3 s4 h'. mem_Close_handle h s1 = (None, s2) \<and> mem_Open fd s2 = (Inr (h', bs), s3) \<and>
       mem_Close_handle h s3 = (None, s4) \<and> (\<exists>h''. fst (mem_Open fd s4) = Inr (h'', bs)))"
proof -
  obtain a where fd: "FileDescOk fd" "gm_get (ms_files s) (packFile fd) = Some a" "\<not> mf_open (ms_heap s ! a)"
    and s1: "h = \<lparr>mh_file = a, mh_closed = False\<rparr>" "bs = mf_bytes (ms_heap s ! a)" "s1 = set_open a True s"
    using assms(2) by (auto simp: mem_Open_def split: if_splits option.splits)
  have "a < length (ms_heap s)" using assms(1) fd(2) unfolding mem_ok_def by blast
  with fd s1 show ?thesis
    by (simp add: mem_Open_def mem_Create_def mem_Close_handle_def set_open_def)
qed

lemma mem_double_close_witness:
  "let fd = \<lparr>fd_type = TypeTable, fd_num = 1\<rparr>; s = snd (mem_store fd [7] NewMemStorage) in
   \<exists>h s1. mem_Open fd s = (Inr (h, [7]), s1) \<and> fst (mem_Open fd s1) = Inl errFileOpen \<and>
     fst (mem_Create fd s1) = Inl errFileOpen"
proof -
  let ?fd = "\<lparr>fd_type = TypeTable, fd_num = 1\<rparr>"
  let ?s = "snd (mem_store ?fd [7] NewMemStorage)"
  obtain h s1 where open1: "mem_Open ?fd ?s = (Inr (h, [7]), s1)"
    by (simp add: mem_store_def mem_Create_def mem_Open_def mem_Write_def mem_Close_handle_def set_open_def
        NewMemStorage_def FileDescOk_def file_type_defs map_simps Let_def)
  have "mem_ok ?s"
    using mem_store_law [OF mem_idle_new, of ?fd "[7]"] mem_idle_ok
    by (auto simp: mem_valid_def FileDescOk_def file_type_defs)
  from mem_double_close [OF this open1] open1 show ?thesis by (auto simp: Let_def)
qed

subsection \<open>Every run is well formed\<close>

text \<open>Clients call any operation at any time and use any handle they were given, closed or not.\<close>

inductive mem_step :: "mem_storage \<times> mem_handle list \<Rightarrow> mem_storage \<times> mem_handle list \<Rightarrow> bool" where
  create: "mem_Create fd s = (Inr h, s') \<Longrightarrow> mem_step (s, hs) (s', h # hs)"
| create_fails: "mem_Create fd s = (Inl e, s') \<Longrightarrow> mem_step (s, hs) (s', hs)"
| open_done: "mem_Open fd s = (Inr (h, bs), s') \<Longrightarrow> mem_step (s, hs) (s', h # hs)"
| open_fails: "mem_Open fd s = (Inl e, s') \<Longrightarrow> mem_step (s, hs) (s', hs)"
| write_file: "h \<in> set hs \<Longrightarrow> mem_step (s, hs) (mem_Write h bs s, hs)"
| close: "h \<in> set hs \<Longrightarrow> mem_step (s, hs) (snd (mem_Close_handle h s), hs)"
| remove: "mem_step (s, hs) (snd (mem_Remove fd s), hs)"
| rename: "mem_step (s, hs) (snd (mem_Rename old new s), hs)"
| set_meta: "mem_step (s, hs) (snd (mem_SetMeta fd s), hs)"
| lock: "mem_step (s, hs) (snd (mem_Lock s), hs)"
| unlock: "mem_step (s, hs) (mem_Unlock l s, hs)"

definition handles_ok :: "mem_storage \<Rightarrow> mem_handle list \<Rightarrow> bool" where
  "handles_ok s hs \<longleftrightarrow> (\<forall>h\<in>set hs. mh_file h < length (ms_heap s) \<and> \<not> mh_closed h)"

lemma handles_ok_mono:
  "handles_ok s hs \<Longrightarrow> length (ms_heap s) \<le> length (ms_heap s') \<Longrightarrow> handles_ok s' hs"
  by (auto simp: handles_ok_def)

lemma mem_heap_length:
  "length (ms_heap s) \<le> length (ms_heap (snd (mem_Create fd s)))"
  "length (ms_heap (snd (mem_Open fd s))) = length (ms_heap s)"
  "length (ms_heap (mem_Write h bs s)) = length (ms_heap s)"
  "length (ms_heap (snd (mem_Close_handle h s))) = length (ms_heap s)"
  "ms_heap (snd (mem_Remove fd s)) = ms_heap s" "ms_heap (snd (mem_Rename old new s)) = ms_heap s"
  "ms_heap (snd (mem_SetMeta fd s)) = ms_heap s" "ms_heap (snd (mem_Lock s)) = ms_heap s"
  "ms_heap (mem_Unlock l s) = ms_heap s"
  by (auto simp: mem_Create_def mem_Open_def mem_Write_def mem_Close_handle_def mem_Remove_def mem_Rename_def
      mem_SetMeta_def mem_Lock_def mem_Unlock_def set_open_def Let_def split: option.split)

lemma mem_new_handle:
  "mem_ok s \<Longrightarrow> mem_Create fd s = (Inr h, s') \<Longrightarrow> mh_file h < length (ms_heap s') \<and> \<not> mh_closed h"
  "mem_ok s \<Longrightarrow> mem_Open fd s = (Inr (h, bs), s') \<Longrightarrow> mh_file h < length (ms_heap s') \<and> \<not> mh_closed h"
  by (auto simp: mem_Create_def mem_Open_def mem_ok_def set_open_def Let_def split: option.splits if_splits)

lemma mem_step_ok:
  assumes "mem_step x y" and "mem_ok (fst x)" and "handles_ok (fst x) (snd x)"
  shows "mem_ok (fst y) \<and> handles_ok (fst y) (snd y)"
  using assms
proof (induction rule: mem_step.induct)
  case (create fd s h s' hs)
  then show ?case
    using mem_ok_Create [of s fd] mem_heap_length(1) [of s fd] mem_new_handle(1) [of s fd h s'] handles_ok_mono [of s hs s']
    by (simp add: handles_ok_def)
next
  case (create_fails fd s e s' hs)
  then show ?case using mem_ok_Create [of s fd] mem_heap_length(1) [of s fd] handles_ok_mono [of s hs s'] by simp
next
  case (open_done fd s h bs s' hs)
  then show ?case
    using mem_ok_Open [of s fd] mem_heap_length(2) [of fd s] mem_new_handle(2) [of s fd h bs s'] by (simp add: handles_ok_def)
next
  case (open_fails fd s e s' hs)
  then show ?case using mem_ok_Open [of s fd] mem_heap_length(2) [of fd s] by (simp add: handles_ok_def)
next
  case (write_file h hs s bs)
  then show ?case using mem_ok_Write by (simp add: handles_ok_def mem_heap_length)
next
  case (close h hs s)
  then show ?case using mem_ok_Close by (simp add: handles_ok_def mem_heap_length)
next
  case (remove s hs fd)
  then show ?case using mem_ok_Remove by (simp add: handles_ok_def mem_heap_length)
next
  case (rename s hs old new)
  then show ?case using mem_ok_Rename by (simp add: handles_ok_def mem_heap_length)
next
  case (set_meta s hs fd)
  then show ?case by (auto simp: mem_SetMeta_def mem_ok_def handles_ok_def)
next
  case (lock s hs)
  then show ?case by (auto simp: mem_Lock_def mem_ok_def handles_ok_def)
next
  case (unlock s hs l)
  then show ?case by (auto simp: mem_Unlock_def mem_ok_def handles_ok_def)
qed

lemma mem_reach_ok:
  "mem_step\<^sup>*\<^sup>* x y \<Longrightarrow> mem_ok (fst x) \<and> handles_ok (fst x) (snd x) \<Longrightarrow> mem_ok (fst y) \<and> handles_ok (fst y) (snd y)"
  by (induction rule: rtranclp_induct) (auto dest: mem_step_ok)

text \<open>
  C39: In every run of the memory storage, with any operations in any order and handles used after
  being closed, no two descriptors share a file, no name and no handle refers to a file that does
  not exist, and no handle is ever marked closed.
\<close>

theorem mem_runs_well_formed:
  assumes "mem_step\<^sup>*\<^sup>* (NewMemStorage, []) (s, hs)"
  shows "distinct (map fst (ms_files s)) \<and>
    (\<forall>x a. gm_get (ms_files s) x = Some a \<longrightarrow> a < length (ms_heap s)) \<and>
    (\<forall>x y a. gm_get (ms_files s) x = Some a \<longrightarrow> gm_get (ms_files s) y = Some a \<longrightarrow> x = y) \<and>
    (\<forall>h\<in>set hs. mh_file h < length (ms_heap s) \<and> \<not> mh_closed h)"
proof -
  have "mem_ok s \<and> handles_ok s hs"
    using mem_reach_ok [OF assms] mem_ok_new by (simp add: handles_ok_def)
  then show ?thesis by (auto simp: mem_ok_def gm_ok_def handles_ok_def)
qed

lemma mem_runs_well_formed_witness:
  "\<exists>h s. mem_Create \<lparr>fd_type = TypeTable, fd_num = 1\<rparr> NewMemStorage = (Inr h, s) \<and> mh_file h < length (ms_heap s)"
proof -
  let ?fd = "\<lparr>fd_type = TypeTable, fd_num = 1\<rparr>"
  obtain h s where c: "mem_Create ?fd NewMemStorage = (Inr h, s)"
    by (simp add: mem_Create_def NewMemStorage_def FileDescOk_def file_type_defs Let_def)
  have "mem_step (NewMemStorage, []) (s, [h])" by (rule mem_step.create [OF c])
  then have "mem_step\<^sup>*\<^sup>* (NewMemStorage, []) (s, [h])" by (rule r_into_rtranclp)
  from mem_runs_well_formed [OF this] c show ?thesis by auto
qed

end
