(* ===== verification/Mem_Alias.thy ===== *)
theory Mem_Alias
  imports Mem_Storage
begin

text \<open>
  The files of the memory storage with their arrays.  A file is a \<open>bytes.Buffer\<close>, a slice of an
  array; a reader is a slice of the same array, made when it is opened, so what is written to
  the file later may show in what the reader reads.  \<open>Mem_Storage\<close> gives the reader a
  copy of the contents; here is when that is right.
\<close>

subsection \<open>State\<close>

text \<open>A slice: the number of its array and its length.  Buffers of files are never read from, so they begin at 0.\<close>

type_synonym mem_slice = "nat \<times> nat"

text \<open>A reader has its slice, a writer none; \<open>hd_closes\<close> counts the calls of \<open>Close\<close>.\<close>

record mem_hnd =
  hd_handle :: mem_handle
  hd_reader :: "mem_slice option"
  hd_closes :: nat

record mem_sys =
  y_store :: mem_storage
  y_arrays :: "byte list list"
  y_bufs :: "mem_slice list"
  y_handles :: "mem_hnd list"

definition slice_bytes :: "byte list list \<Rightarrow> mem_slice \<Rightarrow> byte list" where
  "slice_bytes arrays sl = take (snd sl) (arrays ! fst sl)"

definition y_start :: mem_sys where
  "y_start = \<lparr>y_store = NewMemStorage, y_arrays = [], y_bufs = [], y_handles = []\<rparr>"

subsection \<open>Operations on the arrays\<close>

text \<open>\<open>Write\<close> of the buffer: in place if there is room, else in a new array with \<open>extra\<close> bytes of room.\<close>

definition buf_Write :: "nat \<Rightarrow> nat \<Rightarrow> byte list \<Rightarrow> mem_sys \<Rightarrow> mem_sys" where
  "buf_Write extra a bs y =
     (case y_bufs y ! a of (r, n) \<Rightarrow>
        if n + length bs \<le> length (y_arrays y ! r)
        then y\<lparr>y_arrays := (y_arrays y)[r := overwrite (y_arrays y ! r) n bs],
               y_bufs := (y_bufs y)[a := (r, n + length bs)]\<rparr>
        else y\<lparr>y_arrays := y_arrays y @ [take n (y_arrays y ! r) @ bs @ replicate extra 0],
               y_bufs := (y_bufs y)[a := (length (y_arrays y), n + length bs)]\<rparr>)"

text \<open>What \<open>Create\<close> does: a new buffer for a new file, \<open>Reset\<close> for an old one, which keeps the array.\<close>

definition buf_Create :: "nat \<Rightarrow> mem_sys \<Rightarrow> mem_sys" where
  "buf_Create a y =
     (if a = length (y_bufs y)
      then y\<lparr>y_arrays := y_arrays y @ [[]], y_bufs := y_bufs y @ [(length (y_arrays y), 0)]\<rparr>
      else y\<lparr>y_bufs := (y_bufs y)[a := (fst (y_bufs y ! a), 0)]\<rparr>)"

text \<open>A reader that has been opened, with the storage after it.\<close>

definition al_Open :: "mem_handle \<Rightarrow> mem_storage \<Rightarrow> mem_sys \<Rightarrow> mem_sys" where
  "al_Open h s' y = y\<lparr>y_store := s',
     y_handles := y_handles y @ [\<lparr>hd_handle = h, hd_reader = Some (y_bufs y ! mh_file h), hd_closes = 0\<rparr>]\<rparr>"

subsection \<open>Steps\<close>

text \<open>With \<open>once\<close> the clients write to open files only and close every handle once.\<close>

inductive al_step :: "bool \<Rightarrow> mem_sys \<Rightarrow> mem_sys \<Rightarrow> bool" for once where
  create: "mem_Create fd (y_store y) = (Inr h, s') \<Longrightarrow>
    al_step once y ((buf_Create (mh_file h) y)
      \<lparr>y_store := s', y_handles := y_handles y @ [\<lparr>hd_handle = h, hd_reader = None, hd_closes = 0\<rparr>]\<rparr>)"
| open_file: "mem_Open fd (y_store y) = (Inr (h, bs), s') \<Longrightarrow>
    al_step once y (al_Open h s' y)"
| write_file: "i < length (y_handles y) \<Longrightarrow> w = y_handles y ! i \<Longrightarrow> hd_reader w = None \<Longrightarrow> \<not> once \<or> hd_closes w = 0 \<Longrightarrow>
    al_step once y ((buf_Write extra (mh_file (hd_handle w)) bs y)
      \<lparr>y_store := mem_Write (hd_handle w) bs (y_store y)\<rparr>)"
| close: "i < length (y_handles y) \<Longrightarrow> w = y_handles y ! i \<Longrightarrow> \<not> once \<or> hd_closes w = 0 \<Longrightarrow>
    al_step once y (y\<lparr>y_store := snd (mem_Close_handle (hd_handle w) (y_store y)),
      y_handles := (y_handles y)[i := w\<lparr>hd_closes := Suc (hd_closes w)\<rparr>]\<rparr>)"
| remove: "al_step once y (y\<lparr>y_store := snd (mem_Remove fd (y_store y))\<rparr>)"
| rename: "al_step once y (y\<lparr>y_store := snd (mem_Rename old new (y_store y))\<rparr>)"

definition al_reachable :: "bool \<Rightarrow> mem_sys \<Rightarrow> bool" where
  "al_reachable once y \<longleftrightarrow> (al_step once)\<^sup>*\<^sup>* y_start y"

subsection \<open>The invariant\<close>

text \<open>Each file has an array of its own, which holds its contents.\<close>

definition bufs_ok :: "mem_sys \<Rightarrow> bool" where
  "bufs_ok y \<longleftrightarrow>
     mem_ok (y_store y) \<and> length (y_bufs y) = length (ms_heap (y_store y)) \<and> distinct (map fst (y_bufs y)) \<and>
     (\<forall>a<length (y_bufs y). fst (y_bufs y ! a) < length (y_arrays y) \<and>
        snd (y_bufs y ! a) \<le> length (y_arrays y ! fst (y_bufs y ! a)) \<and>
        slice_bytes (y_arrays y) (y_bufs y ! a) = mf_bytes (ms_heap (y_store y) ! a))"

lemma bufs_okD:
  assumes "bufs_ok y" and "a < length (y_bufs y)"
  shows "fst (y_bufs y ! a) < length (y_arrays y)" and "snd (y_bufs y ! a) \<le> length (y_arrays y ! fst (y_bufs y ! a))"
    and "slice_bytes (y_arrays y) (y_bufs y ! a) = mf_bytes (ms_heap (y_store y) ! a)"
  using assms by (auto simp: bufs_ok_def)

lemma distinct_fst_update:
  assumes "distinct (map fst xs)" and "r \<notin> fst ` set xs \<or> r = fst (xs ! a)"
  shows "distinct (map fst (xs[a := (r, n)]))"
proof (cases "a < length xs")
  case True
  have "map fst (xs[a := (r, n)]) = (map fst xs)[a := r]" by (simp add: map_update)
  moreover have "distinct ((map fst xs)[a := r])"
  proof (cases "r = fst (xs ! a)")
    case True
    then have "(map fst xs)[a := r] = map fst xs" using \<open>a < length xs\<close> by (simp add: list_update_same_conv)
    with assms(1) show ?thesis by simp
  next
    case False
    with assms have "r \<notin> set (map fst xs)" by auto
    then have "r \<notin> set (map fst xs) - {map fst xs ! a}" by blast
    with assms(1) show ?thesis by (rule distinct_list_update)
  qed
  ultimately show ?thesis by simp
qed (use assms(1) in \<open>simp add: list_update_beyond\<close>)

lemma distinct_fst_nth: "distinct (map fst xs) \<Longrightarrow> i < length xs \<Longrightarrow> j < length xs \<Longrightarrow> i \<noteq> j \<Longrightarrow> fst (xs ! i) \<noteq> fst (xs ! j)"
  by (metis length_map nth_eq_iff_index_eq nth_map)

text \<open>A write to one file leaves the slices in other arrays as they are, and the file has the new contents.\<close>

lemma buf_Write_fields:
  fixes bs :: "byte list" and extra :: nat
  assumes "bufs_ok y" and a: "a < length (y_bufs y)"
  defines "y' \<equiv> buf_Write extra a bs y"
  shows "slice_bytes (y_arrays y') (y_bufs y' ! a) = slice_bytes (y_arrays y) (y_bufs y ! a) @ bs"
    and "fst (y_bufs y' ! a) < length (y_arrays y')" and "snd (y_bufs y' ! a) \<le> length (y_arrays y' ! fst (y_bufs y' ! a))"
    and "length (y_bufs y') = length (y_bufs y)" and "distinct (map fst (y_bufs y'))" and "y_store y' = y_store y"
    and "y_handles y' = y_handles y"
    and "\<And>b. b < length (y_bufs y) \<Longrightarrow> b \<noteq> a \<Longrightarrow> y_bufs y' ! b = y_bufs y ! b \<and> fst (y_bufs y ! b) < length (y_arrays y') \<and>
      y_arrays y' ! fst (y_bufs y ! b) = y_arrays y ! fst (y_bufs y ! b)"
proof -
  obtain r n where rn: "y_bufs y ! a = (r, n)" by (cases "y_bufs y ! a")
  have r: "r < length (y_arrays y)" "n \<le> length (y_arrays y ! r)" using bufs_okD(1,2) [OF assms(1) a] rn by simp_all
  have dis: "distinct (map fst (y_bufs y))" using assms(1) by (simp add: bufs_ok_def)
  have other: "fst (y_bufs y ! b) \<noteq> r" "fst (y_bufs y ! b) < length (y_arrays y)" if "b < length (y_bufs y)" "b \<noteq> a" for b
    using distinct_fst_nth [OF dis that(1) a that(2)] rn bufs_okD(1) [OF assms(1) that(1)] by simp_all
  have new: "length (y_arrays y) \<notin> fst ` set (y_bufs y)"
    using bufs_okD(1) [OF assms(1)] by (auto simp: in_set_conv_nth) (metis fst_conv less_irrefl)
  note w = y'_def buf_Write_def rn prod.case
  show "slice_bytes (y_arrays y') (y_bufs y' ! a) = slice_bytes (y_arrays y) (y_bufs y ! a) @ bs"
    using a r by (simp add: w slice_bytes_def nth_append take_overwrite)
  show "fst (y_bufs y' ! a) < length (y_arrays y')" using a r by (simp add: w)
  show "snd (y_bufs y' ! a) \<le> length (y_arrays y' ! fst (y_bufs y' ! a))" using a r by (simp add: w)
  show "length (y_bufs y') = length (y_bufs y)" "y_store y' = y_store y" "y_handles y' = y_handles y" by (simp_all add: w)
  show "distinct (map fst (y_bufs y'))"
    using distinct_fst_update [OF dis, of r a] distinct_fst_update [OF dis, of "length (y_arrays y)" a] new rn by (simp add: w)
  show "y_bufs y' ! b = y_bufs y ! b \<and> fst (y_bufs y ! b) < length (y_arrays y') \<and>
      y_arrays y' ! fst (y_bufs y ! b) = y_arrays y ! fst (y_bufs y ! b)" if "b < length (y_bufs y)" "b \<noteq> a" for b
    using other [OF that] that by (auto simp: w nth_append)
qed

lemma buf_Write_ok:
  assumes ok: "bufs_ok y" and a: "mh_file h < length (y_bufs y)"
  shows "bufs_ok ((buf_Write extra (mh_file h) bs y)\<lparr>y_store := mem_Write h bs (y_store y)\<rparr>)"
proof -
  let ?y = "buf_Write extra (mh_file h) bs y"
  note f = buf_Write_fields [OF ok a, where bs = bs and extra = extra]
  have heap: "ms_heap (mem_Write h bs (y_store y)) =
      (ms_heap (y_store y))[mh_file h := (ms_heap (y_store y) ! mh_file h)\<lparr>mf_bytes := mf_bytes (ms_heap (y_store y) ! mh_file h) @ bs\<rparr>]"
    by (simp add: mem_Write_def Let_def)
  have len: "length (ms_heap (y_store y)) = length (y_bufs y)" using ok by (simp add: bufs_ok_def)
  have "fst (y_bufs ?y ! b) < length (y_arrays ?y) \<and>
      snd (y_bufs ?y ! b) \<le> length (y_arrays ?y ! fst (y_bufs ?y ! b)) \<and>
      slice_bytes (y_arrays ?y) (y_bufs ?y ! b) = mf_bytes (ms_heap (mem_Write h bs (y_store y)) ! b)"
    if b: "b < length (y_bufs y)" for b
  proof (cases "b = mh_file h")
    case True
    with f(1-3) bufs_okD(3) [OF ok a] a show ?thesis by (simp add: heap len)
  next
    case False
    with f(8) [OF b] bufs_okD [OF ok b] b show ?thesis by (simp add: heap slice_bytes_def)
  qed
  moreover have "mem_ok (mem_Write h bs (y_store y))" using ok by (intro mem_ok_Write) (simp add: bufs_ok_def)
  ultimately show ?thesis using f(4,5) by (simp add: bufs_ok_def mem_heap_length len)
qed

lemma buf_Create_ok:
  assumes ok: "bufs_ok y" and create: "mem_Create fd (y_store y) = (Inr h, s')"
  shows "bufs_ok ((buf_Create (mh_file h) y)\<lparr>y_store := s'\<rparr>)"
proof -
  have len: "length (ms_heap (y_store y)) = length (y_bufs y)" and dis: "distinct (map fst (y_bufs y))"
    using ok by (simp_all add: bufs_ok_def)
  have mem: "mem_ok s'" using mem_ok_Create [of "y_store y" fd] create ok by (simp add: bufs_ok_def)
  have new: "length (y_arrays y) \<notin> fst ` set (y_bufs y)"
    using bufs_okD(1) [OF ok] by (auto simp: in_set_conv_nth) (metis fst_conv less_irrefl)
  show ?thesis
  proof (cases "gm_get (ms_files (y_store y)) (packFile fd)")
    case None
    with create have h: "mh_file h = length (y_bufs y)" "ms_heap s' = ms_heap (y_store y) @ [\<lparr>mf_bytes = [], mf_open = True\<rparr>]"
      by (auto simp: mem_Create_def len Let_def split: if_splits)
    with bufs_okD [OF ok] mem dis new show ?thesis
      by (auto simp: bufs_ok_def buf_Create_def len nth_append slice_bytes_def less_Suc_eq)
  next
    case (Some a)
    with create have h: "mh_file h = a" "ms_heap s' = (ms_heap (y_store y))[a := \<lparr>mf_bytes = [], mf_open = True\<rparr>]"
      by (auto simp: mem_Create_def split: if_splits)
    have a: "a < length (y_bufs y)" using ok Some by (simp add: bufs_ok_def mem_ok_def)
    have "distinct (map fst ((y_bufs y)[a := (fst (y_bufs y ! a), 0)]))" by (rule distinct_fst_update [OF dis]) simp
    with bufs_okD [OF ok] mem a h show ?thesis
      by (auto simp: bufs_ok_def buf_Create_def len nth_list_update slice_bytes_def)
  qed
qed

lemma bufs_ok_store:
  assumes "bufs_ok y" and "mem_ok s'" and "map mf_bytes (ms_heap s') = map mf_bytes (ms_heap (y_store y))"
  shows "bufs_ok (y\<lparr>y_store := s'\<rparr>)"
proof -
  have len: "length (ms_heap s') = length (ms_heap (y_store y))" using assms(3) by (rule map_eq_imp_length_eq)
  have "mf_bytes (ms_heap s' ! a) = mf_bytes (ms_heap (y_store y) ! a)" if "a < length (ms_heap s')" for a
    using arg_cong [OF assms(3), of "\<lambda>xs. xs ! a"] that len by simp
  with assms(1,2) len show ?thesis by (auto simp: bufs_ok_def)
qed

subsection \<open>The handles\<close>

text \<open>A handle that is open is the only one of its file, and an open reader has the slice of its file.\<close>

definition hnd_open :: "mem_hnd \<Rightarrow> bool" where
  "hnd_open w \<longleftrightarrow> hd_closes w = 0"

definition hnd_ok :: "mem_sys \<Rightarrow> mem_hnd \<Rightarrow> bool" where
  "hnd_ok y w \<longleftrightarrow>
     mh_file (hd_handle w) < length (y_bufs y) \<and> \<not> mh_closed (hd_handle w) \<and>
     (hnd_open w \<longrightarrow> mf_open (ms_heap (y_store y) ! mh_file (hd_handle w)) \<and>
        (hd_reader w = None \<or> hd_reader w = Some (y_bufs y ! mh_file (hd_handle w))))"

definition open_files :: "mem_hnd list \<Rightarrow> nat list" where
  "open_files ws = map (\<lambda>w. mh_file (hd_handle w)) (filter hnd_open ws)"

definition hnds_ok :: "mem_sys \<Rightarrow> bool" where
  "hnds_ok y \<longleftrightarrow> bufs_ok y \<and> (\<forall>w\<in>set (y_handles y). hnd_ok y w) \<and> distinct (open_files (y_handles y))"

lemma open_files_append [simp]: "open_files (us @ ws) = open_files us @ open_files ws"
  by (simp add: open_files_def)

lemma open_files_Cons [simp]:
  "open_files (w # ws) = (if hnd_open w then mh_file (hd_handle w) # open_files ws else open_files ws)"
  by (simp add: open_files_def)

lemma open_files_Nil [simp]: "open_files [] = []"
  by (simp add: open_files_def)

lemma in_open_files: "w \<in> set ws \<Longrightarrow> hnd_open w \<Longrightarrow> mh_file (hd_handle w) \<in> set (open_files ws)"
  by (auto simp: open_files_def)

lemma open_files_inj:
  "distinct (open_files ws) \<Longrightarrow> v \<in> set ws \<Longrightarrow> w \<in> set ws \<Longrightarrow> hnd_open v \<Longrightarrow> hnd_open w \<Longrightarrow>
    mh_file (hd_handle v) = mh_file (hd_handle w) \<Longrightarrow> v = w"
  by (auto simp: open_files_def distinct_map inj_on_def)

lemma hnd_ok_mono:
  assumes "hnd_ok y w" and "length (y_bufs y) \<le> length (y_bufs y')"
    and "hnd_open w \<Longrightarrow> mf_open (ms_heap (y_store y) ! mh_file (hd_handle w)) \<Longrightarrow>
      mf_open (ms_heap (y_store y') ! mh_file (hd_handle w)) \<and>
      (hd_reader w = None \<or> y_bufs y' ! mh_file (hd_handle w) = y_bufs y ! mh_file (hd_handle w))"
  shows "hnd_ok y' w"
  using assms by (auto simp: hnd_ok_def)

text \<open>A file that is not open has no open handle.\<close>

lemma not_open_file:
  "hnds_ok y \<Longrightarrow> \<not> mf_open (ms_heap (y_store y) ! a) \<or> a \<ge> length (y_bufs y) \<Longrightarrow> a \<notin> set (open_files (y_handles y))"
  by (auto simp: hnds_ok_def hnd_ok_def open_files_def)

lemma hnds_ok_create:
  assumes ok: "hnds_ok y" and create: "mem_Create fd (y_store y) = (Inr h, s')"
  defines "y' \<equiv> (buf_Create (mh_file h) y)
      \<lparr>y_store := s', y_handles := y_handles y @ [\<lparr>hd_handle = h, hd_reader = None, hd_closes = 0\<rparr>]\<rparr>"
  shows "hnds_ok y'"
proof -
  have b: "bufs_ok y" and len: "length (ms_heap (y_store y)) = length (y_bufs y)"
    using ok by (simp_all add: hnds_ok_def bufs_ok_def)
  have "bufs_ok ((buf_Create (mh_file h) y)\<lparr>y_store := s'\<rparr>)" by (rule buf_Create_ok [OF b create])
  then have bufs: "bufs_ok y'" by (simp add: y'_def bufs_ok_def)
  have new: "\<not> mf_open (ms_heap (y_store y) ! mh_file h) \<or> mh_file h \<ge> length (y_bufs y)"
    and h: "mh_file h < length (y_bufs y')" "mf_open (ms_heap s' ! mh_file h)" "\<not> mh_closed h"
    and other: "\<And>a. a < length (y_bufs y) \<Longrightarrow> a \<noteq> mh_file h \<Longrightarrow> ms_heap s' ! a = ms_heap (y_store y) ! a \<and> y_bufs y' ! a = y_bufs y ! a"
    and grow: "length (y_bufs y) \<le> length (y_bufs y')"
    using create b len unfolding y'_def buf_Create_def
    by (auto simp: mem_Create_def Let_def nth_append bufs_ok_def mem_ok_def split: if_splits option.splits)
  have "hnd_ok y' w" if "w \<in> set (y_handles y)" for w
  proof (rule hnd_ok_mono [OF _ grow])
    show w: "hnd_ok y w" using ok that by (simp add: hnds_ok_def)
    assume o: "hnd_open w" "mf_open (ms_heap (y_store y) ! mh_file (hd_handle w))"
    with w new have "mh_file (hd_handle w) \<noteq> mh_file h" by (auto simp: hnd_ok_def)
    with w o other [of "mh_file (hd_handle w)"] show "mf_open (ms_heap (y_store y') ! mh_file (hd_handle w)) \<and>
        (hd_reader w = None \<or> y_bufs y' ! mh_file (hd_handle w) = y_bufs y ! mh_file (hd_handle w))"
      by (simp add: hnd_ok_def y'_def)
  qed
  moreover have "hnd_ok y' \<lparr>hd_handle = h, hd_reader = None, hd_closes = 0\<rparr>" using h by (simp add: hnd_ok_def y'_def)
  moreover have "distinct (open_files (y_handles y'))"
    using not_open_file [OF ok new] ok by (simp add: y'_def hnds_ok_def hnd_open_def)
  ultimately show ?thesis using bufs by (auto simp: hnds_ok_def y'_def)
qed


lemma hnds_ok_open_file:
  assumes ok: "hnds_ok y" and opened: "mem_Open fd (y_store y) = (Inr (h, bs), s')"
  shows "hnds_ok (al_Open h s' y)"
proof -
  define w where "w = \<lparr>hd_handle = h, hd_reader = Some (y_bufs y ! mh_file h), hd_closes = 0\<rparr>"
  let ?y = "y\<lparr>y_store := s', y_handles := y_handles y @ [w]\<rparr>"
  have b: "bufs_ok y" and m: "mem_ok (y_store y)" and len: "length (ms_heap (y_store y)) = length (y_bufs y)"
    using ok by (simp_all add: hnds_ok_def bufs_ok_def)
  have h: "mh_file h < length (y_bufs y)" "\<not> mf_open (ms_heap (y_store y) ! mh_file h)" "\<not> mh_closed h"
    and s': "s' = set_open (mh_file h) True (y_store y)"
    using opened m len by (auto simp: mem_Open_def mem_ok_def split: if_splits option.splits)
  have "mem_ok s'" using mem_ok_Open [OF m, of fd] opened by simp
  then have bufs: "bufs_ok ?y"
    using bufs_ok_store [OF b, of s'] by (simp add: s' set_open_def bufs_ok_def map_update list_update_same_conv len h)
  have "hnd_ok ?y v" if "v \<in> set (y_handles y)" for v
  proof (rule hnd_ok_mono)
    show "hnd_ok y v" using ok that by (simp add: hnds_ok_def)
  qed (use h in \<open>auto simp: s' set_open_def nth_list_update len\<close>)
  moreover have "hnd_ok ?y w" using h by (simp add: hnd_ok_def w_def s' set_open_def len)
  moreover have "distinct (open_files (y_handles y @ [w]))"
    using not_open_file [OF ok, of "mh_file h"] h ok by (simp add: hnds_ok_def w_def hnd_open_def)
  ultimately have "hnds_ok ?y" using bufs by (auto simp: hnds_ok_def)
  then show ?thesis by (simp add: al_Open_def w_def)
qed

lemma hnds_ok_write:
  assumes ok: "hnds_ok y" and w: "w \<in> set (y_handles y)" "hd_reader w = None" "hnd_open w"
  shows "hnds_ok ((buf_Write extra (mh_file (hd_handle w)) bs y)\<lparr>y_store := mem_Write (hd_handle w) bs (y_store y)\<rparr>)"
    (is "hnds_ok ?y")
proof -
  have b: "bufs_ok y" using ok by (simp add: hnds_ok_def)
  have a: "mh_file (hd_handle w) < length (y_bufs y)" using ok w by (simp add: hnds_ok_def hnd_ok_def)
  note f = buf_Write_fields [OF b a, where bs = bs and extra = extra]
  have "hnd_ok ?y v" if v: "v \<in> set (y_handles y)" for v
  proof (rule hnd_ok_mono)
    show vok: "hnd_ok y v" using ok v by (simp add: hnds_ok_def)
    show "length (y_bufs y) \<le> length (y_bufs ?y)" using f(4) by simp
    assume o: "hnd_open v" "mf_open (ms_heap (y_store y) ! mh_file (hd_handle v))"
    have "mh_file (hd_handle v) = mh_file (hd_handle w) \<Longrightarrow> v = w"
      using ok v w o open_files_inj [of "y_handles y" v w] by (simp add: hnds_ok_def)
    moreover have "length (ms_heap (y_store y)) = length (y_bufs y)" using b by (simp add: bufs_ok_def)
    ultimately show "mf_open (ms_heap (y_store ?y) ! mh_file (hd_handle v)) \<and>
        (hd_reader v = None \<or> y_bufs ?y ! mh_file (hd_handle v) = y_bufs y ! mh_file (hd_handle v))"
      using o w f(8) [of "mh_file (hd_handle v)"] vok
      by (cases "mh_file (hd_handle v) = mh_file (hd_handle w)")
         (auto simp: hnd_ok_def mem_Write_def Let_def nth_list_update)
  qed
  then show ?thesis using buf_Write_ok [OF b a] ok f(7) by (simp add: hnds_ok_def)
qed

lemma hnds_ok_close:
  assumes ok: "hnds_ok y" and i: "i < length (y_handles y)" and w: "w = y_handles y ! i" "hnd_open w"
  shows "hnds_ok (y\<lparr>y_store := snd (mem_Close_handle (hd_handle w) (y_store y)),
      y_handles := (y_handles y)[i := w\<lparr>hd_closes := Suc (hd_closes w)\<rparr>]\<rparr>)" (is "hnds_ok ?y")
proof -
  let ?w = "w\<lparr>hd_closes := Suc (hd_closes w)\<rparr>" and ?s = "snd (mem_Close_handle (hd_handle w) (y_store y))"
  obtain us vs where hs: "y_handles y = us @ w # vs" and hs': "y_handles ?y = us @ ?w # vs"
  proof
    show "y_handles y = take i (y_handles y) @ w # drop (Suc i) (y_handles y)" unfolding w(1) by (rule id_take_nth_drop [OF i])
    show "y_handles ?y = take i (y_handles y) @ ?w # drop (Suc i) (y_handles y)" using i by (simp add: upd_conv_take_nth_drop)
  qed
  have b: "bufs_ok y" and m: "mem_ok (y_store y)" and len: "length (ms_heap (y_store y)) = length (y_bufs y)"
    using ok by (simp_all add: hnds_ok_def bufs_ok_def)
  have wok: "hnd_ok y w" using ok hs by (simp add: hnds_ok_def)
  then have s: "?s = set_open (mh_file (hd_handle w)) False (y_store y)" by (simp add: hnd_ok_def mem_Close_handle_def)
  have bufs: "bufs_ok ?y"
    using bufs_ok_store [OF b mem_ok_Close [OF m, of "hd_handle w"]] wok
    by (simp add: s set_open_def bufs_ok_def map_update list_update_same_conv len hnd_ok_def)
  have files: "distinct (open_files us @ mh_file (hd_handle w) # open_files vs)" using ok hs w(2) by (simp add: hnds_ok_def)
  have "hnd_ok ?y v" if v: "v \<in> set us \<union> set vs" for v
  proof (rule hnd_ok_mono)
    show "hnd_ok y v" using ok v hs by (auto simp: hnds_ok_def)
    assume "hnd_open v"
    then have "mh_file (hd_handle v) \<noteq> mh_file (hd_handle w)" using v files by (auto dest: in_open_files)
    then show "mf_open (ms_heap (y_store y) ! mh_file (hd_handle v)) \<Longrightarrow> mf_open (ms_heap (y_store ?y) ! mh_file (hd_handle v)) \<and>
        (hd_reader v = None \<or> y_bufs ?y ! mh_file (hd_handle v) = y_bufs y ! mh_file (hd_handle v))"
      by (simp add: s set_open_def)
  qed simp
  moreover have "hnd_ok ?y ?w" using wok by (simp add: hnd_ok_def hnd_open_def)
  moreover have "distinct (open_files (y_handles ?y))" using files unfolding hs' by (simp add: hnd_open_def)
  ultimately show ?thesis using bufs hs' by (auto simp: hnds_ok_def)
qed

lemma hnds_ok_files:
  assumes "hnds_ok y" and "mem_ok s'" and "ms_heap s' = ms_heap (y_store y)"
  shows "hnds_ok (y\<lparr>y_store := s'\<rparr>)"
  using assms by (auto simp: hnds_ok_def bufs_ok_def hnd_ok_def)

lemma mem_heap_kept:
  "ms_heap (snd (mem_Remove fd s)) = ms_heap s" "ms_heap (snd (mem_Rename old new s)) = ms_heap s"
  by (auto simp: mem_Remove_def mem_Rename_def split: option.split)

lemma hnds_ok_step: "al_step True y y' \<Longrightarrow> hnds_ok y \<Longrightarrow> hnds_ok y'"
proof (induction rule: al_step.induct)
  case (close i y w)
  then show ?case by (intro hnds_ok_close) (simp_all add: hnd_open_def)
next
  case (remove y fd)
  then show ?case by (intro hnds_ok_files mem_ok_Remove mem_heap_kept) (simp_all add: hnds_ok_def bufs_ok_def)
next
  case (rename y old new)
  then show ?case by (intro hnds_ok_files mem_ok_Rename mem_heap_kept) (simp_all add: hnds_ok_def bufs_ok_def)
qed (auto intro!: hnds_ok_create hnds_ok_open_file hnds_ok_write simp: hnd_open_def)

lemma hnds_ok_reachable: "al_reachable True y \<Longrightarrow> hnds_ok y"
  unfolding al_reachable_def
proof (induction rule: rtranclp_induct)
  case base
  show ?case by (simp add: hnds_ok_def bufs_ok_def y_start_def mem_ok_new) (simp add: NewMemStorage_def)
qed (rule hnds_ok_step)


subsection \<open>Readers\<close>

lemma buf_handles [simp]: "y_handles (buf_Create a y) = y_handles y" "y_handles (buf_Write extra a bs y) = y_handles y"
  by (simp_all add: buf_Create_def buf_Write_def split: prod.split)

lemma handle_kept:
  assumes "al_step once y y'" and "i < length (y_handles y)"
  shows "i < length (y_handles y') \<and> hd_reader (y_handles y' ! i) = hd_reader (y_handles y ! i) \<and>
    hd_closes (y_handles y ! i) \<le> hd_closes (y_handles y' ! i)"
  using assms by (cases rule: al_step.cases) (auto simp: al_Open_def nth_append nth_list_update)

text \<open>No step changes what an open reader finds.\<close>

lemma reader_step:
  assumes step: "al_step True y y'" and ok: "hnds_ok y" and r: "r \<in> set (y_handles y)" "hnd_open r" "hd_reader r = Some sl"
  shows "slice_bytes (y_arrays y') sl = slice_bytes (y_arrays y) sl"
  using step
proof (cases rule: al_step.cases)
  let ?a = "mh_file (hd_handle r)"
  have b: "bufs_ok y" and sl: "sl = y_bufs y ! ?a" "?a < length (y_bufs y)"
    using ok r by (auto simp: hnds_ok_def hnd_ok_def)
  {
    case (create fd h s')
    with bufs_okD(1) [OF b sl(2)] sl show ?thesis by (simp add: buf_Create_def slice_bytes_def nth_append)
  next
    case (write_file j w extra bs)
    then have w: "w \<in> set (y_handles y)" "hnd_open w" "w \<noteq> r" using r(3) by (auto simp: hnd_open_def)
    then have "?a \<noteq> mh_file (hd_handle w)"
      using open_files_inj [of "y_handles y" w r] ok r by (auto simp: hnds_ok_def)
    moreover have "mh_file (hd_handle w) < length (y_bufs y)" using ok w(1) by (simp add: hnds_ok_def hnd_ok_def)
    ultimately show ?thesis
      using buf_Write_fields(8) [OF b _ sl(2), of "mh_file (hd_handle w)"] write_file(1) sl by (simp add: slice_bytes_def)
  }
qed (simp_all add: al_Open_def)

lemma reader_run:
  assumes "(al_step True)\<^sup>*\<^sup>* y y'" and "hnds_ok y" and "i < length (y_handles y)" and "hd_reader (y_handles y ! i) = Some sl"
  shows "hnds_ok y' \<and> i < length (y_handles y') \<and> hd_reader (y_handles y' ! i) = Some sl \<and>
    (hd_closes (y_handles y' ! i) = 0 \<longrightarrow> slice_bytes (y_arrays y') sl = slice_bytes (y_arrays y) sl)"
  using assms
proof (induction rule: rtranclp_induct)
  case (step z z')
  then have z: "hnds_ok z" "i < length (y_handles z)" "hd_reader (y_handles z ! i) = Some sl"
      "hd_closes (y_handles z ! i) = 0 \<longrightarrow> slice_bytes (y_arrays z) sl = slice_bytes (y_arrays y) sl" by simp_all
  note k = handle_kept [OF step.hyps(2) z(2)]
  have "slice_bytes (y_arrays z') sl = slice_bytes (y_arrays y) sl" if "hd_closes (y_handles z' ! i) = 0"
    using that k z(4) reader_step [OF step.hyps(2) z(1) _ _ z(3)] z(2) by (simp add: hnd_open_def)
  with k z hnds_ok_step [OF step.hyps(2)] show ?case by simp
qed simp

subsection \<open>One file\<close>

text \<open>The storage with one file, of the given contents and flag, the arrays, the buffer and the handles.\<close>

definition one_file :: "file_desc \<Rightarrow> byte list \<Rightarrow> bool \<Rightarrow> byte list list \<Rightarrow> mem_slice \<Rightarrow> mem_hnd list \<Rightarrow> mem_sys" where
  "one_file fd bs b arrays sl ws =
     \<lparr>y_store = \<lparr>ms_slock = None, ms_locks = 0, ms_files = gm_put (packFile fd) 0 [], ms_meta = zero_fd,
        ms_heap = [\<lparr>mf_bytes = bs, mf_open = b\<rparr>]\<rparr>,
      y_arrays = arrays, y_bufs = [sl], y_handles = ws\<rparr>"

definition hnd0 :: "mem_slice option \<Rightarrow> nat \<Rightarrow> mem_hnd" where
  "hnd0 sl closes = \<lparr>hd_handle = \<lparr>mh_file = 0, mh_closed = False\<rparr>, hd_reader = sl, hd_closes = closes\<rparr>"

lemmas one_file_defs = one_file_def hnd0_def map_simps

lemma one_file_first:
  assumes "FileDescOk fd"
  shows "al_step once y_start (one_file fd [] True [[]] (0, 0) [hnd0 None 0])"
  using al_step.create [of fd y_start "\<lparr>mh_file = 0, mh_closed = False\<rparr>" "y_store (one_file fd [] True [[]] (0, 0) [])" once] assms
  by (simp add: one_file_defs y_start_def NewMemStorage_def mem_Create_def buf_Create_def Let_def)

lemma one_file_create:
  assumes "FileDescOk fd"
  shows "al_step once (one_file fd bs False arrays (r, n) ws) (one_file fd [] True arrays (r, 0) (ws @ [hnd0 None 0]))"
  using al_step.create [of fd "one_file fd bs False arrays (r, n) ws" "\<lparr>mh_file = 0, mh_closed = False\<rparr>"
    "y_store (one_file fd [] True arrays (r, n) ws)" once] assms
  by (simp add: one_file_defs mem_Create_def buf_Create_def)

lemma one_file_open:
  assumes "FileDescOk fd"
  shows "mem_Open fd (y_store (one_file fd bs False arrays sl ws)) =
      (Inr (\<lparr>mh_file = 0, mh_closed = False\<rparr>, bs), y_store (one_file fd bs True arrays sl ws))"
    and "al_Open \<lparr>mh_file = 0, mh_closed = False\<rparr> (y_store (one_file fd bs True arrays sl ws)) (one_file fd bs False arrays sl ws) =
      one_file fd bs True arrays sl (ws @ [hnd0 (Some sl) 0])"
    and "al_step once (one_file fd bs False arrays sl ws) (one_file fd bs True arrays sl (ws @ [hnd0 (Some sl) 0]))"
proof -
  show opened: "mem_Open fd (y_store (one_file fd bs False arrays sl ws)) =
      (Inr (\<lparr>mh_file = 0, mh_closed = False\<rparr>, bs), y_store (one_file fd bs True arrays sl ws))"
    using assms by (simp add: one_file_defs mem_Open_def set_open_def)
  show al: "al_Open \<lparr>mh_file = 0, mh_closed = False\<rparr> (y_store (one_file fd bs True arrays sl ws)) (one_file fd bs False arrays sl ws) =
      one_file fd bs True arrays sl (ws @ [hnd0 (Some sl) 0])"
    by (simp add: one_file_defs al_Open_def)
  show "al_step once (one_file fd bs False arrays sl ws) (one_file fd bs True arrays sl (ws @ [hnd0 (Some sl) 0]))"
    using al_step.open_file [OF opened] al by simp
qed

lemma one_file_write:
  assumes "i < length ws" and "ws ! i = hnd0 None 0"
  shows "length old + length bs \<le> length (arrays ! r) \<Longrightarrow>
      al_step once (one_file fd old True arrays (r, length old) ws)
        (one_file fd (old @ bs) True (arrays[r := overwrite (arrays ! r) (length old) bs]) (r, length old + length bs) ws)"
    and "length (arrays ! r) < length old + length bs \<Longrightarrow>
      al_step once (one_file fd old True arrays (r, length old) ws)
        (one_file fd (old @ bs) True (arrays @ [take (length old) (arrays ! r) @ bs]) (length arrays, length old + length bs) ws)"
  using al_step.write_file [where y = "one_file fd old True arrays (r, length old) ws" and extra = 0 and bs = bs
      and i = i and once = once, OF _ refl] assms
  by (simp_all add: one_file_defs buf_Write_def mem_Write_def Let_def)

lemma one_file_close:
  assumes "i < length ws" and "ws ! i = hnd0 sl' n" and "\<not> once \<or> n = 0"
  shows "al_step once (one_file fd bs b arrays sl ws) (one_file fd bs False arrays sl (ws[i := hnd0 sl' (Suc n)]))"
  using al_step.close [where y = "one_file fd bs b arrays sl ws" and i = i and once = once, OF _ refl] assms
  by (simp add: one_file_defs mem_Close_handle_def set_open_def)

text \<open>The file with the contents \<open>[7]\<close>, written and closed.\<close>

lemma one_file_seven:
  assumes "FileDescOk fd"
  shows "al_reachable once (one_file fd [7] False [[], [7]] (1, 1) [hnd0 None 1])"
proof -
  have "al_step once (one_file fd [] True [[]] (0, 0) [hnd0 None 0]) (one_file fd [7] True [[], [7]] (1, 1) [hnd0 None 0])"
    using one_file_write(2) [of 0 "[hnd0 None 0]" "[[]]" 0 "[]" "[7]" once fd] by simp
  moreover have "al_step once (one_file fd [7] True [[], [7]] (1, 1) [hnd0 None 0]) (one_file fd [7] False [[], [7]] (1, 1) [hnd0 None 1])"
    using one_file_close [of 0 "[hnd0 None 0]" None 0 once] by simp
  ultimately show ?thesis
    unfolding al_reachable_def using one_file_first [OF assms, of once]
    by (meson rtranclp.rtrancl_refl rtranclp.rtrancl_into_rtrancl)
qed

text \<open>
  C14: If clients close every handle once and do not write to a closed one, a reader finds, until
  it is closed, exactly the contents the file had when it was opened, whatever is done to the
  storage meanwhile: files are reset and written in place, but not in an array that a reader has.
\<close>

theorem mem_reader_stable:
  assumes "al_reachable True y" and opened: "mem_Open fd (y_store y) = (Inr (h, bs), s')"
    and run: "(al_step True)\<^sup>*\<^sup>* (al_Open h s' y) y'" and "hd_closes (y_handles y' ! length (y_handles y)) = 0"
  shows "\<exists>sl. hd_reader (y_handles y' ! length (y_handles y)) = Some sl \<and> slice_bytes (y_arrays y') sl = bs"
proof -
  have ok: "hnds_ok y" using assms(1) by (rule hnds_ok_reachable)
  have "mh_file h < length (y_bufs y)" "bs = mf_bytes (ms_heap (y_store y) ! mh_file h)"
    using opened ok by (auto simp: mem_Open_def hnds_ok_def bufs_ok_def mem_ok_def split: if_splits option.splits)
  then have "slice_bytes (y_arrays (al_Open h s' y)) (y_bufs y ! mh_file h) = bs"
    using ok bufs_okD(3) [of y "mh_file h"] by (simp add: hnds_ok_def al_Open_def)
  moreover have "hnds_ok (al_Open h s' y)" by (rule hnds_ok_step [OF al_step.open_file [OF opened] ok])
  ultimately show ?thesis
    using reader_run [OF run, of "length (y_handles y)" "y_bufs y ! mh_file h"] assms(4) by (simp add: al_Open_def)
qed

lemma mem_reader_stable_witness:
  "\<exists>fd y1 y2 y3 sl. al_step True y1 y2 \<and> al_step True y2 y3 \<and> y_handles y1 = [hnd0 None 1, hnd0 (Some (1, 1)) 0] \<and>
     mem_load fd (y_store y3) = (Inl errFileOpen, y_store y3) \<and> hd_reader (y_handles y3 ! 1) = Some sl \<and> slice_bytes (y_arrays y3) sl = [7]"
proof -
  let ?fd = "\<lparr>fd_type = TypeTable, fd_num = 1\<rparr>" and ?A = "[[], [7]] :: byte list list" and ?ws = "[hnd0 None 1]"
  let ?h = "\<lparr>mh_file = 0, mh_closed = False\<rparr>" and ?h' = "\<lparr>mh_file = 1, mh_closed = False\<rparr>"
  have fd: "FileDescOk ?fd" by (simp add: FileDescOk_def file_type_defs)
  note opened = one_file_open(1,2) [OF fd, of "[7]" ?A "(1, 1)" ?ws]
  define y1 where "y1 = one_file ?fd [7] True ?A (1, 1) (?ws @ [hnd0 (Some (1, 1)) 0])"
  define y2 where "y2 = y1\<lparr>y_store := snd (mem_Remove ?fd (y_store y1))\<rparr>"
  define s3 where "s3 = snd (mem_Create ?fd (y_store y2))"
  define y3 where "y3 = (buf_Create 1 y2)\<lparr>y_store := s3, y_handles := y_handles y2 @ [\<lparr>hd_handle = ?h', hd_reader = None, hd_closes = 0\<rparr>]\<rparr>"
  note defs = y1_def y2_def one_file_defs mem_Remove_def fd
  have step2: "al_step True y1 y2" unfolding y2_def by (rule al_step.remove)
  have created: "mem_Create ?fd (y_store y2) = (Inr ?h', s3)" by (simp add: s3_def mem_Create_def defs Let_def)
  have step3: "al_step True y2 y3" using al_step.create [OF created, of True] by (simp add: y3_def)
  have hs: "y_handles y1 = [hnd0 None 1, hnd0 (Some (1, 1)) 0]" by (simp add: y1_def one_file_def)
  have load: "mem_load ?fd (y_store y3) = (Inl errFileOpen, y_store y3)"
    by (simp add: y3_def s3_def mem_load_def mem_Open_def mem_Create_def defs Let_def)
  have "(al_step True)\<^sup>*\<^sup>* y1 y3" using step2 step3 by (meson rtranclp.rtrancl_refl rtranclp.rtrancl_into_rtrancl)
  moreover have "hd_closes (y_handles y3 ! 1) = 0" by (simp add: y3_def y2_def hs hnd0_def)
  ultimately have "\<exists>sl. hd_reader (y_handles y3 ! 1) = Some sl \<and> slice_bytes (y_arrays y3) sl = [7]"
    using mem_reader_stable [OF one_file_seven [OF fd] opened(1), of y3] unfolding opened(2) y1_def [symmetric] by (simp add: one_file_def)
  with step2 step3 hs load show ?thesis by blast
qed

text \<open>
  A second \<open>Close\<close>, which the code does not refuse, is enough to break this: in some run the
  file is reset and written under an open reader, which then finds the new bytes.
\<close>

theorem mem_reader_unstable:
  assumes "FileDescOk fd"
  shows "\<exists>y h bs s' y' sl. al_reachable False y \<and> mem_Open fd (y_store y) = (Inr (h, bs), s') \<and>
    (al_step False)\<^sup>*\<^sup>* (al_Open h s' y) y' \<and> hd_closes (y_handles y' ! length (y_handles y)) = 0 \<and>
    hd_reader (y_handles y' ! length (y_handles y)) = Some sl \<and> slice_bytes (y_arrays y') sl \<noteq> bs"
proof -
  let ?A = "[[], [7]] :: byte list list" and ?c = "hnd0 None 1" and ?r = "hnd0 (Some (1, 1))"
  let ?y = "one_file fd [7] False ?A (1, 1) [?c, ?r 1]"
  have "(al_step False)\<^sup>*\<^sup>* (one_file fd [7] False ?A (1, 1) [?c]) ?y"
    using one_file_open(3) [OF assms, of False "[7]" ?A "(1, 1)" "[?c]"]
      one_file_close [of 1 "[?c, ?r 0]" "Some (1, 1)" 0 False fd "[7]" True ?A "(1, 1)"]
    by (simp add: rtranclp.rtrancl_into_rtrancl [OF r_into_rtranclp])
  with one_file_seven [OF assms, of False] have reach: "al_reachable False ?y"
    unfolding al_reachable_def by (rule rtranclp_trans)
  let ?y' = "one_file fd [2] True [[], [2]] (1, 1) [?c, ?r 2, ?r 0, hnd0 None 0]"
  have "al_step False (one_file fd [7] True ?A (1, 1) [?c, ?r 1, ?r 0]) (one_file fd [7] False ?A (1, 1) [?c, ?r 2, ?r 0])"
    using one_file_close [of 1 "[?c, ?r 1, ?r 0]" "Some (1, 1)" 1 False fd "[7]" True ?A "(1, 1)"] by (simp add: numeral_2_eq_2)
  moreover have "al_step False (one_file fd [7] False ?A (1, 1) [?c, ?r 2, ?r 0]) (one_file fd [] True ?A (1, 0) [?c, ?r 2, ?r 0, hnd0 None 0])"
    using one_file_create [OF assms, of False "[7]" ?A 1 1 "[?c, ?r 2, ?r 0]"] by simp
  moreover have "al_step False (one_file fd [] True ?A (1, 0) [?c, ?r 2, ?r 0, hnd0 None 0]) ?y'"
    using one_file_write(1) [of 3 "[?c, ?r 2, ?r 0, hnd0 None 0]" "[]" "[2]" ?A 1 False fd] by (simp add: overwrite_def)
  ultimately have run: "(al_step False)\<^sup>*\<^sup>* (one_file fd [7] True ?A (1, 1) [?c, ?r 1, ?r 0]) ?y'"
    by (meson rtranclp.rtrancl_refl rtranclp.rtrancl_into_rtrancl)
  note opened = one_file_open(1,2) [OF assms, of "[7]" ?A "(1, 1)" "[?c, ?r 1]"]
  show ?thesis
    by (rule exI [of _ ?y], intro exI conjI, rule reach, rule opened(1), subst opened(2))
       (use run in \<open>auto simp: one_file_defs slice_bytes_def\<close>)
qed

lemma mem_reader_unstable_witness:
  "\<exists>y h bs s' y' sl. al_reachable False y \<and> mem_Open \<lparr>fd_type = TypeTable, fd_num = 1\<rparr> (y_store y) = (Inr (h, bs), s') \<and>
    (al_step False)\<^sup>*\<^sup>* (al_Open h s' y) y' \<and> hd_closes (y_handles y' ! length (y_handles y)) = 0 \<and>
    hd_reader (y_handles y' ! length (y_handles y)) = Some sl \<and> slice_bytes (y_arrays y') sl \<noteq> bs"
  by (rule mem_reader_unstable) (simp add: FileDescOk_def file_type_defs)

end
