(* ===== verification/File_Storage.thy ===== *)
theory File_Storage
  imports File_Store Go_Collections
begin

text \<open>
  The file storage of \<open>taudb/storage/file_storage.go\<close> over a model of the operating system's
  file interface: a directory of named files, and a schedule of faults.  Every system call
  takes the next entry of the schedule; an empty schedule means that nothing fails.  All
  paths are names inside the storage's directory.  Contents are strings.  Lines for the log are
  collected in \<open>fs_logged\<close>; the file \<open>LOG\<close> they go to is modelled in \<open>File_Log\<close>.
\<close>

subsection \<open>State and system calls\<close>

text \<open>\<open>Fault e k\<close>: the call reports \<open>e\<close>; a write has put \<open>k\<close> bytes into the file before.\<close>

datatype fault = No_fault | Fault go_error nat

record file_storage =
  fs_readOnly :: bool
  fs_slock :: "nat option"
  fs_locks :: nat
  fs_open :: int
  fs_locked :: bool
  fs_files :: "(string, string) gomap"
  fs_faults :: "fault list"
  fs_logged :: "string list"

fun next_fault :: "file_storage \<Rightarrow> fault \<times> file_storage" where
  "next_fault s = (case fs_faults s of [] \<Rightarrow> (No_fault, s) | f # fs \<Rightarrow> (f, s\<lparr>fs_faults := fs\<rparr>))"

text \<open>A call without an effect on the files: \<open>Sync\<close>, \<open>Close\<close>, opening a directory.\<close>

definition sys_plain :: "file_storage \<Rightarrow> go_error option \<times> file_storage" where
  "sys_plain s = (case next_fault s of (Fault e k, s1) \<Rightarrow> (Some e, s1) | (No_fault, s1) \<Rightarrow> (None, s1))"

definition sys_stat :: "string \<Rightarrow> file_storage \<Rightarrow> go_error option \<times> file_storage" where
  "sys_stat name s =
     (case next_fault s of
        (Fault e k, s1) \<Rightarrow> (Some e, s1)
      | (No_fault, s1) \<Rightarrow> (if gm_get (fs_files s1) name = None then Some ErrNotExist else None, s1))"

definition sys_read :: "string \<Rightarrow> file_storage \<Rightarrow> (go_error + string) \<times> file_storage" where
  "sys_read name s =
     (case next_fault s of
        (Fault e k, s1) \<Rightarrow> (Inl e, s1)
      | (No_fault, s1) \<Rightarrow> (case gm_get (fs_files s1) name of None \<Rightarrow> (Inl ErrNotExist, s1) | Some b \<Rightarrow> (Inr b, s1)))"

definition put_file :: "string \<Rightarrow> string \<Rightarrow> file_storage \<Rightarrow> file_storage" where
  "put_file name b s = s\<lparr>fs_files := gm_put name b (fs_files s)\<rparr>"

text \<open>Opening with \<open>O_CREATE|O_TRUNC\<close>.\<close>

definition sys_create :: "string \<Rightarrow> file_storage \<Rightarrow> go_error option \<times> file_storage" where
  "sys_create name s =
     (case next_fault s of (Fault e k, s1) \<Rightarrow> (Some e, s1) | (No_fault, s1) \<Rightarrow> (None, put_file name '''' s1))"

definition file_of :: "string \<Rightarrow> file_storage \<Rightarrow> string" where
  "file_of name s = (case gm_get (fs_files s) name of None \<Rightarrow> '''' | Some b \<Rightarrow> b)"

definition sys_write :: "string \<Rightarrow> string \<Rightarrow> file_storage \<Rightarrow> (nat \<times> go_error option) \<times> file_storage" where
  "sys_write name data s =
     (case next_fault s of
        (Fault e k, s1) \<Rightarrow> ((min k (length data), Some e), put_file name (file_of name s1 @ take k data) s1)
      | (No_fault, s1) \<Rightarrow> ((length data, None), put_file name (file_of name s1 @ data) s1))"

definition sys_rename :: "string \<Rightarrow> string \<Rightarrow> file_storage \<Rightarrow> go_error option \<times> file_storage" where
  "sys_rename old new s =
     (case next_fault s of
        (Fault e k, s1) \<Rightarrow> (Some e, s1)
      | (No_fault, s1) \<Rightarrow>
          (case gm_get (fs_files s1) old of
             None \<Rightarrow> (Some ErrNotExist, s1)
           | Some b \<Rightarrow> (None, s1\<lparr>fs_files := gm_put new b (gm_del old (fs_files s1))\<rparr>)))"

definition sys_remove :: "string \<Rightarrow> file_storage \<Rightarrow> go_error option \<times> file_storage" where
  "sys_remove name s =
     (case next_fault s of
        (Fault e k, s1) \<Rightarrow> (Some e, s1)
      | (No_fault, s1) \<Rightarrow>
          (if gm_get (fs_files s1) name = None then (Some ErrNotExist, s1)
           else (None, s1\<lparr>fs_files := gm_del name (fs_files s1)\<rparr>)))"

subsection \<open>Helpers of the package\<close>

definition isErrInvalid :: "go_error \<Rightarrow> bool" where
  "isErrInvalid e \<longleftrightarrow> e = Plain_error ''invalid argument''"

definition syncDir :: "file_storage \<Rightarrow> go_error option \<times> file_storage" where
  "syncDir s =
     (case sys_plain s of
        (Some e, s1) \<Rightarrow> (Some e, s1)
      | (None, s1) \<Rightarrow>
          (case sys_plain s1 of
             (Some e, s2) \<Rightarrow> (if isErrInvalid e then None else Some e, snd (sys_plain s2))
           | (None, s2) \<Rightarrow> (None, snd (sys_plain s2))))"

text \<open>
  What a platform's file provides to the storage: \<open>rename\<close> and \<open>syncDir\<close>.  This is
  \<open>file_storage_unix.go\<close>; the others are in \<open>Platforms\<close>.
\<close>

record platform =
  pf_rename :: "string \<Rightarrow> string \<Rightarrow> file_storage \<Rightarrow> go_error option \<times> file_storage"
  pf_syncDir :: "file_storage \<Rightarrow> go_error option \<times> file_storage"

definition unix :: platform where
  "unix = \<lparr>pf_rename = sys_rename, pf_syncDir = syncDir\<rparr>"

definition writeFileSynced :: "string \<Rightarrow> string \<Rightarrow> file_storage \<Rightarrow> go_error option \<times> file_storage" where
  "writeFileSynced filename data s =
     (case sys_create filename s of
        (Some e, s1) \<Rightarrow> (Some e, s1)
      | (None, s1) \<Rightarrow>
          let ((n, e), s2) = sys_write filename data s1;
              err = (if e = None \<and> n < length data then Some ErrShortWrite else e);
              (e1, s3) = sys_plain s2;
              err = (if err = None then e1 else err);
              (e2, s4) = sys_plain s3;
              err = (if err = None then e2 else err)
          in (err, s4))"

definition os_text :: "go_error \<Rightarrow> string" where
  "os_text e = error_text (\<lambda>k. []) e"

definition fs_log :: "string \<Rightarrow> file_storage \<Rightarrow> file_storage" where
  "fs_log msg s = (if fs_readOnly s then s else s\<lparr>fs_logged := fs_logged s @ [msg]\<rparr>)"

text \<open>\<open>fsGenName\<close> where the type of the descriptor is known to be valid.\<close>

definition gen_name :: "file_desc \<Rightarrow> string" where
  "gen_name fd = (case fsGenName fd of Inr name \<Rightarrow> name | Inl p \<Rightarrow> '''')"

definition gen_old_name :: "file_desc \<Rightarrow> string" where
  "gen_old_name fd = (case fsGenOldName fd of Inr name \<Rightarrow> name | Inl p \<Rightarrow> '''')"

definition newline :: char where "newline = CHR 0x0A"
definition Current :: string where "Current = ''CURRENT''"
definition Current_bak :: string where "Current_bak = ''CURRENT.bak''"

definition pending_name :: "int \<Rightarrow> string" where
  "pending_name n = ''CURRENT.'' @ dec_int n"

subsection \<open>The current manifest\<close>

definition setMeta_replace :: "platform \<Rightarrow> file_desc \<Rightarrow> string \<Rightarrow> file_storage \<Rightarrow> go_error option \<times> file_storage" where
  "setMeta_replace pf fd line s =
     (let path = pending_name (fd_num fd) in
      case writeFileSynced path line s of
        (Some e, s1) \<Rightarrow> (Some e, fs_log (''create '' @ path @ '': '' @ os_text e) s1)
      | (None, s1) \<Rightarrow>
          (case pf_rename pf path Current s1 of
             (Some e, s2) \<Rightarrow> (Some e, fs_log (''rename '' @ path @ '': '' @ os_text e) s2)
           | (None, s2) \<Rightarrow>
               (case pf_syncDir pf s2 of
                  (Some e, s3) \<Rightarrow> (Some e, fs_log (''syncDir: '' @ os_text e) s3)
                | (None, s3) \<Rightarrow> (None, s3))))"

definition setMeta :: "platform \<Rightarrow> file_desc \<Rightarrow> file_storage \<Rightarrow> go_error option \<times> file_storage" where
  "setMeta pf fd s =
     (let line = gen_name fd @ [newline] in
      case sys_stat Current s of
        (None, s1) \<Rightarrow>
          (case sys_read Current s1 of
             (Inl e, s2) \<Rightarrow> (Some e, fs_log (''backup CURRENT: '' @ os_text e) s2)
           | (Inr b, s2) \<Rightarrow>
               if b = line then (None, s2)
               else
                 (case writeFileSynced Current_bak b s2 of
                    (Some e, s3) \<Rightarrow> (Some e, fs_log (''backup CURRENT: '' @ os_text e) s3)
                  | (None, s3) \<Rightarrow> setMeta_replace pf fd line s3))
      | (Some e, s1) \<Rightarrow> if e \<noteq> ErrNotExist then (Some e, s1) else setMeta_replace pf fd line s1)"

definition fs_SetMeta :: "platform \<Rightarrow> file_desc \<Rightarrow> file_storage \<Rightarrow> go_error option \<times> file_storage" where
  "fs_SetMeta pf fd s =
     (if \<not> FileDescOk fd then (Some ErrInvalidFile, s)
      else if fs_readOnly s then (Some errReadOnly, s)
      else if fs_open s < 0 then (Some ErrClosed, s)
      else setMeta pf fd s)"

definition corrupted_current :: go_error where
  "corrupted_current =
     Storage_ErrCorrupted zero_fd (Plain_error ''ipfsdb/storage: corrupted or incomplete CURRENT file'')"

definition tryCurrent :: "string \<Rightarrow> file_storage \<Rightarrow> (go_error + (string \<times> file_desc)) \<times> file_storage" where
  "tryCurrent name s =
     (case sys_read name s of
        (Inl e, s1) \<Rightarrow> (Inl e, s1)
      | (Inr b, s1) \<Rightarrow>
          (case (if b \<noteq> [] \<and> last b = newline then fsParseName (butlast b) else (zero_fd, False)) of
             (fd, False) \<Rightarrow> (Inl corrupted_current, fs_log (name @ '': corrupted content'') s1)
           | (fd, True) \<Rightarrow>
               (case sys_stat (gen_name fd) s1 of
                  (Some e, s2) \<Rightarrow>
                    (Inl e, if e = ErrNotExist then fs_log (name @ '': missing target file: '' @ fd_string fd) s2 else s2)
                | (None, s2) \<Rightarrow> (Inr (name, fd), s2))))"

fun tryCurrents ::
  "string list \<Rightarrow> go_error option \<Rightarrow> file_storage \<Rightarrow> (go_error + (string \<times> file_desc)) \<times> file_storage" where
  "tryCurrents [] lastCerr s = (Inl (case lastCerr of None \<Rightarrow> ErrNotExist | Some e \<Rightarrow> e), s)"
| "tryCurrents (name # names) lastCerr s =
     (case tryCurrent name s of
        (Inr cur, s1) \<Rightarrow> (Inr cur, s1)
      | (Inl e, s1) \<Rightarrow>
          if e = ErrNotExist then tryCurrents names lastCerr s1
          else if storage_isCorrupted e then tryCurrents names (Some e) s1
          else (Inl e, s1))"

text \<open>The numbers of the files \<open>CURRENT.n\<close>, in descending order.\<close>

definition pending_num :: "string \<Rightarrow> int list" where
  "pending_num name =
     (if has_prefix name ''CURRENT.'' \<and> name \<noteq> Current_bak
      then (case parse_int64 (drop 8 name) of None \<Rightarrow> [] | Some i \<Rightarrow> [i])
      else [])"

definition pending_nums :: "string list \<Rightarrow> int list" where
  "pending_nums names = rev (sort (concat (map pending_num names)))"

fun remove_pending :: "string list \<Rightarrow> file_storage \<Rightarrow> file_storage" where
  "remove_pending [] s = s"
| "remove_pending (name # names) s =
     (case sys_remove name s of
        (Some e, s1) \<Rightarrow> remove_pending names (fs_log (''remove '' @ name @ '': '' @ os_text e) s1)
      | (None, s1) \<Rightarrow> remove_pending names s1)"

definition fatal :: "go_error \<Rightarrow> bool" where
  "fatal e \<longleftrightarrow> e \<noteq> ErrNotExist \<and> \<not> storage_isCorrupted e"

text \<open>The second half of \<open>GetMeta\<close>: the choice between the two candidates and the repair.\<close>

definition choose_current ::
  "platform \<Rightarrow> string list \<Rightarrow> go_error + (string \<times> file_desc) \<Rightarrow> go_error + (string \<times> file_desc) \<Rightarrow> file_storage
   \<Rightarrow> (go_error + file_desc) \<times> file_storage" where
  "choose_current pf pendNames pend cur s =
     (let best = (case pend of
                    Inr (pname, pfd) \<Rightarrow>
                      (case cur of Inl e \<Rightarrow> pend | Inr (cname, cfd) \<Rightarrow> if fd_num cfd < fd_num pfd then pend else cur)
                  | Inl e \<Rightarrow> cur)
      in case best of
           Inr (name, fd) \<Rightarrow>
             if \<not> fs_readOnly s \<and> (name \<noteq> Current \<or> pendNames \<noteq> [])
             then (case setMeta pf fd s of
                     (None, s1) \<Rightarrow> (Inr fd, remove_pending pendNames s1)
                   | (Some e, s1) \<Rightarrow> (Inr fd, s1))
             else (Inr fd, s)
         | Inl e \<Rightarrow>
             (case pend of
                Inl pe \<Rightarrow> (if storage_isCorrupted pe then Inl pe else Inl e, s)
              | Inr p \<Rightarrow> (Inl e, s)))"

definition read_names :: "file_storage \<Rightarrow> (go_error + string list) \<times> file_storage" where
  "read_names s =
     (case sys_plain s of
        (Some e, s1) \<Rightarrow> (Inl e, s1)
      | (None, s1) \<Rightarrow>
          let (e, s2) = sys_plain s1;
              (ce, s3) = sys_plain s2;
              s4 = (case ce of None \<Rightarrow> s3 | Some c \<Rightarrow> fs_log (''close dir: '' @ os_text c) s3)
          in (case e of Some err \<Rightarrow> (Inl err, s4) | None \<Rightarrow> (Inr (map fst (fs_files s4)), s4)))"

definition fs_GetMeta :: "platform \<Rightarrow> file_storage \<Rightarrow> (go_error + file_desc) \<times> file_storage" where
  "fs_GetMeta pf s =
     (if fs_open s < 0 then (Inl ErrClosed, s)
      else case read_names s of
             (Inl e, s1) \<Rightarrow> (Inl e, s1)
           | (Inr names, s1) \<Rightarrow>
               let pendNames = map pending_name (pending_nums names);
                   (pend, s2) = (if pendNames = [] then (Inl ErrNotExist, s1) else tryCurrents pendNames None s1)
               in case pend of
                    Inl pe \<Rightarrow>
                      if fatal pe then (Inl pe, s2)
                      else (case tryCurrents [Current, Current_bak] None s2 of
                              (cur, s3) \<Rightarrow>
                                (case cur of
                                   Inl ce \<Rightarrow> if fatal ce then (Inl ce, s3) else choose_current pf pendNames pend cur s3
                                 | Inr c \<Rightarrow> choose_current pf pendNames pend cur s3))
                  | Inr p \<Rightarrow>
                      (case tryCurrents [Current, Current_bak] None s2 of
                         (cur, s3) \<Rightarrow>
                           (case cur of
                              Inl ce \<Rightarrow> if fatal ce then (Inl ce, s3) else choose_current pf pendNames pend cur s3
                            | Inr c \<Rightarrow> choose_current pf pendNames pend cur s3)))"

subsection \<open>Locks and files\<close>

text \<open>A read-only storage hands out locks that lock nothing, here \<open>None\<close>.\<close>

definition fs_Lock :: "file_storage \<Rightarrow> (go_error + nat option) \<times> file_storage" where
  "fs_Lock s =
     (if fs_open s < 0 then (Inl ErrClosed, s)
      else if fs_readOnly s then (Inr None, s)
      else if fs_slock s \<noteq> None then (Inl ErrLocked, s)
      else (Inr (Some (fs_locks s)), s\<lparr>fs_slock := Some (fs_locks s), fs_locks := Suc (fs_locks s)\<rparr>))"

definition fs_Unlock :: "nat option \<Rightarrow> file_storage \<Rightarrow> file_storage" where
  "fs_Unlock lock s = (if lock \<noteq> None \<and> fs_slock s = lock then s\<lparr>fs_slock := None\<rparr> else s)"

record file_wrap =
  fw_name :: string
  fw_fd :: file_desc
  fw_closed :: bool

definition sys_open :: "string \<Rightarrow> file_storage \<Rightarrow> go_error option \<times> file_storage" where
  "sys_open name s = sys_stat name s"

definition opened :: "string \<Rightarrow> file_desc \<Rightarrow> file_storage \<Rightarrow> (go_error + file_wrap) \<times> file_storage" where
  "opened name fd s = (Inr \<lparr>fw_name = name, fw_fd = fd, fw_closed = False\<rparr>, s\<lparr>fs_open := fs_open s + 1\<rparr>)"

definition fs_Open :: "file_desc \<Rightarrow> file_storage \<Rightarrow> (go_error + file_wrap) \<times> file_storage" where
  "fs_Open fd s =
     (if \<not> FileDescOk fd then (Inl ErrInvalidFile, s)
      else if fs_open s < 0 then (Inl ErrClosed, s)
      else case sys_open (gen_name fd) s of
             (None, s1) \<Rightarrow> opened (gen_name fd) fd s1
           | (Some e, s1) \<Rightarrow>
               if fsHasOldName fd \<and> e = ErrNotExist
               then (case sys_open (gen_old_name fd) s1 of
                       (None, s2) \<Rightarrow> opened (gen_old_name fd) fd s2
                     | (Some e1, s2) \<Rightarrow> (Inl e1, s2))
               else (Inl e, s1))"

definition fs_Create :: "file_desc \<Rightarrow> file_storage \<Rightarrow> (go_error + file_wrap) \<times> file_storage" where
  "fs_Create fd s =
     (if \<not> FileDescOk fd then (Inl ErrInvalidFile, s)
      else if fs_readOnly s then (Inl errReadOnly, s)
      else if fs_open s < 0 then (Inl ErrClosed, s)
      else case sys_create (gen_name fd) s of
             (Some e, s1) \<Rightarrow> (Inl e, s1)
           | (None, s1) \<Rightarrow> opened (gen_name fd) fd s1)"

definition fs_Remove :: "file_desc \<Rightarrow> file_storage \<Rightarrow> go_error option \<times> file_storage" where
  "fs_Remove fd s =
     (if \<not> FileDescOk fd then (Some ErrInvalidFile, s)
      else if fs_readOnly s then (Some errReadOnly, s)
      else if fs_open s < 0 then (Some ErrClosed, s)
      else case sys_remove (gen_name fd) s of
             (None, s1) \<Rightarrow> (None, s1)
           | (Some e, s1) \<Rightarrow>
               if fsHasOldName fd \<and> e = ErrNotExist
               then (case sys_remove (gen_old_name fd) s1 of
                       (Some ErrNotExist, s2) \<Rightarrow> (Some e, s2)
                     | (e1, s2) \<Rightarrow>
                         (e1, fs_log (''remove '' @ fd_string fd @ '': '' @ os_text e @ '' (old name)'') s2))
               else (Some e, fs_log (''remove '' @ fd_string fd @ '': '' @ os_text e) s1))"

definition fs_Rename :: "platform \<Rightarrow> file_desc \<Rightarrow> file_desc \<Rightarrow> file_storage \<Rightarrow> go_error option \<times> file_storage" where
  "fs_Rename pf oldfd newfd s =
     (if \<not> FileDescOk oldfd \<or> \<not> FileDescOk newfd then (Some ErrInvalidFile, s)
      else if oldfd = newfd then (None, s)
      else if fs_readOnly s then (Some errReadOnly, s)
      else if fs_open s < 0 then (Some ErrClosed, s)
      else pf_rename pf (gen_name oldfd) (gen_name newfd) s)"

definition fs_List :: "int \<Rightarrow> file_storage \<Rightarrow> (go_error + file_desc list) \<times> file_storage" where
  "fs_List ft s =
     (if fs_open s < 0 then (Inl ErrClosed, s)
      else case read_names s of
             (Inl e, s1) \<Rightarrow> (Inl e, s1)
           | (Inr names, s1) \<Rightarrow>
               (Inr (concat (map (\<lambda>name. case fsParseName name of
                       (fd, ok) \<Rightarrow> if ok \<and> fd_type fd AND ft \<noteq> 0 then [fd] else []) names)), s1))"

text \<open>
  \<open>Close\<close> releases the file lock, which can fail; the storage is closed all the same.  \<open>logw\<close> says
  whether the log is open: it is not in a read-only storage, or when \<open>doLog\<close> could not open it again.
\<close>

definition fs_Close :: "bool \<Rightarrow> file_storage \<Rightarrow> go_error option \<times> file_storage" where
  "fs_Close logw s =
     (if fs_open s < 0 then (Some ErrClosed, s)
      else
        let s1 = (if 0 < fs_open s then fs_log (''close: warning, '' @ dec_int (fs_open s) @ '' files still open'') s else s);
            s2 = s1\<lparr>fs_open := -1\<rparr>;
            s3 = (if logw then snd (sys_plain s2) else s2)
        in case sys_plain s3 of
             (Some e, s4) \<Rightarrow> (Some e, s4)
           | (None, s4) \<Rightarrow> (case sys_plain s4 of (r, s5) \<Rightarrow> (r, s5\<lparr>fs_locked := False\<rparr>)))"

definition fw_Sync :: "platform \<Rightarrow> file_wrap \<Rightarrow> file_storage \<Rightarrow> go_error option \<times> file_storage" where
  "fw_Sync pf w s =
     (if fw_closed w then (Some (Plain_error ''file already closed''), s)
      else case sys_plain s of
        (Some e, s1) \<Rightarrow> (Some e, s1)
      | (None, s1) \<Rightarrow>
          if fd_type (fw_fd w) = TypeManifest
          then (case pf_syncDir pf s1 of
                  (Some e, s2) \<Rightarrow> (Some e, fs_log (''syncDir: '' @ os_text e) s2)
                | (None, s2) \<Rightarrow> (None, s2))
          else (None, s1))"

definition fw_Close :: "file_wrap \<Rightarrow> file_storage \<Rightarrow> (go_error option \<times> file_wrap) \<times> file_storage" where
  "fw_Close w s =
     (if fw_closed w then ((Some ErrClosed, w), s)
      else case sys_plain (s\<lparr>fs_open := fs_open s - 1\<rparr>) of
             (Some e, s1) \<Rightarrow> ((Some e, w\<lparr>fw_closed := True\<rparr>), fs_log (''close '' @ fd_string (fw_fd w) @ '': '' @ os_text e) s1)
           | (None, s1) \<Rightarrow> ((None, w\<lparr>fw_closed := True\<rparr>), s1))"

end
