(* ===== verification/File_Calls.thy ===== *)
theory File_Calls
  imports File_Storage
begin

text \<open>
  What the system calls of the file storage change and what they do when nothing fails, and the
  contract of a platform's \<open>rename\<close> and \<open>syncDir\<close>, which Unix provides.
\<close>

named_theorems quiet_simps "system calls when no fault is scheduled"

lemma sys_quiet [quiet_simps]:
  assumes "fs_faults s = []"
  shows "sys_plain s = (None, s)"
    and "sys_stat name s = (if gm_get (fs_files s) name = None then Some ErrNotExist else None, s)"
    and "sys_read name s = (case gm_get (fs_files s) name of None \<Rightarrow> (Inl ErrNotExist, s) | Some b \<Rightarrow> (Inr b, s))"
    and "sys_create name s = (None, put_file name '''' s)"
    and "sys_write name data s = ((length data, None), put_file name (file_of name s @ data) s)"
    and "sys_remove name s = (if gm_get (fs_files s) name = None then (Some ErrNotExist, s)
      else (None, s\<lparr>fs_files := gm_del name (fs_files s)\<rparr>))"
    and "sys_rename old new s = (case gm_get (fs_files s) old of None \<Rightarrow> (Some ErrNotExist, s)
      | Some b \<Rightarrow> (None, s\<lparr>fs_files := gm_put new b (gm_del old (fs_files s))\<rparr>))"
  using assms
  by (simp_all add: sys_plain_def sys_stat_def sys_read_def sys_create_def sys_write_def sys_remove_def sys_rename_def)

lemma put_file_quiet [simp]: "fs_faults (put_file name b s) = fs_faults s" "fs_open (put_file name b s) = fs_open s"
  "fs_readOnly (put_file name b s) = fs_readOnly s" "fs_files (put_file name b s) = gm_put name b (fs_files s)"
  by (simp_all add: put_file_def)

lemma fs_log_same [simp]: "fs_faults (fs_log m s) = fs_faults s" "fs_open (fs_log m s) = fs_open s"
  "fs_readOnly (fs_log m s) = fs_readOnly s" "fs_files (fs_log m s) = fs_files s"
  by (simp_all add: fs_log_def)

subsection \<open>What system calls change\<close>

text \<open>\<open>kept X s s'\<close>: only files named in \<open>X\<close> and the schedule may have changed.\<close>

definition kept :: "string set \<Rightarrow> file_storage \<Rightarrow> file_storage \<Rightarrow> bool" where
  "kept X s s' \<longleftrightarrow>
     fs_open s' = fs_open s \<and> fs_readOnly s' = fs_readOnly s \<and> (gm_ok (fs_files s) \<longrightarrow> gm_ok (fs_files s')) \<and>
     (\<forall>x. x \<notin> X \<longrightarrow> gm_get (fs_files s') x = gm_get (fs_files s) x)"

lemma kept_refl [simp]: "kept X s s"
  by (simp add: kept_def)

lemma kept_trans: "kept X s t \<Longrightarrow> kept Y t u \<Longrightarrow> kept (X \<union> Y) s u"
  by (auto simp: kept_def)

lemma kept_mono: "kept X s s' \<Longrightarrow> X \<subseteq> Y \<Longrightarrow> kept Y s s'"
  by (auto simp: kept_def)

lemma kept_get: "kept X s s' \<Longrightarrow> x \<notin> X \<Longrightarrow> gm_get (fs_files s') x = gm_get (fs_files s) x"
  by (simp add: kept_def)

lemma kept_log [simp]: "kept X s (fs_log m s') = kept X s s'"
  by (simp add: kept_def)

lemma next_fault_kept: "next_fault s = (f, s') \<Longrightarrow> kept {} s s'"
  by (auto simp: kept_def split: list.splits)

lemma sys_plain_kept: "sys_plain s = (r, s') \<Longrightarrow> kept {} s s'"
  by (auto simp: sys_plain_def kept_def split: list.splits fault.splits)

lemma sys_stat_kept: "sys_stat n s = (r, s') \<Longrightarrow> kept {} s s'"
  by (auto simp: sys_stat_def kept_def split: list.splits fault.splits)

lemma sys_stat_None: "sys_stat n s = (None, s') \<Longrightarrow> gm_get (fs_files s') n \<noteq> None"
  by (auto simp: sys_stat_def split: list.splits fault.splits if_splits)

lemma sys_read_kept: "sys_read n s = (r, s') \<Longrightarrow> kept {} s s'"
  by (auto simp: sys_read_def kept_def split: list.splits fault.splits option.splits)

lemma sys_read_Inr: "sys_read n s = (Inr b, s') \<Longrightarrow> gm_get (fs_files s') n = Some b"
  by (auto simp: sys_read_def split: list.splits fault.splits option.splits)

lemma sys_create_spec:
  "sys_create n s = (r, s') \<Longrightarrow> kept {n} s s' \<and> (r = None \<longrightarrow> gm_get (fs_files s') n = Some '''') \<and>
   (r \<noteq> None \<longrightarrow> gm_get (fs_files s') n = gm_get (fs_files s) n)"
  by (auto simp: sys_create_def kept_def map_simps split: list.splits fault.splits)

lemma sys_write_spec:
  assumes "sys_write n data s = ((k, e), s')" and "gm_get (fs_files s) n = Some ''''"
  shows "kept {n} s s'" and "\<exists>j. gm_get (fs_files s') n = Some (take j data)"
    and "e = None \<Longrightarrow> gm_get (fs_files s') n = Some data \<and> k = length data"
  using assms
  by (auto simp: sys_write_def kept_def map_simps file_of_def split: list.splits fault.splits)
    (metis order_refl take_all)+

lemma syncDir_kept: "syncDir s = (r, s') \<Longrightarrow> kept {} s s'"
proof -
  assume run: "syncDir s = (r, s')"
  obtain e1 s1 where 1: "sys_plain s = (e1, s1)" by (cases "sys_plain s")
  obtain e2 s2 where 2: "sys_plain s1 = (e2, s2)" by (cases "sys_plain s1")
  obtain e3 s3 where 3: "sys_plain s2 = (e3, s3)" by (cases "sys_plain s2")
  from run 1 2 3 have "s' = s1 \<or> s' = s3" by (auto simp: syncDir_def split: option.splits)
  then show ?thesis
    using kept_trans [OF kept_trans [OF sys_plain_kept [OF 1] sys_plain_kept [OF 2]] sys_plain_kept [OF 3]]
      sys_plain_kept [OF 1] by auto
qed

text \<open>A file written with faults is untouched or holds a beginning of the data.\<close>

lemma writeFileSynced_spec:
  assumes "writeFileSynced n data s = (r, s')"
  shows "kept {n} s s'"
    and "gm_get (fs_files s') n = gm_get (fs_files s) n \<or> (\<exists>k. gm_get (fs_files s') n = Some (take k data))"
    and "r = None \<Longrightarrow> gm_get (fs_files s') n = Some data"
proof -
  obtain e0 s1 where c: "sys_create n s = (e0, s1)" by (cases "sys_create n s")
  note c' = sys_create_spec [OF c]
  have all: "kept {n} s s' \<and>
      (gm_get (fs_files s') n = gm_get (fs_files s) n \<or> (\<exists>k. gm_get (fs_files s') n = Some (take k data))) \<and>
      (r = None \<longrightarrow> gm_get (fs_files s') n = Some data)"
  proof (cases e0)
    case (Some e)
    with assms c c' show ?thesis by (auto simp: writeFileSynced_def)
  next
    case None
    obtain k e s2 where w: "sys_write n data s1 = ((k, e), s2)" by (cases "sys_write n data s1") auto
    obtain e1 s3 where p1: "sys_plain s2 = (e1, s3)" by (cases "sys_plain s2")
    obtain e2 s4 where p2: "sys_plain s3 = (e2, s4)" by (cases "sys_plain s3")
    note w' = sys_write_spec [OF w]
    have empty: "gm_get (fs_files s1) n = Some ''''" using c' None by simp
    have tail: "kept {} s2 s4" using kept_trans [OF sys_plain_kept [OF p1] sys_plain_kept [OF p2]] by simp
    have s': "s' = s4" and r: "r = None \<Longrightarrow> e = None"
      using assms c None w p1 p2 by (auto simp: writeFileSynced_def Let_def split: if_splits)
    have "kept {n} s s'"
      using kept_trans [OF kept_trans [OF conjunct1 [OF c'] w'(1) [OF empty]] tail] by (simp add: s')
    moreover have "gm_get (fs_files s') n = gm_get (fs_files s2) n" using kept_get [OF tail] s' by simp
    ultimately show ?thesis using w'(2,3) [OF empty] r by auto
  qed
  then show "kept {n} s s'"
    "gm_get (fs_files s') n = gm_get (fs_files s) n \<or> (\<exists>k. gm_get (fs_files s') n = Some (take k data))"
    "r = None \<Longrightarrow> gm_get (fs_files s') n = Some data" by blast+
qed

lemma sys_rename_spec:
  assumes "sys_rename a b s = (r, s')" and "a \<noteq> b"
  shows "kept {a, b} s s'"
    and "r \<noteq> None \<Longrightarrow> gm_get (fs_files s') x = gm_get (fs_files s) x"
    and "r = None \<Longrightarrow> gm_get (fs_files s') a = None \<and> gm_get (fs_files s') b = gm_get (fs_files s) a"
  using assms
  by (auto simp: sys_rename_def kept_def map_simps split: list.splits fault.splits option.splits)

subsection \<open>The contract of a platform\<close>

text \<open>
  A renaming that fails leaves the source as it is; with \<open>atomic\<close> it leaves the target as well,
  otherwise the target may be gone.  Names with a NUL are not promised anything.
\<close>

definition plain_name :: "string \<Rightarrow> bool" where
  "plain_name n \<longleftrightarrow> CHR 0x00 \<notin> set n"

locale platform_contract =
  fixes pf :: platform and atomic :: bool
  assumes ren_kept: "pf_rename pf a b s = (r, s') \<Longrightarrow> a \<noteq> b \<Longrightarrow> kept {a, b} s s'"
    and ren_moved: "pf_rename pf a b s = (None, s') \<Longrightarrow> a \<noteq> b \<Longrightarrow>
      gm_get (fs_files s') a = None \<and> gm_get (fs_files s') b = gm_get (fs_files s) a"
    and ren_failed: "pf_rename pf a b s = (Some e, s') \<Longrightarrow> a \<noteq> b \<Longrightarrow>
      gm_get (fs_files s') a = gm_get (fs_files s) a \<and>
      (gm_get (fs_files s') b = gm_get (fs_files s) b \<or> \<not> atomic \<and> gm_get (fs_files s') b = None)"
    and ren_quiet: "fs_faults s = [] \<Longrightarrow> a \<noteq> b \<Longrightarrow> plain_name a \<Longrightarrow> plain_name b \<Longrightarrow>
      gm_get (fs_files s) a \<noteq> None \<Longrightarrow> \<exists>s'. pf_rename pf a b s = (None, s') \<and> fs_faults s' = []"
    and sync_kept: "pf_syncDir pf s = (r, s') \<Longrightarrow> kept {} s s'"
    and sync_quiet: "fs_faults s = [] \<Longrightarrow> pf_syncDir pf s = (None, s)"
begin

text \<open>Whatever fails, what the source held is afterwards under one of the two names.\<close>

lemma content_survives:
  assumes "pf_rename pf a b s = (r, s')" and "a \<noteq> b" and "gm_get (fs_files s) a = Some c"
  shows "gm_get (fs_files s') a = Some c \<or> gm_get (fs_files s') b = Some c"
  using assms ren_moved [of a b s s'] ren_failed [of a b s _ s'] by (cases r) auto

end

interpretation unix: platform_contract unix True
proof
  show "kept {a, b} s s'" if "pf_rename unix a b s = (r, s')" "a \<noteq> b" for a b s r s'
    using sys_rename_spec(1) that by (simp add: unix_def)
  show "gm_get (fs_files s') a = None \<and> gm_get (fs_files s') b = gm_get (fs_files s) a"
    if "pf_rename unix a b s = (None, s')" "a \<noteq> b" for a b s s'
    using sys_rename_spec(3) that by (simp add: unix_def)
  show "gm_get (fs_files s') a = gm_get (fs_files s) a \<and>
      (gm_get (fs_files s') b = gm_get (fs_files s) b \<or> \<not> True \<and> gm_get (fs_files s') b = None)"
    if "pf_rename unix a b s = (Some e, s')" "a \<noteq> b" for a b s e s'
    using sys_rename_spec(2) that by (simp add: unix_def)
  show "kept {} s s'" if "pf_syncDir unix s = (r, s')" for s r s'
    using syncDir_kept that by (simp add: unix_def)
qed (auto simp: unix_def quiet_simps syncDir_def split: option.split)

end
