(* ===== verification/Lock_Contract.thy ===== *)
theory Lock_Contract
  imports Main
begin

text \<open>
  The contract of the file lock behind \<open>OpenFile\<close> (the interface \<open>fileLock\<close> of
  \<open>taudb/storage/file_storage.go\<close>): many readers or one writer.  \<open>holders\<close> lists the handles that
  hold the lock, with whether they opened it for reading only.  A release can fail with an error of
  the operating system, and then the handle holds the lock as before.  Unix and Windows provide it.
\<close>

definition lock_free :: "bool \<Rightarrow> (nat \<times> bool) list \<Rightarrow> bool" where
  "lock_free readOnly hs \<longleftrightarrow> (if readOnly then list_all snd hs else hs = [])"

datatype 'e lock_cmd = Acquire bool | Release "'e option" nat

fun lock_run :: "(bool \<Rightarrow> 'd \<Rightarrow> nat option \<times> 'd) \<Rightarrow> ('e option \<Rightarrow> nat \<Rightarrow> 'd \<Rightarrow> 'e option \<times> 'd) \<Rightarrow> 'e lock_cmd list \<Rightarrow> 'd \<Rightarrow> 'd" where
  "lock_run acquire release [] d = d"
| "lock_run acquire release (Acquire readOnly # cs) d = lock_run acquire release cs (snd (acquire readOnly d))"
| "lock_run acquire release (Release fault h # cs) d = lock_run acquire release cs (snd (release fault h d))"

locale shared_lock =
  fixes acquire :: "bool \<Rightarrow> 'd \<Rightarrow> nat option \<times> 'd"
    and release :: "'e option \<Rightarrow> nat \<Rightarrow> 'd \<Rightarrow> 'e option \<times> 'd"
    and holders :: "'d \<Rightarrow> (nat \<times> bool) list"
    and wf :: "'d \<Rightarrow> bool"
  assumes granted: "wf d \<Longrightarrow> lock_free readOnly (holders d) \<Longrightarrow>
      \<exists>h. fst (acquire readOnly d) = Some h \<and> h \<notin> fst ` set (holders d) \<and>
        holders (snd (acquire readOnly d)) = (h, readOnly) # holders d"
    and refused: "wf d \<Longrightarrow> \<not> lock_free readOnly (holders d) \<Longrightarrow>
      fst (acquire readOnly d) = None \<and> holders (snd (acquire readOnly d)) = holders d"
    and released: "wf d \<Longrightarrow> holders (snd (release None h d)) = filter (\<lambda>x. fst x \<noteq> h) (holders d)"
    and kept: "wf d \<Longrightarrow> holders (snd (release (Some e) h d)) = holders d"
    and wf_acquire: "wf d \<Longrightarrow> wf (snd (acquire readOnly d))"
    and wf_release: "wf d \<Longrightarrow> wf (snd (release fault h d))"
begin

definition exclusive :: "'d \<Rightarrow> bool" where
  "exclusive d \<longleftrightarrow> distinct (map fst (holders d)) \<and> (\<forall>x\<in>set (holders d). \<not> snd x \<longrightarrow> holders d = [x])"

lemma acquire_exclusive:
  assumes "wf d" and "exclusive d"
  shows "exclusive (snd (acquire readOnly d))"
proof (cases "lock_free readOnly (holders d)")
  case True
  then obtain h where "h \<notin> fst ` set (holders d)" "holders (snd (acquire readOnly d)) = (h, readOnly) # holders d"
    using granted [OF assms(1) True] by blast
  with True assms(2) show ?thesis by (auto simp: exclusive_def lock_free_def list_all_iff split: if_splits)
next
  case False
  with refused [OF assms(1) False] assms(2) show ?thesis by (simp add: exclusive_def)
qed

lemma release_exclusive:
  assumes "wf d" and "exclusive d"
  shows "exclusive (snd (release fault h d))"
  using assms(2) by (cases fault) (auto simp: exclusive_def released [OF assms(1)] kept [OF assms(1)] distinct_map_filter)

lemma run_exclusive: "wf d \<Longrightarrow> exclusive d \<Longrightarrow> wf (lock_run acquire release cs d) \<and> exclusive (lock_run acquire release cs d)"
proof (induction cs arbitrary: d)
  case (Cons c cs)
  then show ?case
    by (cases c) (simp_all add: wf_acquire wf_release acquire_exclusive release_exclusive)
qed simp

text \<open>
  In every run a writer is alone, a request succeeds exactly if the lock is free for it, and a
  release that does not fail frees what its handle held.
\<close>

lemma lock_contract:
  assumes "wf d" and "holders d = []"
  shows "(\<forall>x\<in>set (holders (lock_run acquire release cs d)). \<not> snd x \<longrightarrow> holders (lock_run acquire release cs d) = [x]) \<and>
    (fst (acquire readOnly (lock_run acquire release cs d)) \<noteq> None \<longleftrightarrow>
       lock_free readOnly (holders (lock_run acquire release cs d))) \<and>
    h \<notin> fst ` set (holders (snd (release None h (lock_run acquire release cs d))))"
proof -
  let ?e = "lock_run acquire release cs d"
  have "exclusive d" using assms(2) by (simp add: exclusive_def)
  then have wf: "wf ?e" and ex: "exclusive ?e" using run_exclusive [OF assms(1)] by blast+
  moreover have "fst (acquire readOnly ?e) \<noteq> None \<longleftrightarrow> lock_free readOnly (holders ?e)"
    using granted [OF wf, of readOnly] refused [OF wf, of readOnly] by (cases "lock_free readOnly (holders ?e)") auto
  moreover have "h \<notin> fst ` set (holders (snd (release None h ?e)))" using released [OF wf] by auto
  ultimately show ?thesis by (simp add: exclusive_def)
qed

end

end
