(* ===== verification/File_Log.thy ===== *)
theory File_Log
  imports Go_Fmt Db_Errors Lock_Contract
begin

text \<open>
  The log of the file storage and its lock file (\<open>taudb/storage/file_storage.go\<close>,
  \<open>taudb/storage/file_storage_unix.go\<close>): decimal printing, the rotating log, opening a storage
  and the file lock that keeps other processes out.
\<close>

subsection \<open>Decimal printing\<close>

text \<open>
  The digits are put into an array of 32 bytes from its end; \<open>acc\<close> holds those already there.
\<close>

function itoa_loop :: "nat \<Rightarrow> int \<Rightarrow> string \<Rightarrow> go_panic + string" where
  "itoa_loop u wid acc =
     (if 0 < u \<or> 0 < wid
      then if length acc = 32 then Inl Index_out_of_range
           else itoa_loop (u div 10) (wid - 1) (digit_char (u mod 10) # acc)
      else Inr acc)"
  by pat_completeness auto
termination
  by (relation "measure (\<lambda>(u, wid, acc). u + nat wid)") auto

declare itoa_loop.simps [simp del]

definition itoa :: "string \<Rightarrow> int \<Rightarrow> int \<Rightarrow> go_panic + string" where
  "itoa buf i wid =
     (let u = unat (word_of_int i :: u64)
      in if u = 0 \<and> wid \<le> 1 then Inr (buf @ ''0'')
         else bind_go (itoa_loop u wid []) (\<lambda>ds. Inr (buf @ ds)))"

subsection \<open>The log\<close>

text \<open>
  \<open>lg_LOG\<close> and \<open>lg_old\<close> are the files \<open>LOG\<close> and \<open>LOG.old\<close>; \<open>lg_logw\<close> is the position of the open
  file, none when it is not open.  A time carries its printed date, which the standard
  library makes.
\<close>

record log_state =
  lg_LOG :: "string option"
  lg_old :: "string option"
  lg_logw :: "nat option"
  lg_logSize :: int
  lg_day :: int
  lg_open :: int
  lg_readOnly :: bool

record log_time =
  lt_date :: string
  lt_day :: int
  lt_hour :: int
  lt_min :: int
  lt_sec :: int
  lt_nsec :: int

text \<open>Whether the renaming and the opening of the log succeed; writes do.\<close>

record log_env =
  le_rename :: bool
  le_open :: bool

definition logSizeThreshold :: int where "logSizeThreshold = 1024 * 1024"

definition log_content :: "log_state \<Rightarrow> string" where
  "log_content s = (case lg_LOG s of None \<Rightarrow> [] | Some c \<Rightarrow> c)"

text \<open>\<open>fs.logw.Write\<close> at the position of the open file; on a nil file it fails.\<close>

definition logw_write :: "string \<Rightarrow> log_state \<Rightarrow> log_state" where
  "logw_write data s =
     (case lg_logw s of
        None \<Rightarrow> s
      | Some p \<Rightarrow>
          s\<lparr>lg_LOG := Some (take p (log_content s) @ data @ drop (p + length data) (log_content s)),
            lg_logw := Some (p + length data)\<rparr>)"

definition day_header :: "log_time \<Rightarrow> string" where
  "day_header t = ''=============== '' @ lt_date t @ '' ==============='' @ [CHR 0x0A]"

definition printDay :: "log_time \<Rightarrow> log_state \<Rightarrow> log_state" where
  "printDay t s =
     (if lg_day s = lt_day t then s else logw_write (day_header t) (s\<lparr>lg_day := lt_day t\<rparr>))"

definition log_line :: "log_time \<Rightarrow> string \<Rightarrow> go_panic + string" where
  "log_line t str =
     bind_go (itoa [] (lt_hour t) 2) (\<lambda>b1.
     bind_go (itoa (b1 @ '':'') (lt_min t) 2) (\<lambda>b2.
     bind_go (itoa (b2 @ '':'') (lt_sec t) 2) (\<lambda>b3.
     bind_go (itoa (b3 @ ''.'') (lt_nsec t div 1000) 6) (\<lambda>b4.
     Inr (b4 @ '' '' @ str @ [CHR 0x0A])))))"

definition rotate_log :: "log_env \<Rightarrow> log_state \<Rightarrow> log_state" where
  "rotate_log env s =
     (if lg_logSize s > logSizeThreshold
      then let s1 = s\<lparr>lg_logw := None, lg_logSize := 0\<rparr>
           in if le_rename env \<and> lg_LOG s1 \<noteq> None then s1\<lparr>lg_old := lg_LOG s1, lg_LOG := None\<rparr> else s1
      else s)"

text \<open>Opening with \<open>O_WRONLY|O_CREATE\<close>: an existing file is kept, the position is its start.\<close>

definition reopen_log :: "log_env \<Rightarrow> log_state \<Rightarrow> log_state option" where
  "reopen_log env s =
     (if lg_logw s = None
      then if le_open env then Some (s\<lparr>lg_LOG := Some (log_content s), lg_logw := Some 0, lg_day := 0\<rparr>) else None
      else Some s)"

definition doLog :: "log_env \<Rightarrow> log_time \<Rightarrow> string \<Rightarrow> log_state \<Rightarrow> go_panic + log_state" where
  "doLog env t str s =
     (let s1 = rotate_log env s
      in case reopen_log env s1 of
           None \<Rightarrow> Inr s1
         | Some s2 \<Rightarrow>
             let s3 = printDay t s2
             in bind_go (log_line t str) (\<lambda>line.
                  Inr ((logw_write line s3)\<lparr>lg_logSize := lg_logSize s3 + int (length line)\<rparr>)))"

definition fs_Log :: "log_env \<Rightarrow> log_time \<Rightarrow> string \<Rightarrow> log_state \<Rightarrow> go_panic + log_state" where
  "fs_Log env t str s =
     (if \<not> lg_readOnly s then if lg_open s < 0 then Inr s else doLog env t str s else Inr s)"

subsection \<open>The lock file\<close>

text \<open>
  The directory as other processes see it: what the path is, whether \<open>LOCK\<close> exists, and who
  holds \<open>flock\<close> on it, shared or exclusive.
\<close>

datatype path_kind = Absent | Directory | Other_file

record os_dir =
  od_kind :: path_kind
  od_lockfile :: bool
  od_holders :: "(nat \<times> bool) list"
  od_next :: nat

text \<open>\<open>setFileLock\<close> with \<open>lock\<close> set: \<open>LOCK_SH\<close> or \<open>LOCK_EX\<close>, never blocking.\<close>

definition can_lock :: "bool \<Rightarrow> (nat \<times> bool) list \<Rightarrow> bool" where
  "can_lock readOnly holders \<longleftrightarrow> (if readOnly then list_all snd holders else holders = [])"

definition would_block :: go_error where
  "would_block = Plain_error ''resource temporarily unavailable''"

text \<open>
  \<open>lock_err\<close> is an error of opening the lock file other than its absence, \<open>flock_err\<close> one of locking it
  other than that it is locked.
\<close>

definition newFileLock :: "bool \<Rightarrow> go_error option \<Rightarrow> go_error option \<Rightarrow> os_dir \<Rightarrow> (go_error + nat) \<times> os_dir" where
  "newFileLock readOnly lock_err flock_err d =
     (case lock_err of
        Some e \<Rightarrow> (Inl e, d)
      | None \<Rightarrow>
          let d1 = d\<lparr>od_lockfile := True\<rparr>
          in case flock_err of
               Some e \<Rightarrow> (Inl e, d1)
             | None \<Rightarrow>
                 if can_lock readOnly (od_holders d1)
                 then (Inr (od_next d1), d1\<lparr>od_holders := (od_next d1, readOnly) # od_holders d1, od_next := Suc (od_next d1)\<rparr>)
                 else (Inl would_block, d1))"

text \<open>
  \<open>release\<close> returns early when \<open>flock\<close> fails to unlock: the file stays open and locked.  An error of
  closing the file comes after the unlocking.
\<close>

definition lock_release :: "go_error option \<Rightarrow> go_error option \<Rightarrow> nat \<Rightarrow> os_dir \<Rightarrow> go_error option \<times> os_dir" where
  "lock_release unlock_err close_err h d =
     (case unlock_err of
        Some e \<Rightarrow> (Some e, d)
      | None \<Rightarrow> (close_err, d\<lparr>od_holders := filter (\<lambda>x. fst x \<noteq> h) (od_holders d)\<rparr>))"

record open_env =
  oe_stat :: "go_error option"
  oe_mkdir :: "go_error option"
  oe_lock :: "go_error option"
  oe_flock :: "go_error option"
  oe_log :: "go_error option"
  oe_seek :: "go_error option"
  oe_unlock :: "go_error option"
  oe_close :: "go_error option"

definition not_a_directory :: "string \<Rightarrow> go_error" where
  "not_a_directory path = Plain_error (''ipfsdb/storage: open '' @ path @ '': not a directory'')"

text \<open>The part of \<open>OpenFile\<close> after the test of the path; the deferred call ignores the result of \<open>release\<close>.\<close>

definition open_locked :: "bool \<Rightarrow> open_env \<Rightarrow> os_dir \<Rightarrow> (go_error + nat) \<times> os_dir" where
  "open_locked readOnly env d =
     (case newFileLock readOnly (oe_lock env) (oe_flock env) d of
        (Inl e, d1) \<Rightarrow> (Inl e, d1)
      | (Inr h, d1) \<Rightarrow>
          if readOnly then (Inr h, d1)
          else
            let failed = (\<lambda>e. (Inl e, snd (lock_release (oe_unlock env) (oe_close env) h d1)))
            in case oe_log env of
                 Some e \<Rightarrow> failed e
               | None \<Rightarrow> (case oe_seek env of Some e \<Rightarrow> failed e | None \<Rightarrow> (Inr h, d1)))"

definition OpenFile :: "string \<Rightarrow> bool \<Rightarrow> open_env \<Rightarrow> os_dir \<Rightarrow> (go_error + nat) \<times> os_dir" where
  "OpenFile path readOnly env d =
     (let stat = (case oe_stat env of Some e \<Rightarrow> Some e | None \<Rightarrow> if od_kind d = Absent then Some ErrNotExist else None)
      in case stat of
           None \<Rightarrow> if od_kind d \<noteq> Directory then (Inl (not_a_directory path), d) else open_locked readOnly env d
         | Some e \<Rightarrow>
             if e = ErrNotExist \<and> \<not> readOnly
             then (case oe_mkdir env of
                     Some e1 \<Rightarrow> (Inl e1, d)
                   | None \<Rightarrow> open_locked readOnly env (d\<lparr>od_kind := if od_kind d = Absent then Directory else od_kind d\<rparr>))
             else (Inl e, d))"

text \<open>Processes open storages on the directory and release the locks they hold, which can fail.\<close>

inductive dir_step :: "os_dir \<Rightarrow> os_dir \<Rightarrow> bool" where
  "OpenFile path readOnly env d = (r, d') \<Longrightarrow> dir_step d d'"
| "dir_step d (snd (lock_release unlock_err close_err h d))"

subsection \<open>Printing is padded decimal printing\<close>

text \<open>The digits of a number, none for zero.\<close>

definition digits_of :: "nat \<Rightarrow> string" where
  "digits_of u = (if u = 0 then [] else dec_nat u)"

lemma digits_of_step: "0 < u \<Longrightarrow> digits_of u = digits_of (u div 10) @ [digit_char (u mod 10)]"
  by (subst digits_of_def, subst dec_nat.simps) (auto simp: digits_of_def)

lemma length_dec_nat: "n < 10 ^ k \<Longrightarrow> 0 < k \<Longrightarrow> length (dec_nat n) \<le> k"
proof (induction k arbitrary: n)
  case (Suc k)
  show ?case
  proof (cases "n < 10")
    case False
    then have "0 < k" using Suc.prems by (cases k) auto
    moreover have "n div 10 < 10 ^ k" using Suc.prems(1) by (simp add: less_mult_imp_div_less)
    ultimately show ?thesis using Suc.IH False by (subst dec_nat.simps) simp
  qed (subst dec_nat.simps, simp)
qed simp

lemma digit_char_0: "digit_char 0 = CHR ''0''"
  by code_simp

lemma zero_pad_step:
  assumes "0 < u \<or> 0 < w"
  shows "zero_pad w (digits_of u) = zero_pad (w - 1) (digits_of (u div 10)) @ [digit_char (u mod 10)]"
proof (cases "0 < u")
  case True
  then show ?thesis by (simp add: zero_pad_def digits_of_step [OF True])
next
  case False
  with assms obtain v where "w = Suc v" by (cases w) auto
  with False show ?thesis by (simp add: zero_pad_def digits_of_def digit_char_0 replicate_append_same)
qed

lemma itoa_loop_pad:
  "length acc + max (nat wid) (length (digits_of u)) \<le> 32 \<Longrightarrow>
   itoa_loop u wid acc = Inr (zero_pad (nat wid) (digits_of u) @ acc)"
proof (induction u wid acc rule: itoa_loop.induct)
  case (1 u wid acc)
  show ?case
  proof (cases "0 < u \<or> 0 < wid")
    case True
    have len: "length (digits_of u) = (if u = 0 then 0 else Suc (length (digits_of (u div 10))))"
      using digits_of_step [of u] by (auto simp: digits_of_def)
    have room: "length acc \<noteq> 32" using 1(2) True len by (auto split: if_splits)
    have "length (digit_char (u mod 10) # acc) + max (nat (wid - 1)) (length (digits_of (u div 10))) \<le> 32"
      using 1(2) True len by (auto simp: nat_diff_distrib digits_of_def split: if_splits)
    then have "itoa_loop (u div 10) (wid - 1) (digit_char (u mod 10) # acc) =
        Inr (zero_pad (nat (wid - 1)) (digits_of (u div 10)) @ digit_char (u mod 10) # acc)"
      using 1(1) [OF True room] by simp
    moreover have "zero_pad (nat wid) (digits_of u) = zero_pad (nat (wid - 1)) (digits_of (u div 10)) @ [digit_char (u mod 10)]"
    proof -
      have "nat (wid - 1) = nat wid - 1" by linarith
      then show ?thesis using zero_pad_step [of u "nat wid"] True by simp
    qed
    ultimately show ?thesis using True room by (subst itoa_loop.simps) simp
  next
    case False
    then show ?thesis by (subst itoa_loop.simps) (simp add: zero_pad_def digits_of_def)
  qed
qed

lemma itoa_pads:
  assumes "0 \<le> i" and "i < 2 ^ 63" and "wid \<le> 32"
  shows "itoa buf i wid = Inr (buf @ zero_pad (nat wid) (dec_nat (nat i)))"
proof -
  have u: "unat (word_of_int i :: u64) = nat i"
    using assms(1,2) by (simp add: unsigned_of_int take_bit_int_eq_self)
  have "nat i < 10 ^ 20" using assms(2) by simp
  then have len: "length (digits_of (nat i)) \<le> 20" using length_dec_nat [of "nat i" 20] by (simp add: digits_of_def)
  show ?thesis
  proof (cases "nat i = 0")
    case zero: True
    show ?thesis
    proof (cases "wid \<le> 1")
      case True
      then have "nat wid \<le> 1" by simp
      with zero True show ?thesis by (simp add: itoa_def u zero_pad_def dec_nat.simps digit_char_0)
    next
      case False
      then obtain v where "nat wid = Suc v" by (cases "nat wid") auto
      with zero False itoa_loop_pad [of "[]" wid 0] assms(3) show ?thesis
        by (simp add: itoa_def u zero_pad_def digits_of_def dec_nat.simps digit_char_0 replicate_append_same)
    qed
  next
    case False
    then have "itoa buf i wid = bind_go (itoa_loop (nat i) wid []) (\<lambda>ds. Inr (buf @ ds))"
      by (simp add: itoa_def u)
    moreover have "itoa_loop (nat i) wid [] = Inr (zero_pad (nat wid) (digits_of (nat i)) @ [])"
      by (rule itoa_loop_pad) (use len assms(3) in simp)
    ultimately show ?thesis using False by (simp add: digits_of_def)
  qed
qed

subsection \<open>Writing the log\<close>

definition time_ok :: "log_time \<Rightarrow> bool" where
  "time_ok t \<longleftrightarrow> 0 < lt_day t \<and> lt_hour t \<in> {0..<24} \<and> lt_min t \<in> {0..<60} \<and> lt_sec t \<in> {0..<60} \<and>
     lt_nsec t \<in> {0..<10 ^ 9}"

definition two :: "int \<Rightarrow> string" where
  "two i = zero_pad 2 (dec_nat (nat i))"

lemma log_line_ok:
  assumes "time_ok t"
  shows "log_line t str = Inr (two (lt_hour t) @ '':'' @ two (lt_min t) @ '':'' @ two (lt_sec t) @ ''.'' @
    zero_pad 6 (dec_nat (nat (lt_nsec t div 1000))) @ '' '' @ str @ [CHR 0x0A])"
proof -
  have "lt_nsec t div 1000 < 2 ^ 63" "0 \<le> lt_nsec t div 1000" using assms by (auto simp: time_ok_def)
  with assms show ?thesis by (simp add: log_line_def itoa_pads two_def time_ok_def)
qed

text \<open>An open log is written at its end.\<close>

definition log_at_end :: "log_state \<Rightarrow> bool" where
  "log_at_end s \<longleftrightarrow> lg_logw s = Some (length (log_content s))"

lemma write_at_end:
  "log_at_end s \<Longrightarrow> log_content (logw_write d s) = log_content s @ d \<and> log_at_end (logw_write d s) \<and>
    lg_old (logw_write d s) = lg_old s"
  by (simp add: log_at_end_def logw_write_def log_content_def)

text \<open>What a call adds for its time.\<close>

definition header_for :: "log_time \<Rightarrow> int \<Rightarrow> string" where
  "header_for t day = (if day = lt_day t then [] else day_header t)"

lemma printDay_at_end:
  assumes "log_at_end s"
  shows "log_content (printDay t s) = log_content s @ header_for t (lg_day s) \<and> log_at_end (printDay t s) \<and>
    lg_old (printDay t s) = lg_old s"
proof -
  have "log_at_end (s\<lparr>lg_day := lt_day t\<rparr>)" using assms by (simp add: log_at_end_def log_content_def)
  from write_at_end [OF this, of "day_header t"] assms show ?thesis
    by (simp add: printDay_def header_for_def log_content_def)
qed

lemma doLog_tail:
  assumes "log_at_end s2" and "log_line t str = Inr line"
  shows "\<exists>s'. bind_go (log_line t str) (\<lambda>line. Inr ((logw_write line (printDay t s2))\<lparr>lg_logSize := n line\<rparr>)) = Inr s' \<and>
    log_content s' = log_content s2 @ header_for t (lg_day s2) @ line \<and> log_at_end s' \<and> lg_old s' = lg_old s2"
proof -
  note p = printDay_at_end [OF assms(1), of t]
  let ?s' = "(logw_write line (printDay t s2))\<lparr>lg_logSize := n line\<rparr>"
  have "log_content ?s' = log_content (logw_write line (printDay t s2))" "log_at_end ?s' = log_at_end (logw_write line (printDay t s2))"
    by (simp_all add: log_content_def log_at_end_def)
  with write_at_end [of "printDay t s2" line] p assms(2) show ?thesis by simp
qed

subsection \<open>The lock\<close>

definition locks_ok :: "os_dir \<Rightarrow> bool" where
  "locks_ok d \<longleftrightarrow> (\<forall>x\<in>set (od_holders d). fst x < od_next d \<and> (\<not> snd x \<longrightarrow> od_holders d = [x]))"

lemma newFileLock_cases:
  assumes "newFileLock ro le fe d = (r, d')"
  shows "(\<exists>e. r = Inl e \<and> od_holders d' = od_holders d \<and> od_next d' = od_next d) \<or>
    (r = Inr (od_next d) \<and> od_holders d' = (od_next d, ro) # od_holders d \<and> od_next d' = Suc (od_next d) \<and>
      can_lock ro (od_holders d))"
  using assms by (auto simp: newFileLock_def Let_def split: option.splits if_splits)

lemma release_new:
  assumes "locks_ok d" and "od_holders d' = (od_next d, ro) # od_holders d"
  shows "od_holders (snd (lock_release ue ce (od_next d) d')) = (if ue = None then od_holders d else od_holders d')"
  using assms by (auto simp: lock_release_def locks_ok_def intro!: filter_True split: option.split)

lemma release_next: "od_next (snd (lock_release ue ce h d)) = od_next d"
  by (simp add: lock_release_def split: option.split)

text \<open>The failed call in which the lock was taken and the unlocking failed too.\<close>

definition lock_stays :: "bool \<Rightarrow> open_env \<Rightarrow> bool" where
  "lock_stays ro env \<longleftrightarrow> \<not> ro \<and> (oe_log env \<noteq> None \<or> oe_seek env \<noteq> None) \<and> oe_unlock env \<noteq> None"

lemma open_locked_cases:
  assumes ok: "locks_ok d" and run: "open_locked ro env d = (r, d')"
  shows "(\<exists>e. r = Inl e \<and> od_holders d' = od_holders d \<and> od_next d \<le> od_next d') \<or>
    (((\<exists>e. r = Inl e \<and> lock_stays ro env) \<or> r = Inr (od_next d)) \<and>
      od_holders d' = (od_next d, ro) # od_holders d \<and> od_next d' = Suc (od_next d) \<and> can_lock ro (od_holders d))"
proof -
  obtain r1 d1 where l: "newFileLock ro (oe_lock env) (oe_flock env) d = (r1, d1)"
    by (cases "newFileLock ro (oe_lock env) (oe_flock env) d")
  show ?thesis
  proof (cases r1)
    case (Inl e)
    with newFileLock_cases [OF l] run l show ?thesis by (auto simp: open_locked_def)
  next
    case (Inr h)
    with newFileLock_cases [OF l] have d1: "h = od_next d" "od_holders d1 = (od_next d, ro) # od_holders d"
      "od_next d1 = Suc (od_next d)" "can_lock ro (od_holders d)" by auto
    from run l Inr have "r = Inr h \<and> d' = d1 \<or>
        (\<exists>e. r = Inl e) \<and> \<not> ro \<and> (oe_log env \<noteq> None \<or> oe_seek env \<noteq> None) \<and>
        d' = snd (lock_release (oe_unlock env) (oe_close env) h d1)"
      by (auto simp: open_locked_def Let_def split: if_splits option.splits)
    then show ?thesis
      using release_new [OF ok d1(2)] d1 by (cases "oe_unlock env") (auto simp: lock_stays_def release_next)
  qed
qed

lemma OpenFile_cases:
  assumes ok: "locks_ok d" and run: "OpenFile path ro env d = (r, d')"
  shows "(\<exists>e. r = Inl e \<and> od_holders d' = od_holders d \<and> od_next d \<le> od_next d') \<or>
    (((\<exists>e. r = Inl e \<and> lock_stays ro env) \<or> r = Inr (od_next d)) \<and>
      od_holders d' = (od_next d, ro) # od_holders d \<and> od_next d' = Suc (od_next d) \<and> can_lock ro (od_holders d))"
proof -
  let ?d1 = "d\<lparr>od_kind := if od_kind d = Absent then Directory else od_kind d\<rparr>"
  have ok1: "locks_ok ?d1" using ok by (simp add: locks_ok_def)
  from run have "(\<exists>e. r = Inl e \<and> d' = d) \<or> open_locked ro env d = (r, d') \<or> open_locked ro env ?d1 = (r, d')"
    by (auto simp: OpenFile_def Let_def split: option.splits if_splits)
  then show ?thesis using open_locked_cases [OF ok, of ro env r d'] open_locked_cases [OF ok1, of ro env r d'] by auto
qed

lemma locks_ok_taken:
  assumes "locks_ok d" and "can_lock ro (od_holders d)"
    and "od_holders d' = (od_next d, ro) # od_holders d" "od_next d' = Suc (od_next d)"
  shows "locks_ok d'"
  using assms by (cases ro) (fastforce simp: locks_ok_def can_lock_def list_all_iff less_Suc_eq)+

lemma dir_step_ok: "dir_step d d' \<Longrightarrow> locks_ok d \<Longrightarrow> locks_ok d'"
proof (induction rule: dir_step.induct)
  case (1 path ro env d r d')
  from OpenFile_cases [OF 1(2,1)] show ?case
  proof
    assume "\<exists>e. r = Inl e \<and> od_holders d' = od_holders d \<and> od_next d \<le> od_next d'"
    with 1(2) show ?thesis by (auto simp: locks_ok_def)
  qed (use locks_ok_taken [OF 1(2)] in blast)
next
  case (2 d unlock_err close_err h)
  then show ?case by (cases unlock_err) (fastforce simp: locks_ok_def lock_release_def)+
qed

lemma dir_reach_ok: "dir_step\<^sup>*\<^sup>* d d' \<Longrightarrow> locks_ok d \<Longrightarrow> locks_ok d'"
  by (induction rule: rtranclp_induct) (auto intro: dir_step_ok)

text \<open>The lock meets the contract of a file lock.\<close>

definition flock_acquire :: "bool \<Rightarrow> os_dir \<Rightarrow> nat option \<times> os_dir" where
  "flock_acquire readOnly d =
     (case newFileLock readOnly None None d of (Inl e, d') \<Rightarrow> (None, d') | (Inr h, d') \<Rightarrow> (Some h, d'))"

definition flock_release :: "go_error option \<Rightarrow> nat \<Rightarrow> os_dir \<Rightarrow> go_error option \<times> os_dir" where
  "flock_release unlock_err h d = lock_release unlock_err None h d"

interpretation flock: shared_lock flock_acquire flock_release od_holders "\<lambda>d. \<forall>x\<in>set (od_holders d). fst x < od_next d"
  by unfold_locales
    (auto simp: flock_acquire_def newFileLock_def flock_release_def lock_release_def lock_free_def can_lock_def Let_def less_Suc_eq
      split: option.splits)

subsection \<open>Properties\<close>

text \<open>
  \<open>itoa\<close> is zero-padded decimal printing for every non-negative number and width up to 32:
  its array never overflows, although the loop runs to the larger of digits and width.
\<close>

theorem itoa_decimal:
  assumes "0 \<le> i" and "i < 2 ^ 63" and "wid \<le> 32"
  shows "itoa buf i wid = Inr (buf @ dec_pad (nat wid) i)"
  using itoa_pads [OF assms] assms(1) by (simp add: dec_pad_nonneg)

lemma itoa_decimal_witness: "itoa ''12:'' 5 2 = Inr (''12:'' @ dec_pad 2 5)"
  using itoa_decimal [of 5 2 "''12:''"] by simp

text \<open>
  A log call appends its line, with the date before the first line of a day.  A log over its
  threshold is first renamed and a new one started; when the renaming fails, the old
  log is opened again at its start and the new line overwrites its beginning.
\<close>

theorem log_call_writes:
  assumes "log_at_end s" and "0 \<le> lg_open s" and "\<not> lg_readOnly s" and "time_ok t" and "le_open env"
  shows "\<exists>line s'. log_line t str = Inr line \<and> fs_Log env t str s = Inr s' \<and>
    (if lg_logSize s \<le> logSizeThreshold
     then log_content s' = log_content s @ header_for t (lg_day s) @ line \<and> lg_old s' = lg_old s \<and> log_at_end s'
     else if le_rename env \<and> lg_LOG s \<noteq> None
     then log_content s' = day_header t @ line \<and> lg_old s' = lg_LOG s \<and> log_at_end s'
     else log_content s' = day_header t @ line @ drop (length (day_header t @ line)) (log_content s))"
proof -
  obtain line where line: "log_line t str = Inr line" using log_line_ok [OF assms(4)] by simp
  have day: "lt_day t \<noteq> 0" using assms(4) by (simp add: time_ok_def)
  have run: "fs_Log env t str s = doLog env t str s" using assms(2,3) by (simp add: fs_Log_def)
  let ?n = "\<lambda>s2 line. lg_logSize (printDay t s2) + int (length line)"
  show ?thesis
  proof (cases "lg_logSize s \<le> logSizeThreshold")
    case True
    then have "doLog env t str s = bind_go (log_line t str) (\<lambda>line. Inr ((logw_write line (printDay t s))\<lparr>lg_logSize := ?n s line\<rparr>))"
      using assms(1) by (simp add: doLog_def rotate_log_def reopen_log_def log_at_end_def Let_def)
    with doLog_tail [OF assms(1) line, of "?n s"] True line run show ?thesis by auto
  next
    case big: False
    show ?thesis
    proof (cases "le_rename env \<and> lg_LOG s \<noteq> None")
      case True
      let ?s2 = "s\<lparr>lg_logSize := 0, lg_old := lg_LOG s, lg_LOG := Some [], lg_logw := Some 0, lg_day := 0\<rparr>"
      have "doLog env t str s = bind_go (log_line t str) (\<lambda>line. Inr ((logw_write line (printDay t ?s2))\<lparr>lg_logSize := ?n ?s2 line\<rparr>))"
        using big True assms(5) by (auto simp: doLog_def rotate_log_def reopen_log_def log_content_def Let_def)
      moreover have "log_at_end ?s2" "log_content ?s2 = []" by (simp_all add: log_at_end_def log_content_def)
      ultimately show ?thesis
        using doLog_tail [of ?s2 t str line "?n ?s2"] big True line run day by (auto simp: header_for_def)
    next
      case False
      let ?s2 = "s\<lparr>lg_logSize := 0, lg_LOG := Some (log_content s), lg_logw := Some 0, lg_day := 0\<rparr>"
      have "doLog env t str s = bind_go (log_line t str) (\<lambda>line. Inr ((logw_write line (printDay t ?s2))\<lparr>lg_logSize := ?n ?s2 line\<rparr>))"
        using big False assms(5) by (auto simp: doLog_def rotate_log_def reopen_log_def log_content_def Let_def)
      then show ?thesis
        using big False line run day by (auto simp: printDay_def logw_write_def log_content_def add.commute)
    qed
  qed
qed

definition sample_time :: log_time where
  "sample_time = \<lparr>lt_date = ''Jun 1, 2020 (UTC)'', lt_day = 1, lt_hour = 9, lt_min = 5, lt_sec = 0, lt_nsec = 1234567\<rparr>"

definition sample_log :: log_state where
  "sample_log = \<lparr>lg_LOG = Some ''old'', lg_old = None, lg_logw = Some 3, lg_logSize = 2000000, lg_day = 1, lg_open = 0,
     lg_readOnly = False\<rparr>"

lemma log_call_writes_witness:
  "\<exists>line s'. log_line sample_time ''x'' = Inr line \<and>
    fs_Log \<lparr>le_rename = True, le_open = True\<rparr> sample_time ''x'' sample_log = Inr s' \<and>
    log_content s' = day_header sample_time @ line \<and> lg_old s' = Some ''old''"
  using log_call_writes [of sample_log sample_time "\<lparr>le_rename = True, le_open = True\<rparr>" "''x''"]
  by (auto simp: sample_log_def sample_time_def log_at_end_def log_content_def time_ok_def logSizeThreshold_def)

text \<open>
  C15: Whatever storages are opened and closed on a directory, with whatever errors, a storage open for
  writing is the only one open.  An \<open>OpenFile\<close> that fails, at any point, leaves no lock behind,
  unless the log could not be opened or positioned and then the unlocking fails too: \<open>release\<close>
  returns early then and its error is ignored.
\<close>

theorem file_lock_exclusive:
  assumes "dir_step\<^sup>*\<^sup>* d0 d" and "od_holders d0 = []"
  shows "(\<forall>x\<in>set (od_holders d). \<not> snd x \<longrightarrow> od_holders d = [x]) \<and>
    (\<forall>path ro env e d'. OpenFile path ro env d = (Inl e, d') \<longrightarrow>
       od_holders d' = od_holders d \<or>
       \<not> ro \<and> (oe_log env \<noteq> None \<or> oe_seek env \<noteq> None) \<and> oe_unlock env \<noteq> None \<and>
       od_holders d' = (od_next d, ro) # od_holders d) \<and>
    (\<forall>path ro env h d'. OpenFile path ro env d = (Inr h, d') \<longrightarrow> od_holders d' = (h, ro) # od_holders d)"
proof -
  have "locks_ok d0" using assms(2) by (simp add: locks_ok_def)
  then have ok: "locks_ok d" by (rule dir_reach_ok [OF assms(1)])
  moreover have "od_holders d' = od_holders d \<or> \<not> ro \<and> (oe_log env \<noteq> None \<or> oe_seek env \<noteq> None) \<and> oe_unlock env \<noteq> None \<and>
      od_holders d' = (od_next d, ro) # od_holders d"
    if "OpenFile path ro env d = (Inl e, d')" for path ro env e d'
    using OpenFile_cases [OF ok that] unfolding lock_stays_def by blast
  moreover have "od_holders d' = (h, ro) # od_holders d" if "OpenFile path ro env d = (Inr h, d')" for path ro env h d'
    using OpenFile_cases [OF ok that] by simp
  ultimately show ?thesis unfolding locks_ok_def by blast
qed

definition new_dir :: os_dir where
  "new_dir = \<lparr>od_kind = Absent, od_lockfile = False, od_holders = [], od_next = 0\<rparr>"

definition no_errors :: open_env where
  "no_errors = \<lparr>oe_stat = None, oe_mkdir = None, oe_lock = None, oe_flock = None, oe_log = None, oe_seek = None,
     oe_unlock = None, oe_close = None\<rparr>"

lemma file_lock_exclusive_witness:
  "let d = \<lparr>od_kind = Directory, od_lockfile = True, od_holders = [(0, False)], od_next = 1\<rparr>
   in OpenFile ''db'' False no_errors new_dir = (Inr 0, d) \<and> fst (OpenFile ''db'' True no_errors d) = Inl would_block \<and>
     od_holders (snd (OpenFile ''db'' True no_errors d)) = [(0, False)]"
proof -
  let ?d = "\<lparr>od_kind = Directory, od_lockfile = True, od_holders = [(0, False)], od_next = 1\<rparr>"
  have one: "OpenFile ''db'' False no_errors new_dir = (Inr 0, ?d)"
    by (simp add: OpenFile_def open_locked_def newFileLock_def can_lock_def new_dir_def no_errors_def Let_def)
  have two: "OpenFile ''db'' True no_errors ?d = (Inl would_block, ?d)"
    by (simp add: OpenFile_def open_locked_def newFileLock_def can_lock_def no_errors_def Let_def)
  have "dir_step new_dir ?d" by (rule dir_step.intros(1) [OF one])
  then have "dir_step\<^sup>*\<^sup>* new_dir ?d" by (rule r_into_rtranclp)
  moreover have "od_holders new_dir = []" by (simp add: new_dir_def)
  ultimately have "\<forall>path ro env e d'. OpenFile path ro env ?d = (Inl e, d') \<longrightarrow>
       od_holders d' = od_holders ?d \<or>
       \<not> ro \<and> (oe_log env \<noteq> None \<or> oe_seek env \<noteq> None) \<and> oe_unlock env \<noteq> None \<and>
       od_holders d' = (od_next ?d, ro) # od_holders ?d"
    by (rule file_lock_exclusive [THEN conjunct2, THEN conjunct1])
  with two have "od_holders (snd (OpenFile ''db'' True no_errors ?d)) = od_holders ?d" by (metis snd_conv)
  with one two show ?thesis by simp
qed

text \<open>
  The lock that such an \<open>OpenFile\<close> leaves keeps everybody out: no storage can be opened on the
  directory, by nobody and with no errors, until the lock goes.
\<close>

theorem open_failure_keeps_lock:
  assumes "od_kind d = Directory" and "od_holders d = []" and "oe_stat env = None" and "oe_lock env = None"
    and "oe_flock env = None" and "oe_log env = Some e" and "oe_unlock env = Some u"
  shows "\<exists>d'. OpenFile path False env d = (Inl e, d') \<and> od_holders d' = [(od_next d, False)] \<and>
    (\<forall>path' ro env' h. fst (OpenFile path' ro env' d') \<noteq> Inr h)"
proof -
  let ?d = "d\<lparr>od_lockfile := True, od_holders := [(od_next d, False)], od_next := Suc (od_next d)\<rparr>"
  have "OpenFile path False env d = (Inl e, ?d)"
    using assms by (simp add: OpenFile_def open_locked_def newFileLock_def can_lock_def lock_release_def Let_def)
  moreover have "fst (OpenFile path' ro env' ?d) \<noteq> Inr h" for path' ro env' h
    using assms(1)
    by (auto simp: OpenFile_def open_locked_def newFileLock_def can_lock_def Let_def split: option.split)
  ultimately show ?thesis by auto
qed

lemma open_failure_keeps_lock_witness:
  "\<exists>d'. OpenFile ''db'' False (no_errors\<lparr>oe_log := Some ErrNotExist, oe_unlock := Some would_block\<rparr>) (new_dir\<lparr>od_kind := Directory\<rparr>)
      = (Inl ErrNotExist, d') \<and> od_holders d' = [(0, False)] \<and>
    (\<forall>path' ro env' h. fst (OpenFile path' ro env' d') \<noteq> Inr h)"
  using open_failure_keeps_lock [of "new_dir\<lparr>od_kind := Directory\<rparr>" "no_errors\<lparr>oe_log := Some ErrNotExist, oe_unlock := Some would_block\<rparr>"
    ErrNotExist would_block "''db''"]
  by (simp add: new_dir_def no_errors_def)

end
