(* ===== verification/Platforms.thy ===== *)
theory Platforms
  imports File_Calls File_Log Lock_Contract
begin

text \<open>
  The platform files of the file storage other than Unix: \<open>file_storage_windows.go\<close>,
  \<open>file_storage_solaris.go\<close>, \<open>file_storage_plan9.go\<close> and \<open>file_storage_nacl.go\<close> of
  \<open>taudb/storage\<close>, with the behaviour their operating systems document for the system calls:
  the sharing modes of Windows, the record locks of POSIX and the exclusive-use files of Plan 9.
\<close>

subsection \<open>The lock on Windows\<close>

text \<open>An open handle of \<open>LOCK\<close>: its number, whether it can write, and whether it shares reading.\<close>

record win_file =
  wf_exists :: bool
  wf_open :: "(nat \<times> bool \<times> bool) list"
  wf_next :: nat

definition file_not_found :: go_error where
  "file_not_found = Plain_error ''The system cannot find the file specified.''"

definition sharing_violation :: go_error where
  "sharing_violation = Plain_error ''The process cannot access the file because it is being used by another process.''"

text \<open>
  \<open>CreateFile\<close> on \<open>LOCK\<close>: each open handle must share the access that is asked for, and the new
  handle must share the access each of them has.  Every handle reads.
\<close>

definition CreateFile :: "bool \<Rightarrow> bool \<Rightarrow> bool \<Rightarrow> win_file \<Rightarrow> (go_error + nat) \<times> win_file" where
  "CreateFile writes shares create d =
     (if \<not> wf_exists d \<and> \<not> create then (Inl file_not_found, d)
      else if list_all (\<lambda>(h, w, sh). sh \<and> \<not> writes \<and> shares \<and> \<not> w) (wf_open d)
      then (Inr (wf_next d),
            d\<lparr>wf_exists := True, wf_open := (wf_next d, writes, shares) # wf_open d, wf_next := Suc (wf_next d)\<rparr>)
      else (Inl sharing_violation, d))"

text \<open>\<open>syscall.UTF16PtrFromString\<close> rejects a string with a NUL.\<close>

definition utf16_ptr :: "string \<Rightarrow> go_error option" where
  "utf16_ptr s = (if CHR 0x00 \<in> set s then Some (Plain_error ''invalid argument'') else None)"

definition win_newFileLock :: "string \<Rightarrow> bool \<Rightarrow> win_file \<Rightarrow> (go_error + nat) \<times> win_file" where
  "win_newFileLock path readOnly d =
     (case utf16_ptr path of
        Some e \<Rightarrow> (Inl e, d)
      | None \<Rightarrow>
          (case CreateFile (\<not> readOnly) readOnly False d of
             (Inl e, d1) \<Rightarrow> if e = file_not_found then CreateFile (\<not> readOnly) readOnly True d1 else (Inl e, d1)
           | (Inr h, d1) \<Rightarrow> (Inr h, d1)))"

text \<open>\<open>CloseHandle\<close> fails with an error that leaves the handle, or closes it.\<close>

definition win_release :: "go_error option \<Rightarrow> nat \<Rightarrow> win_file \<Rightarrow> go_error option \<times> win_file" where
  "win_release close_err h d =
     (case close_err of
        Some e \<Rightarrow> (Some e, d)
      | None \<Rightarrow> (None, d\<lparr>wf_open := filter (\<lambda>x. fst x \<noteq> h) (wf_open d)\<rparr>))"

subsection \<open>The lock on Solaris\<close>

text \<open>
  A record lock belongs to a process: \<open>fc_locks\<close> maps the processes that hold one to whether it is
  shared.  \<open>fc_open\<close> are the storages that have got a file lock, with process and mode.
\<close>

record fcntl_file =
  fc_exists :: bool
  fc_locks :: "(nat, bool) gomap"
  fc_open :: "(nat \<times> nat \<times> bool) list"
  fc_next :: nat

text \<open>\<open>F_SETLK\<close> with \<open>F_RDLCK\<close> or \<open>F_WRLCK\<close> replaces the lock of the process.\<close>

definition fcntl_lock :: "nat \<Rightarrow> bool \<Rightarrow> fcntl_file \<Rightarrow> fcntl_file option" where
  "fcntl_lock pid shared d =
     (if list_all (\<lambda>(q, sh). q = pid \<or> shared \<and> sh) (fc_locks d)
      then Some (d\<lparr>fc_locks := gm_put pid shared (fc_locks d)\<rparr>) else None)"

text \<open>Closing any descriptor of a file drops the lock the process has on it.\<close>

definition fcntl_close :: "nat \<Rightarrow> fcntl_file \<Rightarrow> fcntl_file" where
  "fcntl_close pid d = d\<lparr>fc_locks := gm_del pid (fc_locks d)\<rparr>"

definition sol_newFileLock :: "nat \<Rightarrow> bool \<Rightarrow> fcntl_file \<Rightarrow> (go_error + nat) \<times> fcntl_file" where
  "sol_newFileLock pid readOnly d =
     (let d1 = d\<lparr>fc_exists := True\<rparr> in
      case fcntl_lock pid readOnly d1 of
        None \<Rightarrow> (Inl would_block, fcntl_close pid d1)
      | Some d2 \<Rightarrow> (Inr (fc_next d2),
          d2\<lparr>fc_open := (fc_next d2, pid, readOnly) # fc_open d2, fc_next := Suc (fc_next d2)\<rparr>))"

text \<open>As on Unix the file stays open when the unlocking fails.\<close>

definition sol_release :: "go_error option \<Rightarrow> go_error option \<Rightarrow> nat \<Rightarrow> fcntl_file \<Rightarrow> go_error option \<times> fcntl_file" where
  "sol_release unlock_err close_err h d =
     (case unlock_err of
        Some e \<Rightarrow> (Some e, d)
      | None \<Rightarrow>
          (close_err,
           case find (\<lambda>x. fst x = h) (fc_open d) of
             None \<Rightarrow> d
           | Some (_, pid, _) \<Rightarrow> (fcntl_close pid d)\<lparr>fc_open := filter (\<lambda>x. fst x \<noteq> h) (fc_open d)\<rparr>))"

inductive sol_step :: "fcntl_file \<Rightarrow> fcntl_file \<Rightarrow> bool" where
  "sol_newFileLock pid readOnly d = (r, d') \<Longrightarrow> sol_step d d'"
| "sol_step d (snd (sol_release unlock_err close_err h d))"

definition sol_new :: fcntl_file where
  "sol_new = \<lparr>fc_exists = False, fc_locks = [], fc_open = [], fc_next = 0\<rparr>"

subsection \<open>The lock on Plan 9\<close>

text \<open>\<open>p9_excl\<close>: none while \<open>LOCK\<close> does not exist, then whether it was created for exclusive use.\<close>

record p9_file =
  p9_excl :: "bool option"
  p9_open :: "(nat \<times> bool) list"
  p9_next :: nat

definition exclusive_use :: go_error where
  "exclusive_use = Plain_error ''exclusive use file already open''"

text \<open>\<open>os.OpenFile\<close>: the mode counts when the file is created, not when it is there already.\<close>

definition p9_OpenFile :: "bool \<Rightarrow> bool \<Rightarrow> bool \<Rightarrow> p9_file \<Rightarrow> (go_error + nat) \<times> p9_file" where
  "p9_OpenFile readOnly create excl d =
     (let opened = d\<lparr>p9_open := (p9_next d, readOnly) # p9_open d, p9_next := Suc (p9_next d)\<rparr> in
      case p9_excl d of
        None \<Rightarrow> if create then (Inr (p9_next d), opened\<lparr>p9_excl := Some excl\<rparr>) else (Inl ErrNotExist, d)
      | Some x \<Rightarrow> if x \<and> p9_open d \<noteq> [] then (Inl exclusive_use, d) else (Inr (p9_next d), opened))"

definition p9_newFileLock :: "bool \<Rightarrow> p9_file \<Rightarrow> (go_error + nat) \<times> p9_file" where
  "p9_newFileLock readOnly d =
     (case p9_OpenFile readOnly False (\<not> readOnly) d of
        (Inl e, d1) \<Rightarrow> if e = ErrNotExist then p9_OpenFile readOnly True (\<not> readOnly) d1 else (Inl e, d1)
      | (Inr h, d1) \<Rightarrow> (Inr h, d1))"

definition p9_release :: "nat \<Rightarrow> p9_file \<Rightarrow> p9_file" where
  "p9_release h d = d\<lparr>p9_open := filter (\<lambda>x. fst x \<noteq> h) (p9_open d)\<rparr>"

inductive p9_step :: "p9_file \<Rightarrow> p9_file \<Rightarrow> bool" where
  "p9_newFileLock readOnly d = (r, d') \<Longrightarrow> p9_step d d'"
| "p9_step d (p9_release h d)"

definition p9_new :: p9_file where
  "p9_new = \<lparr>p9_excl = None, p9_open = [], p9_next = 0\<rparr>"

subsection \<open>NaCl\<close>

definition ENOTSUP :: go_error where
  "ENOTSUP = Plain_error ''operation not supported''"

definition nacl_newFileLock :: "bool \<Rightarrow> 'd \<Rightarrow> (go_error + nat) \<times> 'd" where
  "nacl_newFileLock readOnly d = (Inl ENOTSUP, d)"

subsection \<open>Renaming\<close>

text \<open>\<open>MoveFileExW\<close> returns zero on failure; the last error may be zero then.\<close>

definition moveFileEx :: "bool \<Rightarrow> go_error option \<Rightarrow> go_error option" where
  "moveFileEx failed last_error =
     (if failed then (case last_error of Some e \<Rightarrow> Some e | None \<Rightarrow> Some (Plain_error ''invalid argument'')) else None)"

definition win_rename :: "string \<Rightarrow> string \<Rightarrow> file_storage \<Rightarrow> go_error option \<times> file_storage" where
  "win_rename old new s =
     (case utf16_ptr old of
        Some e \<Rightarrow> (Some e, s)
      | None \<Rightarrow>
          (case utf16_ptr new of
             Some e \<Rightarrow> (Some e, s)
           | None \<Rightarrow> (case sys_rename old new s of (r, s1) \<Rightarrow> (moveFileEx (r \<noteq> None) r, s1))))"

text \<open>Plan 9 cannot rename onto an existing file, which is removed first.\<close>

definition p9_rename :: "string \<Rightarrow> string \<Rightarrow> file_storage \<Rightarrow> go_error option \<times> file_storage" where
  "p9_rename old new s =
     (case sys_stat new s of
        (Some e, s1) \<Rightarrow> sys_rename old new s1
      | (None, s1) \<Rightarrow>
          (case sys_remove new s1 of
             (Some e, s2) \<Rightarrow> (Some e, s2)
           | (None, s2) \<Rightarrow> sys_rename old new s2))"

definition nacl_rename :: "string \<Rightarrow> string \<Rightarrow> file_storage \<Rightarrow> go_error option \<times> file_storage" where
  "nacl_rename old new s = (Some ENOTSUP, s)"

text \<open>\<open>syncDir\<close> of Solaris and Plan 9 reports every error of \<open>Sync\<close>.\<close>

definition strict_syncDir :: "file_storage \<Rightarrow> go_error option \<times> file_storage" where
  "strict_syncDir s =
     (case sys_plain s of
        (Some e, s1) \<Rightarrow> (Some e, s1)
      | (None, s1) \<Rightarrow> (case sys_plain s1 of (r, s2) \<Rightarrow> (r, snd (sys_plain s2))))"

definition nacl_syncDir :: "file_storage \<Rightarrow> go_error option \<times> file_storage" where
  "nacl_syncDir s = (Some ENOTSUP, s)"

definition solaris :: platform where
  "solaris = \<lparr>pf_rename = sys_rename, pf_syncDir = strict_syncDir\<rparr>"

definition windows :: platform where
  "windows = \<lparr>pf_rename = win_rename, pf_syncDir = (\<lambda>s. (None, s))\<rparr>"

definition plan9 :: platform where
  "plan9 = \<lparr>pf_rename = p9_rename, pf_syncDir = strict_syncDir\<rparr>"

definition nacl :: platform where
  "nacl = \<lparr>pf_rename = nacl_rename, pf_syncDir = nacl_syncDir\<rparr>"

subsection \<open>The platforms meet the contract\<close>

lemma strict_syncDir_kept:
  assumes "strict_syncDir s = (r, s')"
  shows "kept {} s s'"
proof -
  obtain e1 s1 where 1: "sys_plain s = (e1, s1)" by (cases "sys_plain s")
  obtain e2 s2 where 2: "sys_plain s1 = (e2, s2)" by (cases "sys_plain s1")
  obtain e3 s3 where 3: "sys_plain s2 = (e3, s3)" by (cases "sys_plain s2")
  from assms 1 2 3 have "s' = s1 \<or> s' = s3" by (auto simp: strict_syncDir_def split: option.splits)
  then show ?thesis
    using kept_trans [OF kept_trans [OF sys_plain_kept [OF 1] sys_plain_kept [OF 2]] sys_plain_kept [OF 3]]
      sys_plain_kept [OF 1] by auto
qed

lemma strict_syncDir_quiet: "fs_faults s = [] \<Longrightarrow> strict_syncDir s = (None, s)"
  by (simp add: strict_syncDir_def quiet_simps)

interpretation solaris: platform_contract solaris True
proof
  show "kept {} s s'" if "pf_syncDir solaris s = (r, s')" for s r s'
    using strict_syncDir_kept that by (simp add: solaris_def)
qed (use unix.ren_kept unix.ren_moved unix.ren_failed unix.ren_quiet in
    \<open>auto simp: solaris_def unix_def strict_syncDir_quiet\<close>)

lemma win_rename_cases:
  assumes "win_rename a b s = (r, s')"
  shows "r \<noteq> None \<and> s' = s \<or> sys_rename a b s = (r, s')"
  using assms
  by (cases "utf16_ptr a"; cases "utf16_ptr b") (auto simp: win_rename_def moveFileEx_def split: option.splits prod.splits)

interpretation windows: platform_contract windows True
proof
  fix a b s r s' assume run: "pf_rename windows a b s = (r, s')" and ne: "a \<noteq> b"
  then have cases: "r \<noteq> None \<and> s' = s \<or> sys_rename a b s = (r, s')" using win_rename_cases by (simp add: windows_def)
  show "kept {a, b} s s'" using cases sys_rename_spec(1) [OF _ ne] by auto
next
  fix a b s s' assume "pf_rename windows a b s = (None, s')" and ne: "a \<noteq> b"
  then show "gm_get (fs_files s') a = None \<and> gm_get (fs_files s') b = gm_get (fs_files s) a"
    using win_rename_cases [of a b s None s'] sys_rename_spec(3) [OF _ ne] by (auto simp: windows_def)
next
  fix a b s e s' assume "pf_rename windows a b s = (Some e, s')" and ne: "a \<noteq> b"
  then show "gm_get (fs_files s') a = gm_get (fs_files s) a \<and>
      (gm_get (fs_files s') b = gm_get (fs_files s) b \<or> \<not> True \<and> gm_get (fs_files s') b = None)"
    using win_rename_cases [of a b s "Some e" s'] sys_rename_spec(2) [OF _ ne] by (auto simp: windows_def)
next
  fix a b and s :: file_storage
  assume "fs_faults s = []" "plain_name a" "plain_name b" "gm_get (fs_files s) a \<noteq> None"
  then show "\<exists>s'. pf_rename windows a b s = (None, s') \<and> fs_faults s' = []"
    by (auto simp: windows_def win_rename_def utf16_ptr_def plain_name_def quiet_simps moveFileEx_def)
qed (simp_all add: windows_def)

lemma sys_remove_spec:
  assumes "sys_remove n s = (r, s')"
  shows "kept {n} s s'" and "r = None \<Longrightarrow> gm_get (fs_files s') n = None"
    and "r \<noteq> None \<Longrightarrow> gm_get (fs_files s') x = gm_get (fs_files s) x"
  using assms by (auto simp: sys_remove_def kept_def map_simps split: list.splits fault.splits if_splits)

lemma p9_rename_cases:
  assumes "p9_rename a b s = (r, s')"
  obtains (direct) s1 where "kept {} s s1" "sys_rename a b s1 = (r, s')"
  | (stuck) "r \<noteq> None" "kept {} s s'"
  | (removed) s2 where "kept {b} s s2" "gm_get (fs_files s2) b = None" "sys_rename a b s2 = (r, s')"
proof -
  obtain e1 s1 where st: "sys_stat b s = (e1, s1)" by (cases "sys_stat b s")
  note k1 = sys_stat_kept [OF st]
  show thesis
  proof (cases e1)
    case (Some e)
    with assms st have "sys_rename a b s1 = (r, s')" by (simp add: p9_rename_def)
    with k1 show thesis by (rule direct)
  next
    case None
    obtain e2 s2 where rm: "sys_remove b s1 = (e2, s2)" by (cases "sys_remove b s1")
    note rm' = sys_remove_spec [OF rm]
    show thesis
    proof (cases e2)
      case (Some e)
      then have "kept {} s s2" using kept_trans [OF k1 rm'(1)] k1 rm'(3) by (auto simp: kept_def)
      moreover have "r \<noteq> None" "s' = s2" using assms st None rm Some by (auto simp: p9_rename_def)
      ultimately show thesis using stuck by simp
    next
      case e2: None
      have "kept {b} s s2" using kept_trans [OF k1 rm'(1)] by simp
      moreover have "sys_rename a b s2 = (r, s')" using assms st None rm e2 by (simp add: p9_rename_def)
      ultimately show thesis using removed rm'(2) e2 by blast
    qed
  qed
qed

interpretation plan9: platform_contract plan9 False
proof
  fix a b s r s' assume "pf_rename plan9 a b s = (r, s')" and ne: "a \<noteq> b"
  then have "p9_rename a b s = (r, s')" by (simp add: plan9_def)
  then show "kept {a, b} s s'"
  proof (cases rule: p9_rename_cases)
    case (direct s1)
    then show ?thesis using kept_trans [OF direct(1) sys_rename_spec(1) [OF direct(2) ne]] by simp
  next
    case (removed s2)
    then show ?thesis
      using kept_mono [OF kept_trans [OF removed(1) sys_rename_spec(1) [OF removed(3) ne]]] by blast
  qed (blast intro: kept_mono)
next
  fix a b s s' assume "pf_rename plan9 a b s = (None, s')" and ne: "a \<noteq> b"
  then have "p9_rename a b s = (None, s')" by (simp add: plan9_def)
  then show "gm_get (fs_files s') a = None \<and> gm_get (fs_files s') b = gm_get (fs_files s) a"
  proof (cases rule: p9_rename_cases)
    case (direct s1)
    then show ?thesis using sys_rename_spec(3) [OF direct(2) ne] kept_get [OF direct(1)] by simp
  next
    case (removed s2)
    then show ?thesis using sys_rename_spec(3) [OF removed(3) ne] kept_get [OF removed(1)] ne by simp
  qed simp
next
  fix a b s e s' assume "pf_rename plan9 a b s = (Some e, s')" and ne: "a \<noteq> b"
  then have "p9_rename a b s = (Some e, s')" by (simp add: plan9_def)
  then show "gm_get (fs_files s') a = gm_get (fs_files s) a \<and>
      (gm_get (fs_files s') b = gm_get (fs_files s) b \<or> \<not> False \<and> gm_get (fs_files s') b = None)"
  proof (cases rule: p9_rename_cases)
    case (direct s1)
    then show ?thesis using sys_rename_spec(2) [OF direct(2) ne] kept_get [OF direct(1)] by simp
  next
    case stuck
    then show ?thesis using kept_get [OF stuck(2)] by simp
  next
    case (removed s2)
    then show ?thesis using sys_rename_spec(2) [OF removed(3) ne] kept_get [OF removed(1)] ne by simp
  qed
next
  fix a b and s :: file_storage
  assume "fs_faults s = []" "gm_get (fs_files s) a \<noteq> None" "a \<noteq> b"
  then show "\<exists>s'. pf_rename plan9 a b s = (None, s') \<and> fs_faults s' = []"
    by (cases "gm_get (fs_files s) b") (auto simp: plan9_def p9_rename_def quiet_simps map_simps)
next
  show "kept {} s s'" if "pf_syncDir plan9 s = (r, s')" for s r s'
    using strict_syncDir_kept that by (simp add: plan9_def)
qed (simp add: plan9_def strict_syncDir_quiet)

subsection \<open>The locks\<close>

definition win_acquire :: "bool \<Rightarrow> win_file \<Rightarrow> nat option \<times> win_file" where
  "win_acquire readOnly d =
     (case win_newFileLock ''LOCK'' readOnly d of (Inl e, d') \<Rightarrow> (None, d') | (Inr h, d') \<Rightarrow> (Some h, d'))"

definition win_holders :: "win_file \<Rightarrow> (nat \<times> bool) list" where
  "win_holders d = map (\<lambda>(h, w, sh). (h, \<not> w)) (wf_open d)"

definition win_new :: win_file where
  "win_new = \<lparr>wf_exists = False, wf_open = [], wf_next = 0\<rparr>"

text \<open>Handles are numbered below the next number, writers share nothing and readers share reading.\<close>

definition win_ok :: "win_file \<Rightarrow> bool" where
  "win_ok d \<longleftrightarrow> (\<forall>(h, w, sh)\<in>set (wf_open d). h < wf_next d \<and> sh = (\<not> w)) \<and> (wf_exists d \<or> wf_open d = [])"

lemma win_acquire_eq:
  assumes "win_ok d"
  shows "win_acquire readOnly d =
    (if lock_free readOnly (win_holders d)
     then (Some (wf_next d), d\<lparr>wf_exists := True, wf_open := (wf_next d, \<not> readOnly, readOnly) # wf_open d, wf_next := Suc (wf_next d)\<rparr>)
     else (None, d))"
proof -
  have shares: "snd (snd x) = (\<not> fst (snd x))" if "x \<in> set (wf_open d)" for x
    using assms that by (fastforce simp: win_ok_def)
  have "list_all (\<lambda>(h, w, sh). sh \<and> readOnly \<and> readOnly \<and> \<not> w) (wf_open d) =
      (wf_open d = [] \<or> readOnly \<and> list_all (\<lambda>x. \<not> fst (snd x)) (wf_open d))"
    using shares by (cases "wf_open d") (auto simp: list_all_iff split_beta)
  also have "\<dots> = lock_free readOnly (win_holders d)"
    by (auto simp: lock_free_def win_holders_def list_all_iff split_beta)
  finally have sharing: "list_all (\<lambda>(h, w, sh). sh \<and> readOnly \<and> readOnly \<and> \<not> w) (wf_open d) = lock_free readOnly (win_holders d)" .
  have "wf_exists d" if "\<not> lock_free readOnly (win_holders d)"
    using assms that by (auto simp: win_ok_def lock_free_def win_holders_def split: if_splits)
  then show ?thesis
    using sharing by (auto simp: win_acquire_def win_newFileLock_def utf16_ptr_def CreateFile_def file_not_found_def sharing_violation_def)
qed

interpretation win: shared_lock win_acquire win_release win_holders win_ok
proof
  fix d readOnly assume ok: "win_ok d" and "lock_free readOnly (win_holders d)"
  moreover have "wf_next d \<notin> fst ` set (win_holders d)" using ok by (fastforce simp: win_ok_def win_holders_def)
  ultimately show "\<exists>h. fst (win_acquire readOnly d) = Some h \<and> h \<notin> fst ` set (win_holders d) \<and>
      win_holders (snd (win_acquire readOnly d)) = (h, readOnly) # win_holders d"
    by (simp add: win_acquire_eq win_holders_def)
next
  fix d h assume "win_ok d"
  then show "win_holders (snd (win_release None h d)) = filter (\<lambda>x. fst x \<noteq> h) (win_holders d)"
    by (simp add: win_release_def win_holders_def filter_map comp_def split_beta)
  show "win_holders (snd (win_release (Some e) h d)) = win_holders d" for e
    by (simp add: win_release_def)
  show "win_ok (snd (win_release fault h d))" for fault
    using \<open>win_ok d\<close> by (auto simp: win_ok_def win_release_def split: option.split)
next
  fix d readOnly assume "win_ok d"
  then show "win_ok (snd (win_acquire readOnly d))"
    by (auto simp: win_acquire_eq win_ok_def less_Suc_eq)
qed (simp add: win_acquire_eq)

text \<open>Locks of different processes agree on Solaris.\<close>

definition sol_ok :: "fcntl_file \<Rightarrow> bool" where
  "sol_ok d \<longleftrightarrow> gm_ok (fc_locks d) \<and>
     (\<forall>p q sh sh'. gm_get (fc_locks d) p = Some sh \<longrightarrow> gm_get (fc_locks d) q = Some sh' \<longrightarrow> p \<noteq> q \<longrightarrow> sh \<and> sh')"

lemma fcntl_close_ok: "sol_ok d \<Longrightarrow> sol_ok (fcntl_close p d)"
  by (auto simp: sol_ok_def fcntl_close_def map_simps split: if_splits)

lemma fcntl_lock_ok:
  assumes "sol_ok d" and "fcntl_lock p shared d = Some d'"
  shows "sol_ok d'"
proof -
  have gm: "gm_ok (fc_locks d)" using assms(1) by (simp add: sol_ok_def)
  have compatible: "q = p \<or> shared \<and> sh" if "gm_get (fc_locks d) q = Some sh" for q sh
    using assms(2) that gm_in_set [OF gm, of q sh] by (auto simp: fcntl_lock_def list_all_iff split: if_splits)
  have locks: "fc_locks d' = gm_put p shared (fc_locks d)"
    using assms(2) by (auto simp: fcntl_lock_def split: if_splits)
  show ?thesis unfolding sol_ok_def locks
  proof (intro conjI allI impI)
    fix a b sh sh'
    assume "gm_get (gm_put p shared (fc_locks d)) a = Some sh" "gm_get (gm_put p shared (fc_locks d)) b = Some sh'" "a \<noteq> b"
    then show "sh" "sh'"
      using assms(1) compatible [of a sh] compatible [of b sh'] by (auto simp: sol_ok_def map_simps split: if_splits)
  qed (simp add: gm map_simps)
qed

lemma sol_ok_cong: "fc_locks d' = fc_locks d \<Longrightarrow> sol_ok d \<Longrightarrow> sol_ok d'"
  unfolding sol_ok_def by (erule ssubst)

lemma sol_step_ok: "sol_step d d' \<Longrightarrow> sol_ok d \<Longrightarrow> sol_ok d'"
proof (induction rule: sol_step.induct)
  case (1 p readOnly d r d')
  let ?d1 = "d\<lparr>fc_exists := True\<rparr>"
  have ok: "sol_ok ?d1" by (rule sol_ok_cong [OF _ 1(2)]) simp
  show ?case
  proof (cases "fcntl_lock p readOnly ?d1")
    case None
    with 1(1) have "d' = fcntl_close p ?d1" by (simp add: sol_newFileLock_def)
    with fcntl_close_ok [OF ok] show ?thesis by simp
  next
    case (Some d2)
    with 1(1) have "fc_locks d' = fc_locks d2" by (auto simp: sol_newFileLock_def)
    then show ?thesis using fcntl_lock_ok [OF ok Some] by (rule sol_ok_cong)
  qed
next
  case (2 d unlock_err close_err h)
  show ?case
  proof (cases "unlock_err = None \<and> find (\<lambda>x. fst x = h) (fc_open d) \<noteq> None")
    case True
    then obtain i p ro where "find (\<lambda>x. fst x = h) (fc_open d) = Some (i, p, ro)" by auto
    with True have "fc_locks (snd (sol_release unlock_err close_err h d)) = fc_locks (fcntl_close p d)"
      by (simp add: sol_release_def fcntl_close_def)
    then show ?thesis using fcntl_close_ok [OF 2, of p] by (rule sol_ok_cong)
  qed (use 2 in \<open>auto simp: sol_release_def split: option.split\<close>)
qed

lemma sol_reach_ok: "sol_step\<^sup>*\<^sup>* sol_new d \<Longrightarrow> sol_ok d"
proof (induction rule: rtranclp_induct)
  case base
  show ?case by (simp add: sol_new_def sol_ok_def gm_get_def gm_ok_def)
qed (rule sol_step_ok)

text \<open>An exclusive-use file is open at most once on Plan 9.\<close>

lemma p9_newFileLock_eq:
  "p9_newFileLock readOnly d =
     (let opened = d\<lparr>p9_open := (p9_next d, readOnly) # p9_open d, p9_next := Suc (p9_next d)\<rparr> in
      case p9_excl d of
        None \<Rightarrow> (Inr (p9_next d), opened\<lparr>p9_excl := Some (\<not> readOnly)\<rparr>)
      | Some x \<Rightarrow> if x \<and> p9_open d \<noteq> [] then (Inl exclusive_use, d) else (Inr (p9_next d), opened))"
  by (auto simp: p9_newFileLock_def p9_OpenFile_def exclusive_use_def Let_def split: option.split)

definition p9_ok :: "p9_file \<Rightarrow> bool" where
  "p9_ok d \<longleftrightarrow> (p9_excl d = Some True \<longrightarrow> length (p9_open d) \<le> 1) \<and> (p9_excl d = None \<longrightarrow> p9_open d = [])"

lemma p9_step_ok: "p9_step d d' \<Longrightarrow> p9_ok d \<Longrightarrow> p9_ok d'"
proof (induction rule: p9_step.induct)
  case (1 readOnly d r d')
  then show ?case
    by (cases "p9_excl d") (auto simp: p9_newFileLock_eq p9_ok_def Let_def split: if_splits)
next
  case (2 d h)
  from 2 show ?case by (auto simp: p9_ok_def p9_release_def intro: le_trans [OF length_filter_le])
qed

lemma p9_reach_ok: "p9_step\<^sup>*\<^sup>* p9_new d \<Longrightarrow> p9_ok d"
proof (induction rule: rtranclp_induct)
  case base
  show ?case by (simp add: p9_new_def p9_ok_def)
qed (rule p9_step_ok)

subsection \<open>Properties\<close>

text \<open>
  C40: The file locks of Unix and Windows, so different underneath, keep the same contract: in every
  run of requests and releases, which may fail, a writer is alone, a request succeeds exactly if there is no
  holder, or for reading no writer, and a release that does not fail frees what its handle held.
\<close>

theorem file_locks_contract:
  "(let d = lock_run flock_acquire flock_release cs new_dir in
      (\<forall>x\<in>set (od_holders d). \<not> snd x \<longrightarrow> od_holders d = [x]) \<and>
      (fst (flock_acquire readOnly d) \<noteq> None \<longleftrightarrow> lock_free readOnly (od_holders d)) \<and>
      h \<notin> fst ` set (od_holders (snd (flock_release None h d)))) \<and>
   (let d = lock_run win_acquire win_release cs win_new in
      (\<forall>x\<in>set (win_holders d). \<not> snd x \<longrightarrow> win_holders d = [x]) \<and>
      (fst (win_acquire readOnly d) \<noteq> None \<longleftrightarrow> lock_free readOnly (win_holders d)) \<and>
      h \<notin> fst ` set (win_holders (snd (win_release None h d))))"
  using flock.lock_contract [of new_dir cs readOnly h] win.lock_contract [of win_new cs readOnly h]
  by (simp add: new_dir_def win_new_def win_ok_def win_holders_def Let_def)

lemma file_locks_contract_witness:
  "let d = lock_run flock_acquire flock_release [Acquire False] new_dir in
     length (od_holders d) = 1 \<and> fst (flock_acquire False d) = None"
proof -
  let ?d = "lock_run flock_acquire flock_release [Acquire False] new_dir"
  have held: "od_holders ?d = [(od_next ?d - 1, False)]"
    by (simp add: flock_acquire_def newFileLock_def can_lock_def new_dir_def)
  with file_locks_contract [of "[Acquire False]" False 0] show ?thesis
    by (simp add: Let_def lock_free_def del: lock_run.simps)
qed

text \<open>
  On Solaris the lock is one of processes: two processes never hold conflicting record locks,
  but closing one of two storages of a process drops its lock, and then two processes have the
  directory open for writing.
\<close>

theorem solaris_lock_per_process:
  assumes "p \<noteq> q"
  shows "(\<forall>d sh sh'. sol_step\<^sup>*\<^sup>* sol_new d \<longrightarrow> gm_get (fc_locks d) p = Some sh \<longrightarrow>
      gm_get (fc_locks d) q = Some sh' \<longrightarrow> sh \<and> sh') \<and>
    (\<exists>d h h'. sol_step\<^sup>*\<^sup>* sol_new d \<and> (h, p, False) \<in> set (fc_open d) \<and> (h', q, False) \<in> set (fc_open d))"
proof (intro conjI)
  let ?a = "\<lparr>fc_exists = True, fc_locks = [(p, False)], fc_open = [(0, p, False)], fc_next = 1\<rparr>"
  let ?b = "\<lparr>fc_exists = True, fc_locks = [(p, False)], fc_open = [(1, p, False), (0, p, False)], fc_next = 2\<rparr>"
  let ?c = "\<lparr>fc_exists = True, fc_locks = [], fc_open = [(0, p, False)], fc_next = 2\<rparr>"
  let ?d = "\<lparr>fc_exists = True, fc_locks = [(q, False)], fc_open = [(2, q, False), (0, p, False)], fc_next = 3\<rparr>"
  have "sol_newFileLock p False sol_new = (Inr 0, ?a)"
    by (simp add: sol_newFileLock_def sol_new_def fcntl_lock_def gm_put_def Let_def)
  moreover have "sol_newFileLock p False ?a = (Inr 1, ?b)"
    by (simp add: sol_newFileLock_def fcntl_lock_def gm_put_def Let_def)
  moreover have "snd (sol_release None None 1 ?b) = ?c"
    by (simp add: sol_release_def fcntl_close_def gm_del_def)
  moreover have "sol_newFileLock q False ?c = (Inr 2, ?d)"
    by (simp add: sol_newFileLock_def fcntl_lock_def gm_put_def Let_def)
  ultimately have "sol_step sol_new ?a" "sol_step ?a ?b" "sol_step ?b ?c" "sol_step ?c ?d"
    using sol_step.intros by metis+
  then have "sol_step\<^sup>*\<^sup>* sol_new ?d" by (meson converse_rtranclp_into_rtranclp r_into_rtranclp)
  then show "\<exists>d h h'. sol_step\<^sup>*\<^sup>* sol_new d \<and> (h, p, False) \<in> set (fc_open d) \<and> (h', q, False) \<in> set (fc_open d)"
    by (intro exI [of _ ?d] exI [of _ 0] exI [of _ 2]) simp
qed (use sol_reach_ok assms in \<open>fastforce simp: sol_ok_def\<close>)

lemma solaris_lock_per_process_witness:
  "\<exists>d h h'. sol_step\<^sup>*\<^sup>* sol_new d \<and> (h, 7, False) \<in> set (fc_open d) \<and> (h', 8, False) \<in> set (fc_open d)"
  using solaris_lock_per_process [of 7 8] by simp

text \<open>
  On Plan 9 who creates \<open>LOCK\<close> decides for ever: created by a writer it is open at most once,
  even for reading; created by a reader it locks nothing, every request succeeds, and two
  writers can be open at once.
\<close>

theorem plan9_lock_by_creator:
  "(\<forall>d. p9_step\<^sup>*\<^sup>* p9_new d \<longrightarrow>
     (p9_excl d = Some True \<longrightarrow> length (p9_open d) \<le> 1) \<and>
     (p9_excl d = Some False \<longrightarrow> fst (p9_newFileLock readOnly d) = Inr (p9_next d))) \<and>
   (\<exists>d h h'. p9_step\<^sup>*\<^sup>* p9_new d \<and> h \<noteq> h' \<and> (h, False) \<in> set (p9_open d) \<and> (h', False) \<in> set (p9_open d))"
proof (intro conjI allI impI)
  let ?d = "\<lparr>p9_excl = Some False, p9_open = [(2, False), (1, False), (0, True)], p9_next = 3\<rparr>"
  let ?b = "\<lparr>p9_excl = Some False, p9_open = [(1, False), (0, True)], p9_next = 2\<rparr>"
  let ?a = "\<lparr>p9_excl = Some False, p9_open = [(0, True)], p9_next = 1\<rparr>"
  have "p9_newFileLock True p9_new = (Inr 0, ?a)" "p9_newFileLock False ?a = (Inr 1, ?b)" "p9_newFileLock False ?b = (Inr 2, ?d)"
    by (simp_all add: p9_newFileLock_eq p9_new_def Let_def)
  then have "p9_step p9_new ?a" "p9_step ?a ?b" "p9_step ?b ?d" using p9_step.intros(1) by metis+
  then have "p9_step\<^sup>*\<^sup>* p9_new ?d" by (meson converse_rtranclp_into_rtranclp r_into_rtranclp)
  then show "\<exists>d h h'. p9_step\<^sup>*\<^sup>* p9_new d \<and> h \<noteq> h' \<and> (h, False) \<in> set (p9_open d) \<and> (h', False) \<in> set (p9_open d)"
    by (intro exI [of _ ?d] exI [of _ 1] exI [of _ 2]) simp
qed (use p9_reach_ok in \<open>auto simp: p9_ok_def p9_newFileLock_eq Let_def\<close>)

lemma plan9_lock_by_creator_witness:
  "let d = snd (p9_newFileLock False p9_new) in p9_excl d = Some True \<and> length (p9_open d) \<le> 1"
proof -
  let ?d = "snd (p9_newFileLock False p9_new)"
  have "p9_step p9_new ?d" by (rule p9_step.intros(1) [of False _ "fst (p9_newFileLock False p9_new)"]) simp
  then have "p9_step\<^sup>*\<^sup>* p9_new ?d" by (rule r_into_rtranclp)
  moreover have created: "p9_excl ?d = Some True" by (simp add: p9_newFileLock_eq p9_new_def Let_def)
  ultimately have "length (p9_open ?d) \<le> 1" using plan9_lock_by_creator by blast
  with created show ?thesis by (simp add: Let_def)
qed

end
