(* ===== verification/File_Meta.thy ===== *)
theory File_Meta
  imports Platforms
begin

text \<open>
  The pointer to the current manifest: a call of \<open>SetMeta\<close> that is interrupted by a fault at
  any system call leaves a directory from which \<open>GetMeta\<close> recovers the old or the new
  descriptor, and repairs it.  The lemmas hold under the contract of a platform, so for Unix,
  Solaris, Windows and Plan 9.
\<close>

subsection \<open>The states an interrupted update leaves\<close>

text \<open>
  Either the old pointer is in place and the file \<open>CURRENT.n\<close>, if it is new, holds a
  beginning of the new line; or the new pointer is in place and \<open>CURRENT.n\<close> is gone; or, when
  renaming is not atomic, the pointer is gone and \<open>CURRENT.n\<close> holds the new line, and if \<open>backed\<close>
  the backup holds the old pointer.
\<close>

definition half_set :: "bool \<Rightarrow> bool \<Rightarrow> string \<Rightarrow> string \<Rightarrow> file_storage \<Rightarrow> file_storage \<Rightarrow> bool" where
  "half_set atomic backed path line s s' \<longleftrightarrow>
     kept {Current, Current_bak, path} s s' \<and>
     ((gm_get (fs_files s') Current = gm_get (fs_files s) Current \<and>
       (gm_get (fs_files s') path = gm_get (fs_files s) path \<or> (\<exists>k. gm_get (fs_files s') path = Some (take k line)))) \<or>
      (gm_get (fs_files s') Current = Some line \<and>
       (gm_get (fs_files s') path = None \<or> gm_get (fs_files s') path = gm_get (fs_files s) path)) \<or>
      (\<not> atomic \<and> gm_get (fs_files s') Current = None \<and> gm_get (fs_files s') path = Some line \<and>
       (backed \<longrightarrow> gm_get (fs_files s') Current_bak = gm_get (fs_files s) Current)))"

lemma pending_not_current [simp]: "pending_name n \<noteq> Current" "Current \<noteq> pending_name n" "Current_bak \<noteq> Current" "Current \<noteq> Current_bak"
  by (simp_all add: pending_name_def Current_def Current_bak_def)

lemma is_digit_not_b: "\<not> is_digit (CHR ''b'')"
  by (simp add: is_digit_def)

lemma pending_not_bak:
  assumes "0 \<le> n"
  shows "pending_name n \<noteq> Current_bak"
proof
  assume "pending_name n = Current_bak"
  then have "dec_nat (nat n) = ''bak''" using assms by (simp add: pending_name_def Current_bak_def dec_int_def)
  with dec_nat_digits [of "nat n"] is_digit_not_b show False by simp
qed

lemma half_set_kept:
  assumes k: "kept {Current_bak} s t" and h: "half_set atomic backed path line t s'" and "path \<noteq> Current_bak"
  shows "half_set atomic backed path line s s'"
proof -
  have "kept {Current, Current_bak, path} s s'"
    using kept_mono [OF kept_trans [OF k]] h by (auto simp: half_set_def)
  moreover have "gm_get (fs_files t) Current = gm_get (fs_files s) Current"
    and "gm_get (fs_files t) path = gm_get (fs_files s) path"
    using kept_get [OF k] assms(3) by auto
  ultimately show ?thesis using h by (simp add: half_set_def)
qed

lemma half_set_early: "kept {Current_bak} s s' \<Longrightarrow> path \<noteq> Current_bak \<Longrightarrow> half_set atomic backed path line s s'"
  using kept_get [of "{Current_bak}" s s'] kept_mono [of "{Current_bak}" s s' "{Current, Current_bak, path}"]
  by (auto simp: half_set_def)

context platform_contract begin

lemma half_set_replace:
  assumes run: "setMeta_replace pf fd line s = (r, s')" and n: "pending_name (fd_num fd) \<noteq> Current_bak"
    and bak: "backed \<longrightarrow> gm_get (fs_files s) Current_bak = gm_get (fs_files s) Current"
  shows "half_set atomic backed (pending_name (fd_num fd)) line s s'"
    and "r = None \<Longrightarrow> gm_get (fs_files s') Current = Some line"
proof -
  let ?path = "pending_name (fd_num fd)"
  obtain e1 s1 where w: "writeFileSynced ?path line s = (e1, s1)" by (cases "writeFileSynced ?path line s")
  note w' = writeFileSynced_spec [OF w]
  have k1: "kept {Current, Current_bak, ?path} s s1" by (rule kept_mono [OF w'(1)]) simp
  have cur1: "gm_get (fs_files s1) Current = gm_get (fs_files s) Current"
    using kept_get [OF w'(1), of Current] by simp
  have both: "half_set atomic backed ?path line s s' \<and> (r = None \<longrightarrow> gm_get (fs_files s') Current = Some line)"
  proof (cases e1)
    case (Some e)
    with run w have "r = Some e" and "s' = fs_log (''create '' @ ?path @ '': '' @ os_text e) s1"
      by (auto simp: setMeta_replace_def Let_def)
    with k1 cur1 w'(2) show ?thesis by (simp add: half_set_def)
  next
    case None
    obtain e2 s2 where rn: "pf_rename pf ?path Current s1 = (e2, s2)" by (cases "pf_rename pf ?path Current s1")
    note k12 = ren_kept [OF rn pending_not_current(1)]
    have k2: "kept {Current, Current_bak, ?path} s s2"
      using kept_mono [OF kept_trans [OF k1 k12]] by auto
    show ?thesis
    proof (cases e2)
      case (Some e)
      with run w None rn have "r = Some e" and "s' = fs_log (''rename '' @ ?path @ '': '' @ os_text e) s2"
        by (auto simp: setMeta_replace_def Let_def)
      moreover have "gm_get (fs_files s2) ?path = Some line"
        "gm_get (fs_files s2) Current = gm_get (fs_files s1) Current \<or> \<not> atomic \<and> gm_get (fs_files s2) Current = None"
        using ren_failed [of ?path Current s1 e s2] rn Some w'(3) None by auto
      moreover have "gm_get (fs_files s2) Current_bak = gm_get (fs_files s) Current_bak"
        using kept_get [OF k12, of Current_bak] kept_get [OF w'(1), of Current_bak] n by simp
      ultimately show ?thesis using k2 cur1 bak by (auto simp: half_set_def intro: exI [of _ "length line"])
    next
      case e2: None
      obtain e3 s3 where sy: "pf_syncDir pf s2 = (e3, s3)" by (cases "pf_syncDir pf s2")
      note k3 = sync_kept [OF sy]
      have "s' = s3 \<or> (\<exists>m. s' = fs_log m s3)"
        using run w None rn e2 sy by (auto simp: setMeta_replace_def Let_def split: option.splits)
      moreover have "kept {Current, Current_bak, ?path} s s3"
        using kept_mono [OF kept_trans [OF k2 k3]] by auto
      moreover have "gm_get (fs_files s3) Current = Some line" "gm_get (fs_files s3) ?path = None"
        using ren_moved [of ?path Current s1 s2] rn e2 w'(3) None kept_get [OF k3] by auto
      ultimately show ?thesis by (auto simp: half_set_def)
    qed
  qed
  then show "half_set atomic backed ?path line s s'" "r = None \<Longrightarrow> gm_get (fs_files s') Current = Some line" by blast+
qed

lemma setMeta_half:
  assumes run: "setMeta pf fd s = (r, s')" and n: "0 \<le> fd_num fd"
  shows "half_set atomic (fst (sys_stat Current s) \<noteq> Some ErrNotExist) (pending_name (fd_num fd)) (gen_name fd @ [newline]) s s'"
    and "r = None \<Longrightarrow> gm_get (fs_files s') Current = Some (gen_name fd @ [newline])"
proof -
  let ?line = "gen_name fd @ [newline]"
  note pb = pending_not_bak [OF n]
  obtain e1 s1 where st: "sys_stat Current s = (e1, s1)" by (cases "sys_stat Current s")
  have k1: "kept {Current_bak} s s1" by (rule kept_mono [OF sys_stat_kept [OF st]]) simp
  have both: "half_set atomic (fst (sys_stat Current s) \<noteq> Some ErrNotExist) (pending_name (fd_num fd)) ?line s s' \<and> (r = None \<longrightarrow> gm_get (fs_files s') Current = Some ?line)"
  proof (cases e1)
    case (Some e)
    show ?thesis
    proof (cases "e = ErrNotExist")
      case True
      with run st Some have "setMeta_replace pf fd ?line s1 = (r, s')" by (simp add: setMeta_def Let_def)
      from half_set_replace [OF this pb, of False] half_set_kept [OF k1 _ pb] st Some True show ?thesis by auto
    next
      case False
      with run st Some have "r = Some e" "s' = s1" by (auto simp: setMeta_def Let_def)
      with half_set_early [OF k1 pb] show ?thesis by simp
    qed
  next
    case None
    obtain b s2 where rd: "sys_read Current s1 = (b, s2)" by (cases "sys_read Current s1")
    have k2: "kept {Current_bak} s s2" using kept_trans [OF k1 sys_read_kept [OF rd]] by simp
    show ?thesis
    proof (cases b)
      case (Inl e)
      with run st None rd have "r = Some e" "s' = fs_log (''backup CURRENT: '' @ os_text e) s2"
        by (auto simp: setMeta_def Let_def)
      with half_set_early [OF _ pb] k2 show ?thesis by simp
    next
      case (Inr c)
      show ?thesis
      proof (cases "c = ?line")
        case True
        with run st None rd Inr have "s' = s2" by (auto simp: setMeta_def Let_def)
        with half_set_early [OF k2 pb] sys_read_Inr [of Current s1 c s2] rd Inr True show ?thesis by simp
      next
        case False
        obtain e3 s3 where w: "writeFileSynced Current_bak c s2 = (e3, s3)" by (cases "writeFileSynced Current_bak c s2")
        have k3: "kept {Current_bak} s s3"
          using kept_trans [OF k2 writeFileSynced_spec(1) [OF w]] by simp
        show ?thesis
        proof (cases e3)
          case (Some e)
          with run st None rd Inr False w have "r = Some e" "s' = fs_log (''backup CURRENT: '' @ os_text e) s3"
            by (auto simp: setMeta_def Let_def)
          with half_set_early [OF _ pb] k3 show ?thesis by simp
        next
          case e3: None
          with run st None rd Inr False w have "setMeta_replace pf fd ?line s3 = (r, s')"
            by (simp add: setMeta_def Let_def)
          moreover have "gm_get (fs_files s3) Current_bak = gm_get (fs_files s3) Current"
            using writeFileSynced_spec(3) [OF w] e3 sys_read_Inr [of Current s1 c s2] rd Inr
              kept_get [OF writeFileSynced_spec(1) [OF w], of Current] by simp
          ultimately show ?thesis using half_set_replace [OF _ pb, of _ s3] half_set_kept [OF k3 _ pb] by blast
        qed
      qed
    qed
  qed
  then show "half_set atomic (fst (sys_stat Current s) \<noteq> Some ErrNotExist) (pending_name (fd_num fd)) ?line s s'"
    "r = None \<Longrightarrow> gm_get (fs_files s') Current = Some ?line" by blast+
qed

end

subsection \<open>Recovery\<close>

definition fd_good :: "file_desc \<Rightarrow> bool" where
  "fd_good fd \<longleftrightarrow> FileDescOk fd \<and> fd_int64 fd"

definition meta_line :: "file_desc \<Rightarrow> string" where
  "meta_line fd = gen_name fd @ [newline]"

text \<open>A directory whose \<open>CURRENT\<close> names an existing file, with no update under way.\<close>

definition clean :: "file_storage \<Rightarrow> file_desc \<Rightarrow> bool" where
  "clean s fd \<longleftrightarrow>
     fs_faults s = [] \<and> \<not> fs_readOnly s \<and> 0 \<le> fs_open s \<and> gm_ok (fs_files s) \<and>
     (\<forall>x\<in>gm_keys (fs_files s). pending_num x = []) \<and>
     fd_good fd \<and> gm_get (fs_files s) Current = Some (meta_line fd) \<and>
     gm_get (fs_files s) (gen_name fd) \<noteq> None"

lemma fd_good_num: "fd_good fd \<Longrightarrow> 0 \<le> fd_num fd \<and> fd_num fd < 2 ^ 63"
  by (auto simp: fd_good_def FileDescOk_def fd_int64_def)

lemma gen_name_parse:
  assumes "fd_good fd"
  shows "fsParseName (gen_name fd) = (fd, True)"
proof -
  have ok: "FileDescOk fd" "fd_int64 fd" using assms by (simp_all add: fd_good_def)
  obtain name where name: "fsGenName fd = Inr name" using fsGenName_Inr [OF ok(1)] by blast
  with parse_gen_name [OF ok name] show ?thesis by (simp add: gen_name_def)
qed

lemma parse_C_name: "snd (fsParseName (CHR ''C'' # s)) = False"
proof -
  have "scan_int (CHR ''C'' # s) = None"
    by (simp add: scan_int_def is_space_def is_digit_def parse_int64_def digits_value_def)
  moreover have "match_lit ''MANIFEST-'' (CHR ''C'' # s) = None" by simp
  ultimately show ?thesis by (simp add: fsParseName_def sscanf_num_dot_tail_def sscanf_manifest_def)
qed

lemma gen_name_distinct:
  assumes "fd_good fd"
  shows "gen_name fd \<noteq> Current" and "gen_name fd \<noteq> Current_bak" and "gen_name fd \<noteq> pending_name n"
proof -
  have "gen_name fd \<noteq> CHR ''C'' # s" for s
    using gen_name_parse [OF assms] parse_C_name [of s] by auto
  then show "gen_name fd \<noteq> Current" and "gen_name fd \<noteq> Current_bak" and "gen_name fd \<noteq> pending_name n"
    by (simp_all add: Current_def Current_bak_def pending_name_def)
qed

lemma digits_no_newline: "list_all is_digit ds \<Longrightarrow> newline \<notin> set ds"
  by (induction ds) (auto simp: is_digit_def newline_def)

lemma dec_pad_no_newline: "0 \<le> n \<Longrightarrow> newline \<notin> set (dec_pad w n)"
  by (simp add: dec_pad_nonneg digits_no_newline [OF zero_pad_digits [OF dec_nat_digits]])

lemma gen_name_no_newline: "fd_good fd \<Longrightarrow> newline \<notin> set (gen_name fd)"
proof -
  assume "fd_good fd"
  then have ok: "FileDescOk fd" and n: "0 \<le> fd_num fd" using fd_good_num by (auto simp: fd_good_def)
  have d: "newline \<notin> set (dec_pad w (fd_num fd))" for w by (rule dec_pad_no_newline [OF n])
  have nl: "newline \<notin> set ''MANIFEST-''" "newline \<notin> set ''.log''" "newline \<notin> set ''.ldb''" "newline \<notin> set ''.tmp''"
    by (simp_all add: newline_def)
  from ok show ?thesis
    using d nl by (cases rule: FileDescOk_cases) (simp_all add: gen_name_def fsGenName_def file_type_defs)
qed

lemma pending_num_names [simp]:
  "pending_num Current = []" "pending_num Current_bak = []"
  by (simp_all add: pending_num_def Current_def Current_bak_def has_prefix_def)

lemma pending_num_name:
  assumes "0 \<le> n" and "n < 2 ^ 63"
  shows "pending_num (pending_name n) = [n]"
proof -
  have dec: "dec_int n = dec_nat (nat n)" using assms(1) by (simp add: dec_int_def)
  have "nat_of_digits 0 (dec_nat (nat n)) = nat n" by (rule nat_of_digits_dec_nat)
  then have "parse_int64 (dec_nat (nat n)) = Some (int (nat n))"
    using parse_int64_digits [of "dec_nat (nat n)"] dec_nat_digits [of "nat n"] assms by simp
  then show ?thesis
    using assms(1) pending_not_bak [OF assms(1)] by (simp add: pending_num_def pending_name_def has_prefix_def dec)
qed

lemma concat_single:
  assumes "distinct xs" and "x \<in> set xs" and "f x = [v]" and "\<And>y. y \<in> set xs \<Longrightarrow> y \<noteq> x \<Longrightarrow> f y = []"
  shows "concat (map f xs) = [v]"
  using assms
proof (induction xs)
  case (Cons a xs)
  show ?case
  proof (cases "a = x")
    case True
    with Cons.prems have "f y = []" if "y \<in> set xs" for y using that by auto
    then have "concat (map f xs) = []" by simp
    with True Cons.prems(3) show ?thesis by simp
  next
    case False
    with Cons show ?thesis by auto
  qed
qed simp

lemma pending_nums_none:
  assumes "\<forall>x\<in>gm_keys m. pending_num x = []"
  shows "pending_nums (map fst m) = []"
proof -
  have "concat (map pending_num (map fst m)) = []" using assms by (auto simp: gm_keys_def)
  then show ?thesis by (simp only: pending_nums_def sort_key_simps rev.simps)
qed

lemma pending_nums_one:
  assumes "gm_ok m" and "0 \<le> n" and "n < 2 ^ 63" and "pending_name n \<in> gm_keys m"
    and "\<forall>x\<in>gm_keys m. x \<noteq> pending_name n \<longrightarrow> pending_num x = []"
  shows "pending_nums (map fst m) = [n]"
proof -
  have "concat (map pending_num (map fst m)) = [n]"
    by (rule concat_single [where x = "pending_name n"])
      (use assms pending_num_name [OF assms(2,3)] in \<open>auto simp: gm_ok_def gm_keys_def\<close>)
  then show ?thesis by (simp add: pending_nums_def)
qed

text \<open>Reading a pointer file when nothing fails.\<close>

lemma tryCurrent_good:
  assumes "fs_faults s = []" and "gm_get (fs_files s) name = Some (meta_line fd)" and "fd_good fd"
    and "gm_get (fs_files s) (gen_name fd) \<noteq> None"
  shows "tryCurrent name s = (Inr (name, fd), s)"
  using assms gen_name_parse [OF assms(3)] by (auto simp: tryCurrent_def quiet_simps meta_line_def)

lemma tryCurrent_torn:
  assumes "fs_faults s = []" and "gm_get (fs_files s) name = Some (take k (meta_line fd))" and "fd_good fd"
    and "k < length (meta_line fd)"
  shows "tryCurrent name s = (Inl corrupted_current, fs_log (name @ '': corrupted content'') s)"
proof -
  have b: "take k (meta_line fd) = take k (gen_name fd)" using assms(4) by (simp add: meta_line_def)
  have "\<not> (take k (gen_name fd) \<noteq> [] \<and> last (take k (gen_name fd)) = newline)"
    using gen_name_no_newline [OF assms(3)] in_set_takeD [of newline k "gen_name fd"]
    by (metis last_in_set)
  with assms(1,2) show ?thesis unfolding b by (auto simp: tryCurrent_def quiet_simps)
qed

lemma writeFileSynced_quiet:
  assumes "fs_faults s = []"
  shows "writeFileSynced n data s = (None, put_file n data (put_file n '''' s))"
  using assms by (simp add: writeFileSynced_def quiet_simps Let_def file_of_def map_simps)

lemma plain_pending: "plain_name (pending_name n)" and plain_current: "plain_name Current"
proof -
  have "\<not> is_digit (CHR 0x00)" by (simp add: is_digit_def)
  then have "CHR 0x00 \<notin> set (dec_nat k)" for k using dec_nat_digits [of k] by (auto simp: list_all_iff)
  then show "plain_name (pending_name n)" by (simp add: plain_name_def pending_name_def dec_int_def)
qed (simp add: plain_name_def Current_def)

context platform_contract begin

lemma setMeta_quiet:
  assumes "fs_faults t = []" and n: "0 \<le> fd_num fd"
  shows "\<exists>t'. setMeta pf fd t = (None, t') \<and> fs_faults t' = [] \<and>
    (gm_get (fs_files t) Current = Some (meta_line fd) \<longrightarrow> t' = t) \<and>
    (gm_get (fs_files t) Current \<noteq> Some (meta_line fd) \<longrightarrow> gm_get (fs_files t') (pending_name (fd_num fd)) = None)"
proof -
  let ?path = "pending_name (fd_num fd)"
  have rep: "\<exists>t'. setMeta_replace pf fd (meta_line fd) u = (None, t') \<and> fs_faults t' = [] \<and>
      gm_get (fs_files t') ?path = None" if u: "fs_faults u = []" for u
  proof -
    let ?w = "put_file ?path (meta_line fd) (put_file ?path '''' u)"
    obtain t' where t': "pf_rename pf ?path Current ?w = (None, t')" "fs_faults t' = []"
      using ren_quiet [of ?w ?path Current] u plain_pending plain_current by (auto simp: map_simps)
    with ren_moved [OF t'(1)] u show ?thesis
      by (simp add: setMeta_replace_def writeFileSynced_quiet sync_quiet Let_def)
  qed
  show ?thesis
  proof (cases "gm_get (fs_files t) Current")
    case None
    with assms(1) rep [OF assms(1)] show ?thesis
      by (auto simp: setMeta_def quiet_simps meta_line_def Let_def)
  next
    case (Some b)
    let ?u = "put_file Current_bak b (put_file Current_bak '''' t)"
    from Some assms(1) rep [of ?u] show ?thesis
      by (cases "b = meta_line fd") (auto simp: setMeta_def quiet_simps meta_line_def writeFileSynced_quiet Let_def)
  qed
qed

end

lemma remove_pending_quiet:
  assumes "fs_faults t = []"
  shows "fs_faults (remove_pending [x] t) = []" and "kept {x} t (remove_pending [x] t)"
    and "gm_get (fs_files (remove_pending [x] t)) x = None"
  using assms by (auto simp: quiet_simps kept_def map_simps)

lemma read_names_quiet: "fs_faults s = [] \<Longrightarrow> read_names s = (Inr (map fst (fs_files s)), s)"
  by (simp add: read_names_def quiet_simps Let_def)

subsection \<open>The update and the recovery together\<close>

text \<open>What an interrupted update of a clean directory leaves, with the schedule emptied.\<close>

definition interrupted :: "file_storage \<Rightarrow> file_desc \<Rightarrow> file_desc \<Rightarrow> file_storage \<Rightarrow> bool" where
  "interrupted s old new u \<longleftrightarrow>
     fs_faults u = [] \<and> kept {Current, Current_bak, pending_name (fd_num new)} s u \<and>
     ((gm_get (fs_files u) Current = Some (meta_line old) \<and>
       (gm_get (fs_files u) (pending_name (fd_num new)) = None \<or>
        (\<exists>k. gm_get (fs_files u) (pending_name (fd_num new)) = Some (take k (meta_line new))))) \<or>
      (gm_get (fs_files u) Current = Some (meta_line new) \<and>
       gm_get (fs_files u) (pending_name (fd_num new)) = None) \<or>
      (gm_get (fs_files u) Current = None \<and> gm_get (fs_files u) Current_bak = Some (meta_line old) \<and>
       gm_get (fs_files u) (pending_name (fd_num new)) = Some (meta_line new)))"

lemma clean_no_pending:
  assumes "clean s fd" and "0 \<le> n" and "n < 2 ^ 63"
  shows "gm_get (fs_files s) (pending_name n) = None"
proof (rule ccontr)
  assume "gm_get (fs_files s) (pending_name n) \<noteq> None"
  then have "pending_name n \<in> gm_keys (fs_files s)" by (simp add: gm_keys_get)
  with assms(1) have "pending_num (pending_name n) = []" unfolding clean_def by blast
  then show False by (simp add: pending_num_name [OF assms(2,3)])
qed

lemma interrupted_keys:
  assumes s: "clean s old" and u: "interrupted s old new u" and "x \<in> gm_keys (fs_files u)"
    and "x \<noteq> pending_name (fd_num new)"
  shows "pending_num x = []"
proof (cases "x = Current \<or> x = Current_bak")
  case False
  then have "gm_get (fs_files u) x = gm_get (fs_files s) x"
    using u assms(4) by (auto simp: interrupted_def kept_def)
  with assms(3) s show ?thesis by (auto simp: clean_def gm_keys_get)
qed auto

lemma interrupted_no_pending:
  assumes s: "clean s old" and u: "interrupted s old new u" and "gm_get (fs_files u) (pending_name (fd_num new)) = None"
  shows "\<forall>x\<in>gm_keys (fs_files u). pending_num x = []"
proof
  fix x
  assume x: "x \<in> gm_keys (fs_files u)"
  then have "gm_get (fs_files u) x \<noteq> None" by (simp add: gm_keys_get)
  with assms(3) have "x \<noteq> pending_name (fd_num new)" by metis
  with interrupted_keys [OF s u x] show "pending_num x = []" .
qed

lemma interrupted_target:
  assumes "interrupted s old new u" and "fd_good fd"
  shows "gm_get (fs_files u) (gen_name fd) = gm_get (fs_files s) (gen_name fd)"
  using assms gen_name_distinct [OF assms(2)] by (auto simp: interrupted_def kept_def)

lemma clean_mode: "clean s fd \<Longrightarrow> kept X s t \<Longrightarrow> \<not> fs_readOnly t \<and> 0 \<le> fs_open t \<and> gm_ok (fs_files t)"
  by (simp add: clean_def kept_def)

lemma gen_name_inj:
  assumes "fd_good a" and "fd_good b" and "gen_name a = gen_name b"
  shows "a = b"
proof -
  have "(a, True) = fsParseName (gen_name a)" by (rule gen_name_parse [OF assms(1), symmetric])
  also have "\<dots> = fsParseName (gen_name b)" by (rule arg_cong [OF assms(3)])
  also have "\<dots> = (b, True)" by (rule gen_name_parse [OF assms(2)])
  finally show ?thesis by simp
qed

lemma meta_line_inj: "fd_good a \<Longrightarrow> fd_good b \<Longrightarrow> meta_line a = meta_line b \<Longrightarrow> a = b"
  by (rule gen_name_inj) (simp_all add: meta_line_def)

text \<open>The candidate that the recovery prefers to the old descriptor.\<close>

definition best_meta :: "string \<Rightarrow> file_desc \<Rightarrow> file_desc \<Rightarrow> file_desc" where
  "best_meta b old new = (if b = meta_line new \<and> fd_num old < fd_num new then new else old)"

text \<open>A schedule in which no call fails with the error of a missing file.\<close>

definition honest :: "fault list \<Rightarrow> bool" where
  "honest fl \<longleftrightarrow> (\<forall>k. Fault ErrNotExist k \<notin> set fl)"

lemma stat_current:
  assumes "gm_get (fs_files s) Current \<noteq> None" and "honest (fs_faults s)"
  shows "fst (sys_stat Current s) \<noteq> Some ErrNotExist"
  using assms by (auto simp: sys_stat_def honest_def split: list.splits fault.splits)

context platform_contract begin

lemma setMeta_interrupted:
  assumes s: "clean s old" and fl: "t = s\<lparr>fs_faults := fl\<rparr>" and new: "fd_good new"
    and run: "setMeta pf new t = (r, t')" and honest: "atomic \<or> honest fl"
  shows "interrupted s old new (t'\<lparr>fs_faults := []\<rparr>)"
    and "r = None \<Longrightarrow> gm_get (fs_files t') Current = Some (meta_line new)"
proof -
  have n: "0 \<le> fd_num new" "fd_num new < 2 ^ 63" using fd_good_num [OF new] by auto
  note half = setMeta_half [OF run n(1)]
  have "gm_get (fs_files t) (pending_name (fd_num new)) = None"
    using clean_no_pending [OF s n] by (simp add: fl)
  moreover have cur: "gm_get (fs_files t) Current = Some (meta_line old)" using s by (simp add: clean_def fl)
  moreover have "atomic \<or> fst (sys_stat Current t) \<noteq> Some ErrNotExist"
    using honest stat_current [of t] cur by (auto simp: fl)
  ultimately show "interrupted s old new (t'\<lparr>fs_faults := []\<rparr>)"
    using half(1) by (auto simp: interrupted_def half_set_def kept_def fl meta_line_def)
  show "r = None \<Longrightarrow> gm_get (fs_files t') Current = Some (meta_line new)"
    using half(2) by (simp add: meta_line_def)
qed

text \<open>The repair: afterwards the chosen descriptor is current and no update is pending.\<close>

lemma repair_clean:
  assumes s: "clean s old" and u: "interrupted s old new u" and new: "fd_good new"
    and m: "m = old \<or> m = new"
    and target: "gm_get (fs_files s) (gen_name m) \<noteq> None"
    and w: "fs_faults w = []" "kept {} u w"
  shows "\<exists>v. setMeta pf m w = (None, v) \<and> clean (remove_pending [pending_name (fd_num new)] v) m"
proof -
  let ?path = "pending_name (fd_num new)"
  have good: "fd_good m" using m new s by (auto simp: clean_def)
  have n: "0 \<le> fd_num m" using fd_good_num [OF good] by simp
  obtain v where v: "setMeta pf m w = (None, v)" "fs_faults v = []"
    and same: "gm_get (fs_files w) Current = Some (meta_line m) \<Longrightarrow> v = w"
    and gone: "gm_get (fs_files w) Current \<noteq> Some (meta_line m) \<Longrightarrow> gm_get (fs_files v) (pending_name (fd_num m)) = None"
    using setMeta_quiet [OF w(1) n] by blast
  let ?x = "remove_pending [?path] v"
  note rp = remove_pending_quiet [OF v(2), of ?path]
  have half: "half_set atomic (fst (sys_stat Current w) \<noteq> Some ErrNotExist) (pending_name (fd_num m)) (gen_name m @ [newline]) w v"
    by (rule setMeta_half(1) [OF v(1) n])
  have k1: "kept ({Current, Current_bak, ?path} \<union> {Current, Current_bak, pending_name (fd_num m)}) s v"
    using kept_trans [OF kept_trans [OF _ w(2)]] u half by (fastforce simp: interrupted_def half_set_def)
  have k2: "kept ({Current, Current_bak, ?path} \<union> {Current, Current_bak, pending_name (fd_num m)} \<union> {?path}) s ?x"
    by (rule kept_trans [OF k1 rp(2)])
  have cur: "gm_get (fs_files ?x) Current = Some (meta_line m)"
    using setMeta_half(2) [OF v(1) n] kept_get [OF rp(2), of Current] by (simp add: meta_line_def)
  have pend: "gm_get (fs_files ?x) (pending_name (fd_num m)) = None"
  proof (cases "pending_name (fd_num m) = ?path")
    case True
    then show ?thesis using rp(3) by simp
  next
    case other: False
    then have x: "gm_get (fs_files ?x) (pending_name (fd_num m)) = gm_get (fs_files v) (pending_name (fd_num m))"
      using kept_get [OF rp(2)] by simp
    show ?thesis
    proof (cases "gm_get (fs_files w) Current = Some (meta_line m)")
      case True
      then have "gm_get (fs_files v) (pending_name (fd_num m)) = gm_get (fs_files s) (pending_name (fd_num m))"
        using same kept_get [OF w(2)] u other pending_not_bak [OF n] by (auto simp: interrupted_def kept_def)
      also have "\<dots> = None" using clean_no_pending [OF s] fd_good_num [OF good] by blast
      finally show ?thesis by (simp only: x)
    next
      case False
      then show ?thesis using gone x by simp
    qed
  qed
  have "pending_num y = []" if y: "y \<in> gm_keys (fs_files ?x)" for y
  proof (cases "y = Current \<or> y = Current_bak")
    case False
    moreover have "y \<noteq> ?path" "y \<noteq> pending_name (fd_num m)" using y rp(3) pend by (auto simp: gm_keys_get)
    ultimately have "gm_get (fs_files ?x) y = gm_get (fs_files s) y" using kept_get [OF k2, of y] by auto
    with y s show ?thesis by (auto simp: clean_def gm_keys_get)
  qed auto
  moreover have "gm_get (fs_files ?x) (gen_name m) \<noteq> None"
    using kept_get [OF k2, of "gen_name m"] gen_name_distinct [OF good] target by auto
  ultimately have "clean ?x m"
    using clean_mode [OF s k2] rp(1) good cur by (simp add: clean_def)
  with v(1) show ?thesis by blast
qed

lemma no_repair_clean:
  assumes s: "clean s old" and u: "interrupted s old new u"
    and m: "gm_get (fs_files u) Current = Some (meta_line m)" "fd_good m" "gm_get (fs_files s) (gen_name m) \<noteq> None"
    and "gm_get (fs_files u) (pending_name (fd_num new)) = None"
  shows "clean u m"
  unfolding clean_def
proof (intro conjI)
  have k: "kept {Current, Current_bak, pending_name (fd_num new)} s u" using u by (simp add: interrupted_def)
  show "\<not> fs_readOnly u" "0 \<le> fs_open u" "gm_ok (fs_files u)" using clean_mode [OF s k] by simp_all
  show "fs_faults u = []" using u by (simp add: interrupted_def)
  show "\<forall>x\<in>gm_keys (fs_files u). pending_num x = []" by (rule interrupted_no_pending [OF s u assms(6)])
  show "gm_get (fs_files u) (gen_name m) \<noteq> None" using interrupted_target [OF u m(2)] m(3) by simp
qed (use m in simp_all)

text \<open>\<open>GetMeta\<close> with one pending file, complete or torn.\<close>

lemma getMeta_pending:
  assumes quiet: "fs_faults u = []" and mode: "\<not> fs_readOnly u" "0 \<le> fs_open u"
    and nums: "pending_nums (map fst (fs_files u)) = [n]"
    and pend: "tryCurrent (pending_name n) u = (Inr (pending_name n, new), u)"
    and cur: "tryCurrent Current u = (Inr (Current, old), u)"
    and best: "best = (if fd_num old < fd_num new then new else old)"
    and set: "setMeta pf best u = (None, v)"
  shows "fs_GetMeta pf u = (Inr best, remove_pending [pending_name n] v)"
  using mode nums pend cur set
  by (cases "fd_num old < fd_num new")
    (simp_all add: fs_GetMeta_def read_names_quiet [OF quiet] choose_current_def Let_def best del: remove_pending.simps)

lemma getMeta_gone:
  assumes quiet: "fs_faults u = []" and mode: "\<not> fs_readOnly u" "0 \<le> fs_open u"
    and nums: "pending_nums (map fst (fs_files u)) = [n]"
    and pend: "tryCurrent (pending_name n) u = (Inr (pending_name n, new), u)"
    and cur: "tryCurrent Current u = (Inl ErrNotExist, u)" "tryCurrent Current_bak u = (Inr (Current_bak, old), u)"
    and best: "best = (if fd_num old < fd_num new then new else old)"
    and set: "setMeta pf best u = (None, v)"
  shows "fs_GetMeta pf u = (Inr best, remove_pending [pending_name n] v)"
  using mode nums pend cur set
  by (cases "fd_num old < fd_num new")
    (simp_all add: fs_GetMeta_def read_names_quiet [OF quiet] choose_current_def Let_def best del: remove_pending.simps)

lemma getMeta_torn:
  assumes quiet: "fs_faults u = []" and mode: "\<not> fs_readOnly u" "0 \<le> fs_open u" "\<not> fs_readOnly w"
    and nums: "pending_nums (map fst (fs_files u)) = [n]"
    and pend: "tryCurrent (pending_name n) u = (Inl corrupted_current, w)"
    and cur: "tryCurrent Current w = (Inr (Current, old), w)"
    and set: "setMeta pf old w = (None, v)"
  shows "fs_GetMeta pf u = (Inr old, remove_pending [pending_name n] v)"
  using mode nums pend cur set
  by (simp add: fs_GetMeta_def read_names_quiet [OF quiet] choose_current_def Let_def fatal_def
      corrupted_current_def storage_isCorrupted_def del: remove_pending.simps)

lemma recover_none:
  assumes s: "clean s old" and u: "interrupted s old new u" and new: "fd_good new"
    and target: "gm_get (fs_files s) (gen_name new) \<noteq> None"
    and none: "gm_get (fs_files u) (pending_name (fd_num new)) = None"
    and m: "gm_get (fs_files u) Current = Some (meta_line m)" "m = old \<or> m = new"
  shows "fs_GetMeta pf u = (Inr m, u)" and "clean u m"
proof -
  have quiet: "fs_faults u = []" and k: "kept {Current, Current_bak, pending_name (fd_num new)} s u"
    using u by (simp_all add: interrupted_def)
  have mode: "\<not> fs_readOnly u" "0 \<le> fs_open u" using clean_mode [OF s k] by auto
  have good: "fd_good m" and exists: "gm_get (fs_files s) (gen_name m) \<noteq> None"
    using m(2) s new target by (auto simp: clean_def)
  then have "gm_get (fs_files u) (gen_name m) \<noteq> None" by (simp add: interrupted_target [OF u good])
  then have "tryCurrent Current u = (Inr (Current, m), u)" by (rule tryCurrent_good [OF quiet m(1) good])
  moreover have "pending_nums (map fst (fs_files u)) = []"
    by (rule pending_nums_none [OF interrupted_no_pending [OF s u none]])
  ultimately show "fs_GetMeta pf u = (Inr m, u)"
    using mode by (simp add: fs_GetMeta_def read_names_quiet [OF quiet] fatal_def choose_current_def Let_def)
  show "clean u m" by (rule no_repair_clean [OF s u m(1) good exists none])
qed

lemma recover_some:
  assumes s: "clean s old" and u: "interrupted s old new u" and new: "fd_good new"
    and target: "gm_get (fs_files s) (gen_name new) \<noteq> None"
    and some: "gm_get (fs_files u) (pending_name (fd_num new)) = Some b"
  shows "gm_get (fs_files u) Current = Some (meta_line old) \<or>
      gm_get (fs_files u) Current = None \<and> gm_get (fs_files u) Current_bak = Some (meta_line old) \<and> b = meta_line new"
    and "\<exists>v. fs_GetMeta pf u = (Inr (best_meta b old new), v) \<and> clean v (best_meta b old new)"
proof -
  let ?path = "pending_name (fd_num new)"
  let ?best = "best_meta b old new"
  have quiet: "fs_faults u = []" and k: "kept {Current, Current_bak, ?path} s u"
    using u by (simp_all add: interrupted_def)
  show state: "gm_get (fs_files u) Current = Some (meta_line old) \<or>
      gm_get (fs_files u) Current = None \<and> gm_get (fs_files u) Current_bak = Some (meta_line old) \<and> b = meta_line new"
    using u some by (auto simp: interrupted_def)
  have b: "\<exists>k. b = take k (meta_line new)"
    using u some by (auto simp: interrupted_def intro: exI [of _ "length (meta_line new)"])
  have n: "0 \<le> fd_num new" "fd_num new < 2 ^ 63" using fd_good_num [OF new] by auto
  have mode: "\<not> fs_readOnly u" "0 \<le> fs_open u" "gm_ok (fs_files u)" using clean_mode [OF s k] by auto
  have old: "fd_good old" "gm_get (fs_files s) (gen_name old) \<noteq> None" using s by (simp_all add: clean_def)
  have targets: "gm_get (fs_files u) (gen_name old) \<noteq> None" "gm_get (fs_files u) (gen_name new) \<noteq> None"
    by (simp_all add: interrupted_target [OF u old(1)] interrupted_target [OF u new] old(2) target del: not_None_eq)
  have "?path \<in> gm_keys (fs_files u)" using some by (simp add: gm_keys_get)
  then have nums: "pending_nums (map fst (fs_files u)) = [fd_num new]"
    using interrupted_keys [OF s u] by (intro pending_nums_one [OF mode(3) n]) blast+
  have choice: "?best = old \<or> ?best = new" and t: "gm_get (fs_files s) (gen_name ?best) \<noteq> None"
    using old(2) target by (simp_all add: best_meta_def)
  show "\<exists>v. fs_GetMeta pf u = (Inr ?best, v) \<and> clean v ?best"
  proof (cases "b = meta_line new")
    case True
    from repair_clean [OF s u new choice t quiet kept_refl]
    obtain v where v: "setMeta pf ?best u = (None, v)" "clean (remove_pending [?path] v) ?best"
      by (elim exE conjE) (rule that)
    have pend: "tryCurrent ?path u = (Inr (?path, new), u)"
      by (rule tryCurrent_good [OF quiet _ new targets(2)]) (simp add: some True)
    have "fs_GetMeta pf u = (Inr ?best, remove_pending [?path] v)"
      using state
    proof (elim disjE conjE)
      assume "gm_get (fs_files u) Current = Some (meta_line old)"
      then have now: "tryCurrent Current u = (Inr (Current, old), u)"
        by (rule tryCurrent_good [OF quiet _ old(1) targets(1)])
      show ?thesis by (rule getMeta_pending [OF quiet mode(1,2) nums pend now _ v(1)]) (simp add: best_meta_def True)
    next
      assume none: "gm_get (fs_files u) Current = None" and bak: "gm_get (fs_files u) Current_bak = Some (meta_line old)"
      have now: "tryCurrent Current u = (Inl ErrNotExist, u)" using none by (simp add: tryCurrent_def quiet_simps quiet)
      have then_bak: "tryCurrent Current_bak u = (Inr (Current_bak, old), u)"
        by (rule tryCurrent_good [OF quiet bak old(1) targets(1)])
      show ?thesis
        by (rule getMeta_gone [OF quiet mode(1,2) nums pend now then_bak _ v(1)]) (simp add: best_meta_def True)
    qed
    with v(2) show ?thesis by (intro exI conjI)
  next
    case False
    then have best: "?best = old" and cur: "gm_get (fs_files u) Current = Some (meta_line old)"
      using state by (auto simp: best_meta_def)
    from b False obtain k where k: "b = take k (meta_line new)" "k < length (meta_line new)"
      by (metis not_less take_all)
    define w where "w = fs_log (?path @ '': corrupted content'') u"
    have w: "fs_faults w = []" "kept {} u w" "\<not> fs_readOnly w" "fs_files w = fs_files u"
      using quiet mode by (simp_all add: w_def)
    from repair_clean [OF s u new choice t w(1,2)]
    obtain v where v: "setMeta pf old w = (None, v)" "clean (remove_pending [?path] v) old"
      unfolding best by (elim exE conjE) (rule that)
    have pend: "tryCurrent ?path u = (Inl corrupted_current, w)"
      unfolding w_def by (rule tryCurrent_torn [OF quiet _ new k(2)]) (simp add: some k(1))
    have now: "tryCurrent Current w = (Inr (Current, old), w)"
      by (rule tryCurrent_good [OF w(1)]) (use w(4) cur old(1) targets(1) in simp_all)
    from getMeta_torn [OF quiet mode(1,2) w(3) nums pend now v(1)] v(2)
    show ?thesis unfolding best by (intro exI conjI)
  qed
qed

lemma recover:
  assumes s: "clean s old" and u: "interrupted s old new u" and new: "fd_good new"
    and target: "gm_get (fs_files s) (gen_name new) \<noteq> None"
  shows "\<exists>m v. fs_GetMeta pf u = (Inr m, v) \<and> (m = old \<or> m = new) \<and> clean v m \<and>
    (gm_get (fs_files u) Current = Some (meta_line new) \<longrightarrow> m = new)"
proof (cases "gm_get (fs_files u) (pending_name (fd_num new))")
  case None
  have "gm_get (fs_files u) Current = Some (meta_line old) \<or> gm_get (fs_files u) Current = Some (meta_line new)"
    using u None unfolding interrupted_def by fastforce
  then obtain m where m: "gm_get (fs_files u) Current = Some (meta_line m)" "m = old \<or> m = new"
      "gm_get (fs_files u) Current = Some (meta_line new) \<longrightarrow> m = new" by metis
  show ?thesis
    by (intro exI conjI) (rule recover_none [OF s u new target None m(1,2)] m(2,3))+
next
  case (Some b)
  note r = recover_some [OF s u new target Some]
  from r(2) obtain v where v: "fs_GetMeta pf u = (Inr (best_meta b old new), v)" "clean v (best_meta b old new)"
    by (elim exE conjE) (rule that)
  have best: "best_meta b old new = old \<or> best_meta b old new = new" by (simp add: best_meta_def)
  have "best_meta b old new = new" if "gm_get (fs_files u) Current = Some (meta_line new)"
  proof -
    from that r(1) have "meta_line old = meta_line new" by auto
    moreover have "fd_good old" using s by (simp add: clean_def)
    ultimately have "old = new" using new by (metis meta_line_inj)
    then show ?thesis by (simp add: best_meta_def)
  qed
  with v best show ?thesis by metis
qed

lemma interrupted_recovers:
  assumes clean: "clean s old" and new: "fd_good new" and target: "gm_get (fs_files s) (gen_name new) \<noteq> None"
    and honest: "atomic \<or> honest fl"
    and run: "fs_SetMeta pf new (s\<lparr>fs_faults := fl\<rparr>) = (r, t)"
  shows "\<exists>m v. fs_GetMeta pf (t\<lparr>fs_faults := []\<rparr>) = (Inr m, v) \<and> (m = old \<or> m = new) \<and>
    (r = None \<longrightarrow> m = new) \<and> clean v m"
proof -
  have "setMeta pf new (s\<lparr>fs_faults := fl\<rparr>) = (r, t)"
    using run clean new by (simp add: fs_SetMeta_def clean_def fd_good_def)
  note int = setMeta_interrupted [OF clean refl new this honest]
  from recover [OF clean int(1) new target] obtain m v where
    "fs_GetMeta pf (t\<lparr>fs_faults := []\<rparr>) = (Inr m, v)" "m = old \<or> m = new" "clean v m"
    "gm_get (fs_files (t\<lparr>fs_faults := []\<rparr>)) Current = Some (meta_line new) \<longrightarrow> m = new" by (elim exE conjE) (rule that)
  with int(2) show ?thesis by (intro exI conjI) auto
qed

end

text \<open>Two manifests, the first of them current.\<close>

definition two_manifests :: "file_desc \<Rightarrow> file_desc \<Rightarrow> file_storage" where
  "two_manifests old new = \<lparr>fs_readOnly = False, fs_slock = None, fs_locks = 0, fs_open = 0, fs_locked = True,
     fs_files = [(Current, meta_line old), (gen_name old, []), (gen_name new, [])], fs_faults = [], fs_logged = []\<rparr>"

lemma pending_num_gen_name:
  assumes "fd_good fd"
  shows "pending_num (gen_name fd) = []"
proof -
  have "\<not> has_prefix (gen_name fd) ''CURRENT.''"
  proof
    assume "has_prefix (gen_name fd) ''CURRENT.''"
    then obtain r where "gen_name fd = ''CURRENT.'' @ r" unfolding has_prefix_iff prefix_def by blast
    then have "gen_name fd = CHR ''C'' # ''URRENT.'' @ r" by simp
    then have "snd (fsParseName (gen_name fd)) = False" by (simp only: parse_C_name)
    then show False by (simp add: gen_name_parse [OF assms])
  qed
  then show ?thesis by (simp add: pending_num_def)
qed

lemma two_manifests_clean:
  assumes "fd_good old" and "fd_good new" and "old \<noteq> new"
  shows "clean (two_manifests old new) old" and "gm_get (fs_files (two_manifests old new)) (gen_name new) \<noteq> None"
proof -
  have ne: "gen_name old \<noteq> gen_name new" using gen_name_inj [OF assms(1,2)] assms(3) by blast
  show "clean (two_manifests old new) old"
    using ne gen_name_distinct [OF assms(1)] gen_name_distinct [OF assms(2)]
      pending_num_gen_name [OF assms(1)] pending_num_gen_name [OF assms(2)] assms(1)
    by (auto simp: clean_def two_manifests_def gm_ok_def gm_keys_def gm_get_def)
  show "gm_get (fs_files (two_manifests old new)) (gen_name new) \<noteq> None"
    using ne by (simp add: two_manifests_def gm_get_def)
qed

subsection \<open>Property\<close>

text \<open>
  C1: \<open>SetMeta\<close> is atomic under faults.  Start with \<open>CURRENT\<close> naming an existing file, let any
  schedule of failing system calls (torn writes included; a crash is a schedule in which
  everything fails from some call on) hit \<open>SetMeta\<close>: afterwards \<open>GetMeta\<close> returns the old or the
  new descriptor, the new one if \<open>SetMeta\<close> reported success, and leaves the directory repaired.
  This holds on Unix, Solaris and Windows, and on Plan 9, whose \<open>rename\<close> removes the target
  first, for schedules in which no call falsely reports a missing file.
\<close>

theorem meta_crash_atomic:
  assumes "clean s old" and "fd_good new" and "gm_get (fs_files s) (gen_name new) \<noteq> None"
    and "pf \<in> {unix, solaris, windows} \<or> pf = plan9 \<and> honest fl"
    and "fs_SetMeta pf new (s\<lparr>fs_faults := fl\<rparr>) = (r, t)"
  shows "\<exists>m v. fs_GetMeta pf (t\<lparr>fs_faults := []\<rparr>) = (Inr m, v) \<and> (m = old \<or> m = new) \<and>
    (r = None \<longrightarrow> m = new) \<and> clean v m"
  using assms(4,5) unix.interrupted_recovers [OF assms(1-3)] solaris.interrupted_recovers [OF assms(1-3)]
    windows.interrupted_recovers [OF assms(1-3)] plan9.interrupted_recovers [OF assms(1-3)]
  by blast

lemma meta_crash_atomic_witness:
  "let old = \<lparr>fd_type = TypeManifest, fd_num = 1\<rparr>; new = \<lparr>fd_type = TypeManifest, fd_num = 2\<rparr>;
       fl = replicate 8 No_fault @ replicate 9 (Fault (Plain_error ''no space'') 5);
       (r, t) = fs_SetMeta plan9 new (two_manifests old new\<lparr>fs_faults := fl\<rparr>) in
   \<exists>m v. fs_GetMeta plan9 (t\<lparr>fs_faults := []\<rparr>) = (Inr m, v) \<and> (m = old \<or> m = new) \<and>
     (r = None \<longrightarrow> m = new) \<and> clean v m"
proof -
  let ?old = "\<lparr>fd_type = TypeManifest, fd_num = 1\<rparr>" and ?new = "\<lparr>fd_type = TypeManifest, fd_num = 2\<rparr>"
  have good: "fd_good ?old" "fd_good ?new" by (simp_all add: fd_good_def FileDescOk_def fd_int64_def file_type_defs)
  have ne: "?old \<noteq> ?new" by simp
  show ?thesis
    unfolding Let_def split_beta
    by (rule meta_crash_atomic [OF two_manifests_clean(1) [OF good ne] good(2) two_manifests_clean(2) [OF good ne] _ prod.collapse [symmetric]])
      (simp add: honest_def)
qed

end
