(* ===== verification/File_View.thy ===== *)
theory File_View
  imports File_Meta
begin

text \<open>
  The file storage as a store of whole files: while no system call fails and no file with an
  old name is in the directory, it provides the same contract as the memory storage, with the
  descriptors' file names in the role of the keys.
\<close>

subsection \<open>Whole files\<close>

text \<open>Clients write and read a file through the wrapper that \<open>Create\<close> and \<open>Open\<close> return.\<close>

definition fs_store :: "file_desc \<Rightarrow> string \<Rightarrow> file_storage \<Rightarrow> go_error option \<times> file_storage" where
  "fs_store fd b s =
     (case fs_Create fd s of
        (Inl e, s1) \<Rightarrow> (Some e, s1)
      | (Inr w, s1) \<Rightarrow>
          (case sys_write (fw_name w) b s1 of
             ((n, Some e), s2) \<Rightarrow> (Some e, snd (fw_Close w s2))
           | ((n, None), s2) \<Rightarrow> (case fw_Close w s2 of ((e, w'), s3) \<Rightarrow> (e, s3))))"

definition fs_load :: "file_desc \<Rightarrow> file_storage \<Rightarrow> (go_error + string) \<times> file_storage" where
  "fs_load fd s =
     (case fs_Open fd s of
        (Inl e, s1) \<Rightarrow> (Inl e, s1)
      | (Inr w, s1) \<Rightarrow>
          (case sys_read (fw_name w) s1 of
             (Inl e, s2) \<Rightarrow> (Inl e, snd (fw_Close w s2))
           | (Inr b, s2) \<Rightarrow> (case fw_Close w s2 of ((None, w'), s3) \<Rightarrow> (Inr b, s3) | ((Some e, w'), s3) \<Rightarrow> (Inl e, s3))))"

definition fs_view :: "file_storage \<Rightarrow> file_desc \<Rightarrow> string option" where
  "fs_view s fd = (if fd_good fd then gm_get (fs_files s) (gen_name fd) else None)"

text \<open>No table is stored under its old name.\<close>

definition no_old_names :: "file_storage \<Rightarrow> bool" where
  "no_old_names s \<longleftrightarrow> (\<forall>fd. fd_good fd \<and> fsHasOldName fd \<longrightarrow> gm_get (fs_files s) (gen_old_name fd) = None)"

definition fs_ready :: "file_storage \<Rightarrow> bool" where
  "fs_ready s \<longleftrightarrow> fs_faults s = [] \<and> \<not> fs_readOnly s \<and> 0 \<le> fs_open s \<and> no_old_names s"

lemma fs_readyD:
  assumes "fs_ready s"
  shows "fs_faults s = []" and "\<not> fs_readOnly s" and "\<not> fs_open s < 0" and "no_old_names s"
  using assms by (simp_all add: fs_ready_def)

lemma gen_old_name_distinct:
  assumes "fd_good a" and "fsHasOldName a" and "fd_good b"
  shows "gen_old_name a \<noteq> gen_name b"
proof
  assume same: "gen_old_name a = gen_name b"
  have n: "0 \<le> fd_num a" "fd_num a < 2 ^ 63" using fd_good_num [OF assms(1)] by auto
  have t: "fd_type a = TypeTable" using assms(2) by (simp add: fsHasOldName_def)
  have old: "gen_old_name a = dec_pad 6 (fd_num a) @ ''.sst''" by (simp add: gen_old_name_def fsGenOldName_def t)
  have "(b, True) = (\<lparr>fd_type = TypeTable, fd_num = fd_num a\<rparr>, True)"
    using gen_name_parse [OF assms(3)] fsParseName_numbered(3) [OF n, of 6] same old by metis
  then have "gen_name b = dec_pad 6 (fd_num a) @ ''.ldb''" by (simp add: gen_name_def fsGenName_def file_type_defs)
  with same old show False by simp
qed

lemma no_old_names_put [simp]:
  assumes "fd_good fd"
  shows "no_old_names (s\<lparr>fs_files := gm_put (gen_name fd) b m\<rparr>) = no_old_names (s\<lparr>fs_files := m\<rparr>)"
  using gen_old_name_distinct [OF _ _ assms] by (auto simp: no_old_names_def map_simps)

lemma no_old_names_del: "no_old_names s \<Longrightarrow> no_old_names (s\<lparr>fs_files := gm_del name (fs_files s)\<rparr>)"
  by (simp add: no_old_names_def map_simps)

lemma gen_name_eq: "fd_good a \<Longrightarrow> fd_good b \<Longrightarrow> gen_name a = gen_name b \<longleftrightarrow> a = b"
  using gen_name_inj by blast

lemma fs_view_put: "fd_good fd \<Longrightarrow> fs_view (s\<lparr>fs_files := gm_put (gen_name fd) b m\<rparr>) = (fs_view (s\<lparr>fs_files := m\<rparr>))(fd \<mapsto> b)"
  by (auto simp: fs_view_def fun_eq_iff map_simps gen_name_eq)

lemma fs_view_del: "fd_good fd \<Longrightarrow> fs_view (s\<lparr>fs_files := gm_del (gen_name fd) m\<rparr>) = (fs_view (s\<lparr>fs_files := m\<rparr>))(fd := None)"
  by (auto simp: fs_view_def fun_eq_iff map_simps gen_name_eq)

lemma good_ok: "fd_good fd \<Longrightarrow> FileDescOk fd"
  by (simp add: fd_good_def)

subsection \<open>The laws\<close>

lemma fs_store_law:
  assumes ready: "fs_ready s" and good: "fd_good fd"
  shows "\<exists>s'. fs_store fd b s = (None, s') \<and> fs_ready s' \<and> fs_view s' = (fs_view s)(fd \<mapsto> b)"
proof -
  note r = fs_readyD [OF ready]
  let ?n = "gen_name fd"
  let ?s' = "s\<lparr>fs_files := gm_put ?n b (gm_put ?n '''' (fs_files s))\<rparr>"
  have "fs_store fd b s = (None, ?s')"
    using r good_ok [OF good]
    by (simp add: fs_store_def fs_Create_def opened_def fw_Close_def quiet_simps put_file_def file_of_def map_simps)
  moreover have "fs_ready ?s'" using ready good by (simp add: fs_ready_def)
  moreover have "fs_view ?s' = (fs_view s)(fd \<mapsto> b)" by (simp add: fs_view_put [OF good])
  ultimately show ?thesis by blast
qed

lemma fs_load_law:
  assumes ready: "fs_ready s" and good: "fd_good fd"
  shows "\<exists>s'. fs_load fd s = (case fs_view s fd of None \<Rightarrow> Inl ErrNotExist | Some b \<Rightarrow> Inr b, s') \<and> fs_ready s' \<and> fs_view s' = fs_view s"
proof -
  note r = fs_readyD [OF ready]
  have old: "fsHasOldName fd \<Longrightarrow> gm_get (fs_files s) (gen_old_name fd) = None"
    using r(4) good by (simp add: no_old_names_def)
  have "fs_load fd s = (case fs_view s fd of None \<Rightarrow> Inl ErrNotExist | Some b \<Rightarrow> Inr b, s)"
    using r good_ok [OF good] good old
    by (cases "gm_get (fs_files s) (gen_name fd)")
      (simp_all add: fs_load_def fs_Open_def sys_open_def opened_def fw_Close_def quiet_simps fs_view_def)
  with ready show ?thesis by blast
qed

lemma fs_remove_law:
  assumes ready: "fs_ready s" and good: "fd_good fd"
  shows "\<exists>s'. fs_Remove fd s = (if fs_view s fd = None then Some ErrNotExist else None, s') \<and> fs_ready s' \<and>
    fs_view s' = (fs_view s)(fd := None)"
proof (cases "gm_get (fs_files s) (gen_name fd)")
  case None
  note r = fs_readyD [OF ready]
  have old: "fsHasOldName fd \<Longrightarrow> gm_get (fs_files s) (gen_old_name fd) = None"
    using r(4) good by (simp add: no_old_names_def)
  have view: "fs_view s fd = None" using None by (simp add: fs_view_def)
  have "\<exists>s'. fs_Remove fd s = (Some ErrNotExist, s') \<and> (s' = s \<or> (\<exists>m. s' = fs_log m s))"
    using r good_ok [OF good] old None by (auto simp: fs_Remove_def quiet_simps)
  then obtain s' where s': "fs_Remove fd s = (Some ErrNotExist, s')" "s' = s \<or> (\<exists>m. s' = fs_log m s)" by blast
  then have "fs_ready s'" "fs_view s' = fs_view s"
    using ready by (auto simp: fs_ready_def no_old_names_def fs_view_def fun_eq_iff)
  with s'(1) view show ?thesis by (simp add: fun_upd_idem)
next
  case (Some b)
  note r = fs_readyD [OF ready]
  let ?s' = "s\<lparr>fs_files := gm_del (gen_name fd) (fs_files s)\<rparr>"
  have "fs_Remove fd s = (None, ?s')" using r good_ok [OF good] Some by (simp add: fs_Remove_def quiet_simps)
  moreover have "fs_ready ?s'" using ready no_old_names_del [OF r(4)] by (simp add: fs_ready_def)
  moreover have "fs_view ?s' = (fs_view s)(fd := None)" by (simp add: fs_view_del [OF good])
  moreover have "fs_view s fd \<noteq> None" using Some good by (simp add: fs_view_def)
  ultimately show ?thesis by simp
qed

lemma fs_rename_law:
  assumes ready: "fs_ready s" and old: "fd_good old" and new: "fd_good new"
  shows "\<exists>s'. fs_Rename unix old new s = (if old \<noteq> new \<and> fs_view s old = None then Some ErrNotExist else None, s') \<and>
    fs_ready s' \<and>
    fs_view s' = (if old = new \<or> fs_view s old = None then fs_view s else (fs_view s)(old := None, new := fs_view s old))"
proof (cases "old = new \<or> gm_get (fs_files s) (gen_name old) = None")
  case True
  then have "fs_Rename unix old new s = (if old \<noteq> new \<and> fs_view s old = None then Some ErrNotExist else None, s)"
    using fs_readyD [OF ready] good_ok [OF old] good_ok [OF new]
    by (auto simp: fs_Rename_def unix_def quiet_simps fs_view_def)
  with True ready show ?thesis by (auto simp: fs_view_def)
next
  case False
  note r = fs_readyD [OF ready]
  from False obtain b where b: "gm_get (fs_files s) (gen_name old) = Some b" and ne: "old \<noteq> new" by blast
  let ?s' = "s\<lparr>fs_files := gm_put (gen_name new) b (gm_del (gen_name old) (fs_files s))\<rparr>"
  have view: "fs_view s old = Some b" using b old by (simp add: fs_view_def)
  have "fs_Rename unix old new s = (None, ?s')"
    using r good_ok [OF old] good_ok [OF new] b ne by (simp add: fs_Rename_def unix_def quiet_simps)
  moreover have "fs_ready ?s'" using ready new no_old_names_del [OF r(4)] by (simp add: fs_ready_def)
  moreover have "fs_view ?s' = (fs_view s)(old := None, new := fs_view s old)"
    by (simp add: fs_view_put [OF new] fs_view_del [OF old] view)
  ultimately show ?thesis using ne view by simp
qed

interpretation fs_whole: whole_files fs_store fs_load fs_Remove "fs_Rename unix" fs_ready fd_good fs_view
  by unfold_locales (simp_all add: fs_store_law fs_load_law fs_remove_law fs_rename_law)

subsection \<open>Properties\<close>

text \<open>
  C11: Programs that store, load, remove and rename whole files on the file storage get exactly
  the answers of a map from descriptors to contents, and leave the storage in the state of that
  map, while no system call fails and no table is stored under its old name.
\<close>

theorem file_storage_refines_map:
  assumes "fs_ready s" and "\<forall>c\<in>set cs. \<forall>fd\<in>cmd_fds c. fd_good fd"
  shows "\<exists>s'. store_run (store_step fs_store fs_load fs_Remove (fs_Rename unix)) cs s =
      (fst (spec_run cs (fs_view s)), s') \<and> fs_ready s' \<and> fs_view s' = snd (spec_run cs (fs_view s))"
  by (rule fs_whole.run_refines [OF assms])

definition empty_storage :: file_storage where
  "empty_storage = \<lparr>fs_readOnly = False, fs_slock = None, fs_locks = 0, fs_open = 0, fs_locked = True,
     fs_files = [], fs_faults = [], fs_logged = []\<rparr>"

lemma empty_storage_ready: "fs_ready empty_storage"
  by (simp add: fs_ready_def no_old_names_def empty_storage_def)

lemma file_storage_refines_map_witness:
  "let t = \<lparr>fd_type = TypeTable, fd_num = 1\<rparr>; u = \<lparr>fd_type = TypeTemp, fd_num = 2\<rparr>;
       cs = [Cmd_store u ''ab'', Cmd_rename u t, Cmd_load t] in
   \<exists>s'. store_run (store_step fs_store fs_load fs_Remove (fs_Rename unix)) cs empty_storage =
      (fst (spec_run cs (fs_view empty_storage)), s') \<and> fs_ready s' \<and>
      fs_view s' = snd (spec_run cs (fs_view empty_storage))"
  unfolding Let_def
  by (rule file_storage_refines_map)
    (simp_all add: empty_storage_ready fd_good_def FileDescOk_def fd_int64_def file_type_defs)

end
