(* ===== verification/Buffer_Pool.thy ===== *)
theory Buffer_Pool
  imports Go_Fmt "HOL-Library.Multiset"
begin

text \<open>
  The pool of byte buffers of \<open>taudb/utils/buffer_pool.go\<close>: six channels of buffers by size
  class, with the counters and the size estimates that steer allocation.  A buffer is the
  address of its array and its capacity; the bytes play no part.  \<open>Get\<close>, \<open>Put\<close> and the rounds
  of the draining goroutine are atomic here; \<open>Pool_Threads\<close> has their steps, which are channel
  operations and atomic counters under a read lock.
\<close>

subsection \<open>State\<close>

record pool_buf =
  pb_addr :: nat
  pb_cap :: int

record buffer_pool =
  bp_pool :: "pool_buf list list"
  bp_size :: "u32 list"
  bp_sizeMiss :: "u32 list"
  bp_sizeHalf :: "u32 list"
  bp_baseline :: "int list"
  bp_baseline0 :: int
  bp_closed :: bool
  bp_closeC :: nat
  bp_drained :: bool
  bp_get :: u32
  bp_put :: u32
  bp_half :: u32
  bp_less :: u32
  bp_equal :: u32
  bp_greater :: u32
  bp_miss :: u32
  bp_next :: nat

text \<open>The capacities of the channels.\<close>

definition pool_caps :: "nat list" where "pool_caps = [2, 2, 4, 4, 2, 1]"

definition NewBufferPool :: "int \<Rightarrow> go_panic + buffer_pool" where
  "NewBufferPool baseline =
     (if baseline \<le> 0 then Inl (Panic_msg ''baseline can't be <= 0'')
      else Inr \<lparr>bp_pool = replicate 6 [], bp_size = replicate 5 0, bp_sizeMiss = replicate 5 0,
        bp_sizeHalf = replicate 5 0,
        bp_baseline = [baseline div 4, baseline div 2, wrap64 (baseline * 2), wrap64 (baseline * 4)],
        bp_baseline0 = baseline, bp_closed = False, bp_closeC = 0, bp_drained = False,
        bp_get = 0, bp_put = 0, bp_half = 0, bp_less = 0, bp_equal = 0, bp_greater = 0, bp_miss = 0,
        bp_next = 0\<rparr>)"

subsection \<open>Operations\<close>

fun baseline_num :: "int list \<Rightarrow> nat \<Rightarrow> int \<Rightarrow> nat" where
  "baseline_num [] i n = i"
| "baseline_num (x # xs) i n = (if n \<le> x then i else baseline_num xs (Suc i) n)"

definition poolNum :: "buffer_pool \<Rightarrow> int \<Rightarrow> nat" where
  "poolNum p n =
     (if n \<le> bp_baseline0 p \<and> n > bp_baseline0 p div 2 then 0 else baseline_num (bp_baseline p) 1 n)"

text \<open>\<open>make([]byte, n, c)\<close>: a fresh array; the result is a buffer and the length of the slice.\<close>

definition pool_make :: "int \<Rightarrow> int \<Rightarrow> buffer_pool \<Rightarrow> (go_panic + (pool_buf \<times> int)) \<times> buffer_pool" where
  "pool_make n c p =
     (if n < 0 \<or> c < n then (Inl Make_slice_len, p)
      else (Inr (\<lparr>pb_addr = bp_next p, pb_cap = c\<rparr>, n), p\<lparr>bp_next := Suc (bp_next p)\<rparr>))"

definition pool_reslice :: "pool_buf \<Rightarrow> int \<Rightarrow> go_panic + (pool_buf \<times> int)" where
  "pool_reslice b n = (if 0 \<le> n \<and> n \<le> pb_cap b then Inr (b, n) else Inl Slice_bounds)"

text \<open>The non-blocking receive and send.\<close>

definition pool_recv :: "nat \<Rightarrow> buffer_pool \<Rightarrow> (pool_buf \<times> buffer_pool) option" where
  "pool_recv k p =
     (case bp_pool p ! k of [] \<Rightarrow> None | b # bs \<Rightarrow> Some (b, p\<lparr>bp_pool := (bp_pool p)[k := bs]\<rparr>))"

definition pool_send :: "nat \<Rightarrow> pool_buf \<Rightarrow> buffer_pool \<Rightarrow> buffer_pool" where
  "pool_send k b p =
     (if length (bp_pool p ! k) < pool_caps ! k then p\<lparr>bp_pool := (bp_pool p)[k := bp_pool p ! k @ [b]]\<rparr> else p)"

text \<open>The buffer is at least twice as large as asked for.\<close>

definition twice_as_large :: "pool_buf \<Rightarrow> int \<Rightarrow> bool" where
  "twice_as_large b n \<longleftrightarrow> wrap64 (pb_cap b - n) \<ge> n"

definition get_fast :: "int \<Rightarrow> buffer_pool \<Rightarrow> (go_panic + (pool_buf \<times> int)) \<times> buffer_pool" where
  "get_fast n p =
     (case pool_recv 0 p of
        None \<Rightarrow> pool_make n (bp_baseline0 p) (p\<lparr>bp_miss := bp_miss p + 1\<rparr>)
      | Some (b, p1) \<Rightarrow>
          if pb_cap b > n then
            (if twice_as_large b n
             then pool_make n n (pool_send 0 b (p1\<lparr>bp_half := bp_half p1 + 1\<rparr>))
             else (pool_reslice b n, p1\<lparr>bp_less := bp_less p1 + 1\<rparr>))
          else if pb_cap b = n then (pool_reslice b n, p1\<lparr>bp_equal := bp_equal p1 + 1\<rparr>)
          else pool_make n (bp_baseline0 p1) (p1\<lparr>bp_greater := bp_greater p1 + 1\<rparr>))"

text \<open>The end of the slow path: adjust the size estimate and allocate.\<close>

definition note_miss :: "nat \<Rightarrow> int \<Rightarrow> buffer_pool \<Rightarrow> buffer_pool" where
  "note_miss j n p =
     (if bp_size p ! j = 0 then p\<lparr>bp_size := (bp_size p)[j := word_of_int n]\<rparr>
      else let m = bp_sizeMiss p ! j + 1 in
           if m = 20 then p\<lparr>bp_size := (bp_size p)[j := word_of_int n], bp_sizeMiss := (bp_sizeMiss p)[j := 0]\<rparr>
           else p\<lparr>bp_sizeMiss := (bp_sizeMiss p)[j := m]\<rparr>)"

definition get_sized :: "nat \<Rightarrow> int \<Rightarrow> buffer_pool \<Rightarrow> (go_panic + (pool_buf \<times> int)) \<times> buffer_pool" where
  "get_sized j n p =
     (if word_of_int n > bp_size p ! j then pool_make n n (note_miss j n p)
      else pool_make n (uint (bp_size p ! j)) p)"

definition note_half :: "nat \<Rightarrow> pool_buf \<Rightarrow> buffer_pool \<Rightarrow> buffer_pool" where
  "note_half k b p =
     (let j = k - 1; h = bp_sizeHalf p ! j + 1 in
      if h = 20 then p\<lparr>bp_size := (bp_size p)[j := word_of_int (pb_cap b div 2)], bp_sizeHalf := (bp_sizeHalf p)[j := 0]\<rparr>
      else pool_send k b (p\<lparr>bp_sizeHalf := (bp_sizeHalf p)[j := h]\<rparr>))"

definition get_slow :: "nat \<Rightarrow> int \<Rightarrow> buffer_pool \<Rightarrow> (go_panic + (pool_buf \<times> int)) \<times> buffer_pool" where
  "get_slow k n p =
     (case pool_recv k p of
        None \<Rightarrow> get_sized (k - 1) n (p\<lparr>bp_miss := bp_miss p + 1\<rparr>)
      | Some (b, p1) \<Rightarrow>
          if pb_cap b > n then
            (if twice_as_large b n
             then pool_make n n (note_half k b (p1\<lparr>bp_half := bp_half p1 + 1\<rparr>))
             else (pool_reslice b n, p1\<lparr>bp_less := bp_less p1 + 1\<rparr>))
          else if pb_cap b = n then (pool_reslice b n, p1\<lparr>bp_equal := bp_equal p1 + 1\<rparr>)
          else
            let p2 = p1\<lparr>bp_greater := bp_greater p1 + 1\<rparr>;
                p3 = (if word_of_int (pb_cap b) \<ge> bp_size p2 ! (k - 1) then pool_send k b p2 else p2)
            in get_sized (k - 1) n p3)"

definition pool_Get :: "int \<Rightarrow> buffer_pool \<Rightarrow> (go_panic + (pool_buf \<times> int)) \<times> buffer_pool" where
  "pool_Get n p =
     (if bp_closed p then pool_make n n p
      else let p1 = p\<lparr>bp_get := bp_get p + 1\<rparr>; k = poolNum p1 n
           in if k = 0 then get_fast n p1 else get_slow k n p1)"

definition pool_Put :: "pool_buf \<Rightarrow> buffer_pool \<Rightarrow> buffer_pool" where
  "pool_Put b p =
     (if bp_closed p then p
      else let p1 = p\<lparr>bp_put := bp_put p + 1\<rparr> in pool_send (poolNum p1 (pb_cap b)) b p1)"

definition pool_Close :: "buffer_pool \<Rightarrow> buffer_pool" where
  "pool_Close p = (if bp_closed p then p else p\<lparr>bp_closed := True, bp_closeC := bp_closeC p + 1\<rparr>)"

text \<open>The draining goroutine: one buffer of each channel at every tick, and the end.\<close>

definition drain_tick :: "buffer_pool \<Rightarrow> buffer_pool" where
  "drain_tick p = (if bp_drained p then p else p\<lparr>bp_pool := map tl (bp_pool p)\<rparr>)"

definition drain_close :: "buffer_pool \<Rightarrow> buffer_pool" where
  "drain_close p = (if bp_closeC p = 0 then p else p\<lparr>bp_closeC := bp_closeC p - 1, bp_drained := True\<rparr>)"

text \<open>\<open>%v\<close> of an array of counters; the middle dot is two bytes in UTF-8.\<close>

definition show_u32 :: "u32 \<Rightarrow> string" where
  "show_u32 w = dec_nat (unat w)"

fun show_items :: "u32 list \<Rightarrow> string" where
  "show_items [] = []"
| "show_items [w] = show_u32 w"
| "show_items (w # ws) = show_u32 w @ '' '' @ show_items ws"

definition show_u32s :: "u32 list \<Rightarrow> string" where
  "show_u32s ws = ''['' @ show_items ws @ '']''"

definition middle_dot :: string where
  "middle_dot = [CHR 0xC2, CHR 0xB7]"

text \<open>\<open>String\<close> of a nil pointer (\<open>None\<close>) is a fixed text.\<close>

definition pool_String :: "buffer_pool option \<Rightarrow> string" where
  "pool_String q =
     (case q of
        None \<Rightarrow> ''<nil>''
      | Some p \<Rightarrow>
          ''BufferPool{B'' @ middle_dot @ dec_int (bp_baseline0 p) @ '' Z'' @ middle_dot @ show_u32s (bp_size p) @
          '' Zm'' @ middle_dot @ show_u32s (bp_sizeMiss p) @ '' Zh'' @ middle_dot @ show_u32s (bp_sizeHalf p) @
          '' G'' @ middle_dot @ show_u32 (bp_get p) @ '' P'' @ middle_dot @ show_u32 (bp_put p) @
          '' H'' @ middle_dot @ show_u32 (bp_half p) @ '' <'' @ middle_dot @ show_u32 (bp_less p) @
          '' ='' @ middle_dot @ show_u32 (bp_equal p) @ '' >'' @ middle_dot @ show_u32 (bp_greater p) @
          '' M'' @ middle_dot @ show_u32 (bp_miss p) @ ''}'')"

lemma pool_String_new:
  "map_sum id (\<lambda>p. pool_String (Some p)) (NewBufferPool 7) =
     Inr (''BufferPool{B'' @ middle_dot @ ''7 Z'' @ middle_dot @ ''[0 0 0 0 0] Zm'' @ middle_dot @ ''[0 0 0 0 0] Zh'' @ middle_dot @
       ''[0 0 0 0 0] G'' @ middle_dot @ ''0 P'' @ middle_dot @ ''0 H'' @ middle_dot @ ''0 <'' @ middle_dot @ ''0 ='' @ middle_dot @
       ''0 >'' @ middle_dot @ ''0 M'' @ middle_dot @ ''0}'')"
  by code_simp

text \<open>A nil pool: \<open>Get\<close> allocates (an array of its own, at \<open>addr\<close>), the others do nothing.\<close>

definition nil_pool_Get :: "nat \<Rightarrow> int \<Rightarrow> go_panic + (pool_buf \<times> int)" where
  "nil_pool_Get addr n = (if n < 0 then Inl Make_slice_len else Inr (\<lparr>pb_addr = addr, pb_cap = n\<rparr>, n))"

subsection \<open>Invariant of the pool\<close>

text \<open>Every channel holds buffers of its own size class, within its capacity.\<close>

definition pool_ok :: "buffer_pool \<Rightarrow> bool" where
  "pool_ok p \<longleftrightarrow>
     length (bp_pool p) = 6 \<and> length (bp_size p) = 5 \<and> length (bp_sizeMiss p) = 5 \<and>
     length (bp_sizeHalf p) = 5 \<and> length (bp_baseline p) = 4 \<and> 0 < bp_baseline0 p \<and>
     (\<forall>k<6. length (bp_pool p ! k) \<le> pool_caps ! k \<and> (\<forall>b\<in>set (bp_pool p ! k). poolNum p (pb_cap b) = k))"

definition pool_bufs :: "buffer_pool \<Rightarrow> pool_buf multiset" where
  "pool_bufs p = mset (concat (bp_pool p))"

lemma poolNum_cong:
  "bp_baseline p' = bp_baseline p \<Longrightarrow> bp_baseline0 p' = bp_baseline0 p \<Longrightarrow> poolNum p' = poolNum p"
  by (simp add: poolNum_def fun_eq_iff)

lemma poolNum_fields [simp]:
  "poolNum (p\<lparr>bp_pool := x\<rparr>) = poolNum p" "poolNum (p\<lparr>bp_next := i\<rparr>) = poolNum p"
  "poolNum (p\<lparr>bp_half := c\<rparr>) = poolNum p" "poolNum (p\<lparr>bp_put := c\<rparr>) = poolNum p"
  "poolNum (p\<lparr>bp_get := c\<rparr>) = poolNum p" "poolNum (p\<lparr>bp_greater := c\<rparr>) = poolNum p"
  "poolNum (p\<lparr>bp_sizeHalf := xs\<rparr>) = poolNum p"
  by (rule poolNum_cong; simp)+

text \<open>The state with counters and estimates changed: nothing the invariant looks at.\<close>

definition same_pool :: "buffer_pool \<Rightarrow> buffer_pool \<Rightarrow> bool" where
  "same_pool p p' \<longleftrightarrow>
     bp_pool p' = bp_pool p \<and> bp_next p' = bp_next p \<and> bp_baseline p' = bp_baseline p \<and>
     bp_baseline0 p' = bp_baseline0 p \<and> length (bp_size p') = length (bp_size p) \<and>
     length (bp_sizeMiss p') = length (bp_sizeMiss p) \<and> length (bp_sizeHalf p') = length (bp_sizeHalf p)"

lemma same_pool_ok: "same_pool p p' \<Longrightarrow> pool_ok p' = pool_ok p"
  using poolNum_cong [of p' p] by (simp add: same_pool_def pool_ok_def)

lemma same_pool_bufs: "same_pool p p' \<Longrightarrow> pool_bufs p' = pool_bufs p \<and> bp_next p' = bp_next p"
  by (simp add: same_pool_def pool_bufs_def)

lemma poolNum_le: "pool_ok p \<Longrightarrow> poolNum p n < 6"
proof -
  have le: "baseline_num xs i n \<le> i + length xs" for xs i
    by (induction xs arbitrary: i) (auto, metis add_Suc_right add_Suc)
  assume "pool_ok p"
  then show ?thesis using le [of "bp_baseline p" 1] by (simp add: poolNum_def pool_ok_def)
qed

lemma baseline_num_pos: "0 < i \<Longrightarrow> baseline_num xs i n \<noteq> 0"
  by (induction xs arbitrary: i) auto

lemma poolNum_0: "poolNum p n = 0 \<longleftrightarrow> n \<le> bp_baseline0 p \<and> n > bp_baseline0 p div 2"
  by (simp add: poolNum_def baseline_num_pos)

lemma mset_concat_update:
  "k < length xs \<Longrightarrow> mset (concat (xs[k := ys])) + mset (xs ! k) = mset (concat xs) + mset ys"
proof (induction xs arbitrary: k)
  case (Cons x xs)
  then show ?case by (cases k) (auto simp: ac_simps)
qed simp

lemma recv_spec:
  assumes "pool_recv k p = Some (b, p1)" and "pool_ok p" and "k < 6"
  shows "pool_ok p1" and "pool_bufs p = add_mset b (pool_bufs p1)" and "bp_next p1 = bp_next p"
    and "poolNum p (pb_cap b) = k" and "bp_baseline p1 = bp_baseline p" and "bp_baseline0 p1 = bp_baseline0 p"
proof -
  obtain bs where k: "bp_pool p ! k = b # bs" and p1: "p1 = p\<lparr>bp_pool := (bp_pool p)[k := bs]\<rparr>"
    using assms(1) by (auto simp: pool_recv_def split: list.splits)
  have len: "length (bp_pool p) = 6" using assms(2) by (simp add: pool_ok_def)
  show "pool_bufs p = add_mset b (pool_bufs p1)"
    using mset_concat_update [of k "bp_pool p" bs] assms(3) by (simp add: pool_bufs_def p1 k len)
  have old: "length (bp_pool p ! k) \<le> pool_caps ! k \<and> (\<forall>b\<in>set (bp_pool p ! k). poolNum p (pb_cap b) = k)"
    using assms(2,3) by (simp add: pool_ok_def)
  then show "poolNum p (pb_cap b) = k" by (simp add: k)
  show "pool_ok p1"
    using assms(2,3) old by (auto simp: pool_ok_def p1 k nth_list_update)
qed (use assms(1) in \<open>auto simp: pool_recv_def split: list.splits\<close>)

lemma send_spec:
  assumes "pool_ok p" and "k < 6" and "poolNum p (pb_cap b) = k"
  shows "pool_ok (pool_send k b p)" and "pool_bufs (pool_send k b p) \<subseteq># add_mset b (pool_bufs p)"
    and "bp_next (pool_send k b p) = bp_next p"
proof -
  have len: "length (bp_pool p) = 6" using assms(1) by (simp add: pool_ok_def)
  show "pool_ok (pool_send k b p)"
    using assms by (auto simp: pool_send_def pool_ok_def nth_list_update)
  show "pool_bufs (pool_send k b p) \<subseteq># add_mset b (pool_bufs p)"
    using mset_concat_update [of k "bp_pool p" "bp_pool p ! k @ [b]"] assms(2) len
    by (auto simp: pool_send_def pool_bufs_def)
  show "bp_next (pool_send k b p) = bp_next p" by (simp add: pool_send_def)
qed

text \<open>What \<open>Get\<close> does to the buffers: the result comes from the pool or is new.\<close>

definition takes :: "buffer_pool \<Rightarrow> pool_buf \<Rightarrow> buffer_pool \<Rightarrow> bool" where
  "takes p b p' \<longleftrightarrow>
     (add_mset b (pool_bufs p') \<subseteq># pool_bufs p \<and> bp_next p' = bp_next p) \<or>
     (pb_addr b = bp_next p \<and> bp_next p' = Suc (bp_next p) \<and> pool_bufs p' \<subseteq># pool_bufs p)"

definition get_effect :: "buffer_pool \<Rightarrow> (go_panic + (pool_buf \<times> int)) \<times> buffer_pool \<Rightarrow> bool" where
  "get_effect p out \<longleftrightarrow> pool_ok (snd out) \<and>
     (case fst out of
        Inl e \<Rightarrow> pool_bufs (snd out) \<subseteq># pool_bufs p \<and> bp_next (snd out) = bp_next p
      | Inr (b, l) \<Rightarrow> takes p b (snd out))"

lemma make_effect:
  assumes "pool_ok p'" and "pool_bufs p' \<subseteq># pool_bufs p" and "bp_next p' = bp_next p"
  shows "get_effect p (pool_make n c p')"
proof -
  have ok: "pool_ok (p'\<lparr>bp_next := Suc (bp_next p')\<rparr>)" using assms(1) by (simp add: pool_ok_def)
  have bufs: "pool_bufs (p'\<lparr>bp_next := Suc (bp_next p')\<rparr>) = pool_bufs p'" by (simp add: pool_bufs_def)
  from assms ok bufs show ?thesis by (simp add: get_effect_def pool_make_def takes_def)
qed

lemma reslice_effect:
  assumes "pool_ok p'" and "pool_bufs p = add_mset b (pool_bufs p')" and "bp_next p' = bp_next p"
  shows "get_effect p (pool_reslice b n, p')"
  using assms by (simp add: get_effect_def pool_reslice_def takes_def)

lemma sub_add: "M \<subseteq># add_mset b N \<Longrightarrow> P = add_mset b N \<Longrightarrow> M \<subseteq># P"
  by simp

lemma get_fast_effect:
  assumes "pool_ok p"
  shows "get_effect p (get_fast n p)"
proof (cases "pool_recv 0 p")
  case None
  have "same_pool p (p\<lparr>bp_miss := bp_miss p + 1\<rparr>)" by (simp add: same_pool_def)
  with None assms show ?thesis
    by (simp add: get_fast_def make_effect same_pool_ok same_pool_bufs)
next
  case (Some bp)
  obtain b p1 where bp: "bp = (b, p1)" by (cases bp)
  note r = recv_spec [OF Some [unfolded bp] assms, simplified]
  let ?h = "p1\<lparr>bp_half := bp_half p1 + 1\<rparr>" and ?l = "p1\<lparr>bp_less := bp_less p1 + 1\<rparr>"
    and ?e = "p1\<lparr>bp_equal := bp_equal p1 + 1\<rparr>" and ?g = "p1\<lparr>bp_greater := bp_greater p1 + 1\<rparr>"
  have same: "same_pool p1 ?h" "same_pool p1 ?l" "same_pool p1 ?e" "same_pool p1 ?g"
    by (simp_all add: same_pool_def)
  have ok: "pool_ok ?h" "pool_ok ?l" "pool_ok ?e" "pool_ok ?g" using same r(1) by (simp_all add: same_pool_ok)
  have num: "poolNum ?h (pb_cap b) = 0" using r(4) poolNum_cong [OF r(5,6)] by simp
  note send = send_spec [OF ok(1) _ num, simplified]
  have "get_effect p (pool_make n n (pool_send 0 b ?h))"
    by (rule make_effect) (use send same r in \<open>simp_all add: same_pool_bufs\<close>)
  moreover have "get_effect p (pool_reslice b n, ?l)" "get_effect p (pool_reslice b n, ?e)"
    by (rule reslice_effect, use ok same r in \<open>simp_all add: same_pool_bufs\<close>)+
  moreover have "get_effect p (pool_make n c ?g)" for c
    by (rule make_effect) (use ok same r in \<open>simp_all add: same_pool_bufs\<close>)
  ultimately show ?thesis by (simp add: get_fast_def Some bp)
qed

lemma note_miss_same: "same_pool p (note_miss j n p)"
  by (simp add: same_pool_def note_miss_def Let_def)

lemma get_sized_effect:
  assumes "pool_ok p'" and "pool_bufs p' \<subseteq># pool_bufs p" and "bp_next p' = bp_next p"
  shows "get_effect p (get_sized j n p')"
proof -
  note m = note_miss_same [of p' j n]
  have "get_effect p (pool_make n n (note_miss j n p'))"
    by (rule make_effect) (use assms m in \<open>simp_all add: same_pool_ok same_pool_bufs\<close>)
  moreover have "get_effect p (pool_make n c p')" for c by (rule make_effect [OF assms])
  ultimately show ?thesis by (simp add: get_sized_def)
qed

lemma note_half_spec:
  assumes "pool_ok p" and "k < 6" and "poolNum p (pb_cap b) = k"
  shows "pool_ok (note_half k b p)" and "pool_bufs (note_half k b p) \<subseteq># add_mset b (pool_bufs p)"
    and "bp_next (note_half k b p) = bp_next p"
proof -
  let ?h = "bp_sizeHalf p ! (k - 1) + 1"
  let ?p1 = "p\<lparr>bp_size := (bp_size p)[k - 1 := word_of_int (pb_cap b div 2)], bp_sizeHalf := (bp_sizeHalf p)[k - 1 := 0]\<rparr>"
  let ?p2 = "p\<lparr>bp_sizeHalf := (bp_sizeHalf p)[k - 1 := ?h]\<rparr>"
  have same: "same_pool p ?p1" "same_pool p ?p2" by (simp_all add: same_pool_def)
  have num: "poolNum ?p2 (pb_cap b) = k" using assms(3) by simp
  have ok: "pool_ok ?p2" using same(2) assms(1) by (simp add: same_pool_ok)
  note s = send_spec [OF ok assms(2) num]
  have def: "note_half k b p = (if ?h = 20 then ?p1 else pool_send k b ?p2)" by (simp add: note_half_def Let_def)
  show "pool_ok (note_half k b p)" unfolding def using s(1) same_pool_ok [OF same(1)] assms(1) by simp
  show "pool_bufs (note_half k b p) \<subseteq># add_mset b (pool_bufs p)"
    unfolding def using s(2) same_pool_bufs [OF same(1)] same_pool_bufs [OF same(2)] by simp
  show "bp_next (note_half k b p) = bp_next p"
    unfolding def using s(3) same_pool_bufs [OF same(1)] same_pool_bufs [OF same(2)] by simp
qed

lemma get_slow_effect:
  assumes "pool_ok p" and k: "k < 6"
  shows "get_effect p (get_slow k n p)"
proof (cases "pool_recv k p")
  case None
  have "same_pool p (p\<lparr>bp_miss := bp_miss p + 1\<rparr>)" by (simp add: same_pool_def)
  with None assms show ?thesis
    by (simp add: get_slow_def get_sized_effect same_pool_ok same_pool_bufs)
next
  case (Some bp)
  obtain b p1 where bp: "bp = (b, p1)" by (cases bp)
  note r = recv_spec [OF Some [unfolded bp] assms]
  let ?h = "p1\<lparr>bp_half := bp_half p1 + 1\<rparr>" and ?l = "p1\<lparr>bp_less := bp_less p1 + 1\<rparr>"
    and ?e = "p1\<lparr>bp_equal := bp_equal p1 + 1\<rparr>" and ?g = "p1\<lparr>bp_greater := bp_greater p1 + 1\<rparr>"
  have same: "same_pool p1 ?h" "same_pool p1 ?l" "same_pool p1 ?e" "same_pool p1 ?g"
    by (simp_all add: same_pool_def)
  have ok: "pool_ok ?h" "pool_ok ?l" "pool_ok ?e" "pool_ok ?g" using same r(1) by (simp_all add: same_pool_ok)
  have num: "poolNum ?h (pb_cap b) = k" "poolNum ?g (pb_cap b) = k" using r(4) poolNum_cong [OF r(5,6)] by simp_all
  note half = note_half_spec [OF ok(1) k num(1)] and send = send_spec [OF ok(4) k num(2)]
  have "get_effect p (pool_make n n (note_half k b ?h))"
    by (rule make_effect) (use half same r in \<open>simp_all add: same_pool_bufs\<close>)
  moreover have "get_effect p (pool_reslice b n, ?l)" "get_effect p (pool_reslice b n, ?e)"
    by (rule reslice_effect, use ok same r in \<open>simp_all add: same_pool_bufs\<close>)+
  moreover have "get_effect p (get_sized (k - 1) n (pool_send k b ?g))"
    by (rule get_sized_effect) (use send same r in \<open>simp_all add: same_pool_bufs\<close>)
  moreover have "get_effect p (get_sized (k - 1) n ?g)"
    by (rule get_sized_effect) (use ok same r in \<open>simp_all add: same_pool_bufs\<close>)
  ultimately show ?thesis by (simp add: get_slow_def Some bp Let_def)
qed

lemma get_effect_same: "same_pool p p' \<Longrightarrow> get_effect p' out \<Longrightarrow> get_effect p out"
  by (auto simp: get_effect_def takes_def same_pool_bufs split: sum.splits)

lemma pool_Get_effect:
  assumes "pool_ok p"
  shows "get_effect p (pool_Get n p)"
proof (cases "bp_closed p")
  case True
  have "get_effect p (pool_make n n p)" by (rule make_effect [OF assms]) simp_all
  with True show ?thesis by (simp add: pool_Get_def)
next
  case False
  let ?p1 = "p\<lparr>bp_get := bp_get p + 1\<rparr>"
  have same: "same_pool p ?p1" by (simp add: same_pool_def)
  have ok: "pool_ok ?p1" using same_pool_ok [OF same] assms by simp
  have "get_effect ?p1 (get_fast n ?p1)" by (rule get_fast_effect [OF ok])
  moreover have "get_effect ?p1 (get_slow (poolNum p n) n ?p1)"
    by (rule get_slow_effect [OF ok poolNum_le [OF assms]])
  ultimately show ?thesis using get_effect_same [OF same] False by (simp add: pool_Get_def Let_def)
qed

lemma pool_Put_spec:
  assumes "pool_ok p"
  shows "pool_ok (pool_Put b p)" and "pool_bufs (pool_Put b p) \<subseteq># add_mset b (pool_bufs p)"
    and "bp_next (pool_Put b p) = bp_next p"
proof -
  let ?p1 = "p\<lparr>bp_put := bp_put p + 1\<rparr>"
  have same: "same_pool p ?p1" by (simp add: same_pool_def)
  have ok: "pool_ok ?p1" using same_pool_ok [OF same] assms by simp
  have num: "poolNum ?p1 (pb_cap b) = poolNum p (pb_cap b)" by simp
  note s = send_spec [OF ok poolNum_le [OF assms] num] and sb = same_pool_bufs [OF same]
  show "pool_ok (pool_Put b p)" using s(1) assms by (simp add: pool_Put_def Let_def)
  show "pool_bufs (pool_Put b p) \<subseteq># add_mset b (pool_bufs p)" using s(2) sb by (simp add: pool_Put_def Let_def)
  show "bp_next (pool_Put b p) = bp_next p" using s(3) sb by (simp add: pool_Put_def Let_def)
qed

lemma concat_map_tl: "mset (concat (map tl xs)) \<subseteq># mset (concat xs)"
proof (induction xs)
  case (Cons x xs)
  have "mset (tl x) \<subseteq># mset x" by (cases x) auto
  with Cons show ?case by (auto intro: subset_mset.add_mono)
qed simp

lemma drain_spec:
  assumes "pool_ok p"
  shows "pool_ok (drain_tick p)" and "pool_bufs (drain_tick p) \<subseteq># pool_bufs p" and "bp_next (drain_tick p) = bp_next p"
proof -
  have "set (tl xs) \<subseteq> set xs" for xs :: "pool_buf list" by (cases xs) auto
  with assms show "pool_ok (drain_tick p)"
    by (auto simp: drain_tick_def pool_ok_def)
qed (use concat_map_tl in \<open>auto simp: drain_tick_def pool_bufs_def\<close>)

lemma close_same: "same_pool p (pool_Close p)" "same_pool p (drain_close p)"
  by (simp_all add: same_pool_def pool_Close_def drain_close_def)

lemma pool_ok_new: "NewBufferPool b = Inr p \<Longrightarrow> pool_ok p \<and> pool_bufs p = {#} \<and> bp_next p = 0"
  by (auto simp: NewBufferPool_def pool_ok_def pool_bufs_def less_Suc_eq numeral_eq_Suc split: if_splits)

subsection \<open>Clients\<close>

text \<open>
  Clients hold buffers they got or made themselves, put back only buffers they hold, and
  stop using them then.
\<close>

inductive pool_step :: "buffer_pool \<times> pool_buf list \<Rightarrow> buffer_pool \<times> pool_buf list \<Rightarrow> bool" where
  get: "pool_Get n p = (Inr (b, l), p') \<Longrightarrow> pool_step (p, H) (p', b # H)"
| get_panic: "pool_Get n p = (Inl e, p') \<Longrightarrow> pool_step (p, H) (p', H)"
| own: "pool_make n c p = (Inr (b, l), p') \<Longrightarrow> pool_step (p, H) (p', b # H)"
| put: "b \<in> set H \<Longrightarrow> pool_step (p, H) (pool_Put b p, remove1 b H)"
| forget: "pool_step (p, H) (p, remove1 b H)"
| close: "pool_step (p, H) (pool_Close p, H)"
| tick: "pool_step (p, H) (drain_tick p, H)"
| drain: "pool_step (p, H) (drain_close p, H)"

definition all_bufs :: "buffer_pool \<times> pool_buf list \<Rightarrow> pool_buf multiset" where
  "all_bufs s = mset (snd s) + pool_bufs (fst s)"

text \<open>No array is at two places, and none has an address still to be allocated.\<close>

definition pool_inv :: "buffer_pool \<times> pool_buf list \<Rightarrow> bool" where
  "pool_inv s \<longleftrightarrow> pool_ok (fst s) \<and> (\<forall>a. size {#b \<in># all_bufs s. pb_addr b = a#} \<le> 1) \<and>
     (\<forall>b\<in>#all_bufs s. pb_addr b < bp_next (fst s))"

lemma pool_inv_shrink:
  assumes "pool_inv s" and "pool_ok (fst t)" and "all_bufs t \<subseteq># all_bufs s" and "bp_next (fst t) = bp_next (fst s)"
  shows "pool_inv t"
proof -
  have "size {#b \<in># all_bufs t. pb_addr b = a#} \<le> 1" for a
  proof -
    have "size {#b \<in># all_bufs t. pb_addr b = a#} \<le> size {#b \<in># all_bufs s. pb_addr b = a#}"
      by (intro size_mset_mono multiset_filter_mono assms(3))
    with assms(1) show ?thesis unfolding pool_inv_def by (meson le_trans)
  qed
  with assms show ?thesis unfolding pool_inv_def by (metis mset_subset_eqD)
qed

lemma pool_inv_fresh:
  assumes "pool_inv s" and "pool_ok (fst t)" and "all_bufs t \<subseteq># add_mset b (all_bufs s)"
    and "pb_addr b = bp_next (fst s)" and "bp_next (fst t) = Suc (bp_next (fst s))"
  shows "pool_inv t"
proof -
  have old: "pb_addr c < bp_next (fst s)" if "c \<in># all_bufs s" for c using assms(1) that by (simp add: pool_inv_def)
  have new: "{#c \<in># all_bufs s. pb_addr c = pb_addr b#} = {#}"
    using old assms(4) by (fastforce dest: less_imp_neq)
  have "size {#c \<in># all_bufs t. pb_addr c = a#} \<le> 1" for a
  proof -
    have "size {#c \<in># all_bufs t. pb_addr c = a#} \<le> size {#c \<in># add_mset b (all_bufs s). pb_addr c = a#}"
      by (intro size_mset_mono multiset_filter_mono assms(3))
    also have "\<dots> \<le> 1" using assms(1) new by (cases "pb_addr b = a") (auto simp: pool_inv_def)
    finally show ?thesis .
  qed
  moreover have "pb_addr c < bp_next (fst t)" if "c \<in># all_bufs t" for c
    using mset_subset_eqD [OF assms(3) that] old assms(4,5) by (auto intro: less_SucI)
  ultimately show ?thesis using assms(2) by (simp add: pool_inv_def)
qed

lemma pool_step_inv: "pool_step s t \<Longrightarrow> pool_inv s \<Longrightarrow> pool_inv t"
proof (induction rule: pool_step.induct)
  case (get n p b l p' H)
  have e: "pool_ok p'" "takes p b p'"
    using pool_Get_effect [of p n] get by (simp_all add: get_effect_def pool_inv_def)
  from e(2) show ?case unfolding takes_def
  proof
    assume t: "add_mset b (pool_bufs p') \<subseteq># pool_bufs p \<and> bp_next p' = bp_next p"
    show ?thesis by (rule pool_inv_shrink [OF get.prems]) (use e(1) t in \<open>auto simp: all_bufs_def intro: subset_mset.add_mono\<close>)
  next
    assume t: "pb_addr b = bp_next p \<and> bp_next p' = Suc (bp_next p) \<and> pool_bufs p' \<subseteq># pool_bufs p"
    show ?thesis
      by (rule pool_inv_fresh [OF get.prems, where b = b]) (use e(1) t in \<open>auto simp: all_bufs_def\<close>)
  qed
next
  case (get_panic n p e p' H)
  have "pool_ok p' \<and> pool_bufs p' \<subseteq># pool_bufs p \<and> bp_next p' = bp_next p"
    using pool_Get_effect [of p n] get_panic by (simp add: get_effect_def pool_inv_def)
  then show ?case by (intro pool_inv_shrink [OF get_panic.prems]) (auto simp: all_bufs_def)
next
  case (own n c p b l p' H)
  have ok: "pool_ok p" using own.prems by (simp add: pool_inv_def)
  have new: "pb_addr b = bp_next p" "p' = p\<lparr>bp_next := Suc (bp_next p)\<rparr>"
    using own.hyps by (auto simp: pool_make_def split: if_splits)
  have "pool_ok p'" "pool_bufs p' = pool_bufs p" using ok by (simp_all add: new(2) pool_ok_def pool_bufs_def)
  then show ?case by (intro pool_inv_fresh [OF own.prems, where b = b]) (auto simp: all_bufs_def new)
next
  case (put b H p)
  then have ok: "pool_ok p" by (simp add: pool_inv_def)
  have "mset (remove1 b H) + add_mset b (pool_bufs p) = mset H + pool_bufs p" using put.hyps by simp
  then have "mset (remove1 b H) + pool_bufs (pool_Put b p) \<subseteq># mset H + pool_bufs p"
    using pool_Put_spec(2) [OF ok, of b] by (metis subset_mset.add_left_mono)
  then show ?case
    by (intro pool_inv_shrink [OF put.prems]) (use pool_Put_spec [OF ok] in \<open>auto simp: all_bufs_def\<close>)
next
  case (forget p H b)
  then show ?case by (intro pool_inv_shrink [OF forget.prems]) (auto simp: pool_inv_def all_bufs_def)
next
  case (close p H)
  show ?case by (rule pool_inv_shrink [OF close])
    (use close same_pool_ok [OF close_same(1)] same_pool_bufs [OF close_same(1)] in \<open>auto simp: pool_inv_def all_bufs_def\<close>)
next
  case (tick p H)
  then have "pool_ok p" by (simp add: pool_inv_def)
  from drain_spec [OF this] show ?case by (intro pool_inv_shrink [OF tick]) (auto simp: all_bufs_def)
next
  case (drain p H)
  show ?case by (rule pool_inv_shrink [OF drain])
    (use drain same_pool_ok [OF close_same(2)] same_pool_bufs [OF close_same(2)] in \<open>auto simp: pool_inv_def all_bufs_def\<close>)
qed

lemma pool_reach_inv:
  assumes "pool_step\<^sup>*\<^sup>* (p, []) s" and "NewBufferPool n = Inr p"
  shows "pool_inv s"
  using assms(1)
proof (induction rule: rtranclp_induct)
  case base
  show ?case using pool_ok_new [OF assms(2)] by (simp add: pool_inv_def all_bufs_def)
qed (rule pool_step_inv)

lemma distinct_addrs: "(\<And>a. size {#b \<in># mset xs. pb_addr b = a#} \<le> 1) \<Longrightarrow> distinct (map pb_addr xs)"
proof (induction xs)
  case (Cons x xs)
  have "size {#b \<in># mset xs. pb_addr b = a#} \<le> size {#b \<in># mset (x # xs). pb_addr b = a#}" for a
    by (intro size_mset_mono multiset_filter_mono) simp
  then have "size {#b \<in># mset xs. pb_addr b = a#} \<le> 1" for a
    using Cons.prems [of a] by (meson le_trans)
  moreover have "{#b \<in># mset xs. pb_addr b = pb_addr x#} = {#}"
    using Cons.prems [of "pb_addr x"] by simp
  ultimately show ?case using Cons.IH by auto
qed simp

lemma get_fast_length:
  assumes "pool_ok p" and n: "0 \<le> n" "n \<le> bp_baseline0 p" "bp_baseline0 p div 2 < n" and "bp_baseline0 p < 2 ^ 63"
  shows "\<exists>b p'. get_fast n p = (Inr (b, n), p') \<and> n \<le> pb_cap b \<and> bp_half p' = bp_half p"
proof (cases "pool_recv 0 p")
  case None
  then show ?thesis using n by (simp add: get_fast_def pool_make_def)
next
  case (Some bp)
  obtain b p1 where bp: "bp = (b, p1)" by (cases bp)
  note r = recv_spec [OF Some [unfolded bp] assms(1), simplified]
  have half: "bp_half p1 = bp_half p" using Some bp by (auto simp: pool_recv_def split: list.splits)
  have "\<not> twice_as_large b n" if "n < pb_cap b"
  proof -
    have "pb_cap b \<le> bp_baseline0 p" using r(4) by (simp add: poolNum_0)
    with that n assms(5) show ?thesis by (simp add: twice_as_large_def wrap64_nonneg)
  qed
  then show ?thesis using n half by (simp add: get_fast_def Some bp pool_make_def pool_reslice_def r(6))
qed

lemma get_sized_length:
  assumes "0 \<le> n" and "n < 2 ^ 32"
  shows "\<exists>b p'. get_sized j n p = (Inr (b, n), p') \<and> n \<le> pb_cap b"
proof -
  have "n \<le> uint (bp_size p ! j)" if "\<not> word_of_int n > bp_size p ! j"
  proof -
    have "uint (word_of_int n :: u32) = n" using assms by (simp add: uint_word_of_int)
    with that show ?thesis by (simp add: word_less_def)
  qed
  then show ?thesis
    using assms(1) by (cases "word_of_int n > bp_size p ! j") (auto simp: get_sized_def pool_make_def)
qed

lemma get_slow_length:
  assumes "0 \<le> n" and "n < 2 ^ 32"
  shows "\<exists>b p'. get_slow k n p = (Inr (b, n), p') \<and> n \<le> pb_cap b"
proof (cases "pool_recv k p")
  case None
  then show ?thesis using get_sized_length [OF assms] by (simp add: get_slow_def)
next
  case (Some bp)
  obtain b p1 where bp: "bp = (b, p1)" by (cases bp)
  show ?thesis
    using assms(1) get_sized_length [OF assms] by (simp add: get_slow_def Some bp pool_make_def pool_reslice_def Let_def)
qed

subsection \<open>Properties\<close>

text \<open>
  In every run of clients that put back only buffers they hold, no array is handed out
  twice or is at once in the pool and with a client, and every channel holds buffers of its own
  size class only, never more than its capacity.
\<close>

theorem pool_exclusive:
  assumes "NewBufferPool n = Inr p" and "pool_step\<^sup>*\<^sup>* (p, []) (q, H)"
  shows "distinct (map pb_addr (H @ concat (bp_pool q))) \<and>
    (\<forall>k<6. length (bp_pool q ! k) \<le> pool_caps ! k \<and> (\<forall>b\<in>set (bp_pool q ! k). poolNum q (pb_cap b) = k))"
proof -
  have inv: "pool_inv (q, H)" by (rule pool_reach_inv [OF assms(2,1)])
  have "all_bufs (q, H) = mset (H @ concat (bp_pool q))" by (simp add: all_bufs_def pool_bufs_def)
  with inv have "distinct (map pb_addr (H @ concat (bp_pool q)))"
    by (intro distinct_addrs) (simp only: pool_inv_def)
  with inv show ?thesis by (simp add: pool_inv_def pool_ok_def)
qed

lemma pool_exclusive_witness:
  "\<exists>p q b. NewBufferPool 16 = Inr p \<and> pool_Get 10 p = (Inr (b, 10), q) \<and>
     distinct (map pb_addr ([b] @ concat (bp_pool q)))"
proof -
  obtain p where p: "NewBufferPool 16 = Inr p" by (simp add: NewBufferPool_def)
  have ok: "pool_ok p" using pool_ok_new [OF p] by simp
  have "bp_baseline0 p = 16" "\<not> bp_closed p" using p by (auto simp: NewBufferPool_def)
  then obtain b q where get: "pool_Get 10 p = (Inr (b, 10), q)"
    using get_fast_length [of "p\<lparr>bp_get := bp_get p + 1\<rparr>" 10] ok same_pool_ok [of p "p\<lparr>bp_get := bp_get p + 1\<rparr>"]
    by (auto simp: pool_Get_def poolNum_0 same_pool_def Let_def)
  have "pool_step (p, []) (q, [b])" by (rule pool_step.get [OF get])
  then have "pool_step\<^sup>*\<^sup>* (p, []) (q, [b])" by (rule r_into_rtranclp)
  from pool_exclusive [OF p this] p get show ?thesis by blast
qed

text \<open>
  \<open>Get\<close> of a length below \<open>2 ^ 32\<close> returns a slice of exactly that length without a panic,
  in an array large enough; and in the fast path no buffer is ever twice as large as asked for.
\<close>

theorem pool_get_length:
  assumes "pool_ok p" and "0 \<le> n" and "n < 2 ^ 32" and "bp_baseline0 p < 2 ^ 63"
  shows "\<exists>b p'. pool_Get n p = (Inr (b, n), p') \<and> n \<le> pb_cap b \<and> pool_ok p' \<and>
    (poolNum p n = 0 \<longrightarrow> bp_half p' = bp_half p)"
proof -
  let ?p1 = "p\<lparr>bp_get := bp_get p + 1\<rparr>"
  have ok1: "pool_ok ?p1" using same_pool_ok [of p ?p1] assms(1) by (simp add: same_pool_def)
  have "\<exists>b p'. pool_Get n p = (Inr (b, n), p') \<and> n \<le> pb_cap b \<and> (poolNum p n = 0 \<longrightarrow> bp_half p' = bp_half p)"
  proof (cases "bp_closed p")
    case True
    with assms(2) show ?thesis by (simp add: pool_Get_def pool_make_def)
  next
    case opened: False
    show ?thesis
    proof (cases "poolNum p n = 0")
      case True
      with get_fast_length [OF ok1 assms(2)] assms(4) opened show ?thesis
        by (simp add: pool_Get_def poolNum_0 Let_def)
    next
      case False
      with get_slow_length [OF assms(2,3), of "poolNum p n" ?p1] opened show ?thesis
        by (simp add: pool_Get_def Let_def)
    qed
  qed
  then show ?thesis using pool_Get_effect [OF assms(1), of n] by (auto simp: get_effect_def)
qed

lemma pool_get_length_witness:
  "\<exists>p b p'. NewBufferPool 16 = Inr p \<and> pool_Get 100 p = (Inr (b, 100), p') \<and> 100 \<le> pb_cap b \<and> pool_ok p'"
proof -
  obtain p where p: "NewBufferPool 16 = Inr p" by (simp add: NewBufferPool_def)
  then have "pool_ok p" "bp_baseline0 p = 16" using pool_ok_new [OF p] by (auto simp: NewBufferPool_def)
  with pool_get_length [of p 100] p show ?thesis by auto
qed

text \<open>
  The bound is sharp: the size estimates have 32 bits, and \<open>Get\<close> compares them with the
  length cut to 32 bits, so a larger length whose low half is within the estimate panics when
  its channel is empty.
\<close>

theorem pool_get_huge_panics:
  assumes "pool_ok p" and "\<not> bp_closed p" and "2 ^ 32 \<le> n" and "poolNum p n = Suc j"
    and "bp_pool p ! Suc j = []" and "word_of_int n \<le> bp_size p ! j"
  shows "fst (pool_Get n p) = Inl Make_slice_len"
proof -
  have "uint (bp_size p ! j) < 2 ^ 32" using uint_lt2p [of "bp_size p ! j"] by simp
  then have "uint (bp_size p ! j) < n" using assms(3) by simp
  with assms show ?thesis
    by (simp add: pool_Get_def Let_def get_slow_def pool_recv_def get_sized_def pool_make_def linorder_not_less)
qed

lemma pool_get_huge_panics_witness:
  "\<exists>p. NewBufferPool 16 = Inr p \<and> fst (pool_Get (2 ^ 32 + 5) (snd (pool_Get 100 p))) = Inl Make_slice_len"
proof -
  obtain p where p: "NewBufferPool 16 = Inr p" by (simp add: NewBufferPool_def)
  define q where "q = snd (pool_Get 100 p)"
  have ok: "pool_ok q" using pool_Get_effect [of p 100] pool_ok_new [OF p] by (simp add: get_effect_def q_def)
  have rep: "replicate 5 (0 :: u32) = [0, 0, 0, 0, 0]" "replicate 6 [] = [[], [], [], [], [], ([] :: pool_buf list)]"
    by (simp_all add: numeral_eq_Suc)
  have q: "\<not> bp_closed q" "poolNum q (2 ^ 32 + 5) = Suc 4" "bp_pool q ! Suc 4 = []" "bp_size q ! 4 = 100"
    using p by (auto simp: q_def NewBufferPool_def pool_Get_def poolNum_def get_slow_def pool_recv_def rep
        get_sized_def note_miss_def pool_make_def wrap64_nonneg Let_def)
  have "fst (pool_Get (2 ^ 32 + 5) q) = Inl Make_slice_len"
    by (rule pool_get_huge_panics [OF ok q(1) _ q(2,3)]) (simp_all add: q(4))
  with p show ?thesis by (auto simp: q_def)
qed

end
