(* ===== verification/Pool_Threads.thy ===== *)
theory Pool_Threads
  imports Buffer_Pool
begin

text \<open>
  The buffer pool with its goroutines running at once (\<open>taudb/utils/buffer_pool.go\<close>): a program
  point for each of them inside \<open>Get\<close>, \<open>Put\<close> and \<open>Close\<close> and one for the draining goroutine.  A step
  is one operation on a channel, one atomic operation on a size estimate or its counters, or a
  change of the lock.  The statistics counters are increased with the step beside them.
\<close>

subsection \<open>Program points\<close>

text \<open>
  \<open>Away\<close> is outside the lock.  The points of \<open>Get\<close> carry the size class and the length asked for;
  \<open>Get_back\<close> is before the buffer is sent back, its flag says that the result is then a new array
  of the exact length; \<open>Get_note\<close> has loaded the size estimate.  \<open>Recv_closed\<close> has received the
  zero value of a closed channel, \<open>Crashed\<close> has sent on a closed one: nothing follows them here,
  and below no run gets there.
\<close>

datatype pool_pc =
    Away
  | Get_locked int
  | Get_recv nat int
  | Get_switch nat int pool_buf
  | Get_half nat int pool_buf
  | Get_half_size nat int pool_buf
  | Get_half_reset nat int
  | Get_greater nat int pool_buf
  | Get_back nat int pool_buf bool
  | Get_load nat int
  | Get_note nat int u32
  | Get_miss_size nat int
  | Get_miss_reset nat int
  | Get_make int int
  | Get_ret int "go_panic + (pool_buf \<times> int)"
  | Put_locked pool_buf
  | Put_send nat pool_buf
  | Put_ret
  | Close_locked
  | Close_send
  | Close_ret
  | Recv_closed nat int
  | Crashed go_panic

text \<open>
  The draining goroutine: waiting in its \<open>select\<close>, in the loop of a tick before channel \<open>i\<close>, told
  to stop, in the loop that closes the channels with \<open>i\<close> of them closed, returned.
\<close>

datatype drain_pc = Drain_wait | Drain_ticks nat | Drain_stop | Drain_closing nat | Drain_end

definition chan_closed :: "drain_pc \<Rightarrow> nat \<Rightarrow> bool" where
  "chan_closed d k = (case d of Drain_closing i \<Rightarrow> k < i | Drain_end \<Rightarrow> True | _ \<Rightarrow> False)"

definition closeC_closed :: "drain_pc \<Rightarrow> bool" where
  "closeC_closed d = (case d of Drain_closing i \<Rightarrow> True | Drain_end \<Rightarrow> True | _ \<Rightarrow> False)"

subsection \<open>Steps\<close>

text \<open>The next step of a goroutine that holds the lock.\<close>

fun thread_act :: "drain_pc \<Rightarrow> buffer_pool \<Rightarrow> pool_pc \<Rightarrow> pool_pc \<times> buffer_pool" where
  "thread_act d p (Get_locked n) =
     (if bp_closed p then (Get_make n n, p)
      else (Get_recv (poolNum p n) n, p\<lparr>bp_get := bp_get p + 1\<rparr>))"
| "thread_act d p (Get_recv k n) =
     (case pool_recv k p of
        Some (b, p1) \<Rightarrow> (Get_switch k n b, p1)
      | None \<Rightarrow>
          if chan_closed d k then (Recv_closed k n, p)
          else (if k = 0 then Get_make n (bp_baseline0 p) else Get_load k n, p\<lparr>bp_miss := bp_miss p + 1\<rparr>))"
| "thread_act d p (Get_switch k n b) =
     (if pb_cap b > n then
        (if twice_as_large b n
         then (if k = 0 then Get_back k n b True else Get_half k n b, p\<lparr>bp_half := bp_half p + 1\<rparr>)
         else (Get_ret n (pool_reslice b n), p\<lparr>bp_less := bp_less p + 1\<rparr>))
      else if pb_cap b = n then (Get_ret n (pool_reslice b n), p\<lparr>bp_equal := bp_equal p + 1\<rparr>)
      else (if k = 0 then Get_make n (bp_baseline0 p) else Get_greater k n b, p\<lparr>bp_greater := bp_greater p + 1\<rparr>))"
| "thread_act d p (Get_half k n b) =
     (let h = bp_sizeHalf p ! (k - 1) + 1
      in (if h = 20 then Get_half_size k n b else Get_back k n b True,
          p\<lparr>bp_sizeHalf := (bp_sizeHalf p)[k - 1 := h]\<rparr>))"
| "thread_act d p (Get_half_size k n b) =
     (Get_half_reset k n, p\<lparr>bp_size := (bp_size p)[k - 1 := word_of_int (pb_cap b div 2)]\<rparr>)"
| "thread_act d p (Get_half_reset k n) = (Get_make n n, p\<lparr>bp_sizeHalf := (bp_sizeHalf p)[k - 1 := 0]\<rparr>)"
| "thread_act d p (Get_greater k n b) =
     (if word_of_int (pb_cap b) \<ge> bp_size p ! (k - 1) then Get_back k n b False else Get_load k n, p)"
| "thread_act d p (Get_back k n b exact) =
     (if chan_closed d k then (Crashed Send_on_closed, p)
      else (if exact then Get_make n n else Get_load k n, pool_send k b p))"
| "thread_act d p (Get_load k n) =
     (let s = bp_size p ! (k - 1) in (if word_of_int n > s then Get_note k n s else Get_make n (uint s), p))"
| "thread_act d p (Get_note k n s) =
     (if s = 0
      then (Get_make n n, if bp_size p ! (k - 1) = 0 then p\<lparr>bp_size := (bp_size p)[k - 1 := word_of_int n]\<rparr> else p)
      else
        let m = bp_sizeMiss p ! (k - 1) + 1
        in (if m = 20 then Get_miss_size k n else Get_make n n, p\<lparr>bp_sizeMiss := (bp_sizeMiss p)[k - 1 := m]\<rparr>))"
| "thread_act d p (Get_miss_size k n) =
     (Get_miss_reset k n, p\<lparr>bp_size := (bp_size p)[k - 1 := word_of_int n]\<rparr>)"
| "thread_act d p (Get_miss_reset k n) = (Get_make n n, p\<lparr>bp_sizeMiss := (bp_sizeMiss p)[k - 1 := 0]\<rparr>)"
| "thread_act d p (Get_make n c) = (case pool_make n c p of (r, p') \<Rightarrow> (Get_ret n r, p'))"
| "thread_act d p (Put_locked b) =
     (if bp_closed p then (Put_ret, p) else (Put_send (poolNum p (pb_cap b)) b, p\<lparr>bp_put := bp_put p + 1\<rparr>))"
| "thread_act d p (Put_send k b) =
     (if chan_closed d k then (Crashed Send_on_closed, p) else (Put_ret, pool_send k b p))"
| "thread_act d p Close_locked = (if bp_closed p then (Close_ret, p) else (Close_send, p\<lparr>bp_closed := True\<rparr>))"
| "thread_act d p Close_send =
     (if closeC_closed d then (Crashed Send_on_closed, p)
      else if bp_closeC p = 0 then (Close_ret, p\<lparr>bp_closeC := 1\<rparr>)
      else (Close_send, p))"
| "thread_act d p c = (c, p)"

text \<open>A step of the draining goroutine; in its \<open>select\<close> the ticker may have fired, or not.\<close>

definition drain_act :: "bool \<Rightarrow> drain_pc \<Rightarrow> buffer_pool \<Rightarrow> drain_pc \<times> buffer_pool" where
  "drain_act fired d p =
     (case d of
        Drain_wait \<Rightarrow>
          if fired then (Drain_ticks 0, p)
          else if bp_closeC p > 0 then (Drain_stop, p\<lparr>bp_closeC := bp_closeC p - 1\<rparr>)
          else (Drain_wait, p)
      | Drain_ticks i \<Rightarrow>
          (if i = 5 then Drain_wait else Drain_ticks (Suc i),
           p\<lparr>bp_pool := (bp_pool p)[i := tl (bp_pool p ! i)]\<rparr>)
      | Drain_stop \<Rightarrow> (Drain_closing 0, p)
      | Drain_closing i \<Rightarrow> (if i = 5 then Drain_end else Drain_closing (Suc i), p)
      | Drain_end \<Rightarrow> (Drain_end, p))"

subsection \<open>The goroutines together\<close>

record pool_sys =
  ps_pool :: buffer_pool
  ps_drain :: drain_pc
  ps_threads :: "pool_pc list"
  ps_held :: "pool_buf list"

definition writing :: "pool_pc \<Rightarrow> bool" where
  "writing c \<longleftrightarrow> c = Close_locked \<or> c = Close_send \<or> c = Close_ret"

fun running :: "pool_pc \<Rightarrow> bool" where
  "running Away = False"
| "running (Get_ret n r) = False"
| "running Put_ret = False"
| "running Close_ret = False"
| "running (Recv_closed k n) = False"
| "running (Crashed e) = False"
| "running c = True"

text \<open>
  \<open>RLock\<close> waits for a goroutine in \<open>Close\<close>, \<open>Lock\<close> for every goroutine inside.  The results of
  \<open>Get\<close> are held by the clients; they put back, or drop, only what they hold.
\<close>

inductive pool_tstep :: "pool_sys \<Rightarrow> pool_sys \<Rightarrow> bool" where
  get: "i < length ts \<Longrightarrow> ts ! i = Away \<Longrightarrow> \<forall>c\<in>set ts. \<not> writing c \<Longrightarrow>
    pool_tstep \<lparr>ps_pool = p, ps_drain = d, ps_threads = ts, ps_held = H\<rparr>
      \<lparr>ps_pool = p, ps_drain = d, ps_threads = ts[i := Get_locked n], ps_held = H\<rparr>"
| put: "i < length ts \<Longrightarrow> ts ! i = Away \<Longrightarrow> \<forall>c\<in>set ts. \<not> writing c \<Longrightarrow> b \<in> set H \<Longrightarrow>
    pool_tstep \<lparr>ps_pool = p, ps_drain = d, ps_threads = ts, ps_held = H\<rparr>
      \<lparr>ps_pool = p, ps_drain = d, ps_threads = ts[i := Put_locked b], ps_held = remove1 b H\<rparr>"
| close: "i < length ts \<Longrightarrow> \<forall>c\<in>set ts. c = Away \<Longrightarrow>
    pool_tstep \<lparr>ps_pool = p, ps_drain = d, ps_threads = ts, ps_held = H\<rparr>
      \<lparr>ps_pool = p, ps_drain = d, ps_threads = ts[i := Close_locked], ps_held = H\<rparr>"
| act: "i < length ts \<Longrightarrow> running (ts ! i) \<Longrightarrow> thread_act d p (ts ! i) = (c, p') \<Longrightarrow>
    pool_tstep \<lparr>ps_pool = p, ps_drain = d, ps_threads = ts, ps_held = H\<rparr>
      \<lparr>ps_pool = p', ps_drain = d, ps_threads = ts[i := c], ps_held = H\<rparr>"
| got: "i < length ts \<Longrightarrow> ts ! i = Get_ret n (Inr (b, l)) \<Longrightarrow>
    pool_tstep \<lparr>ps_pool = p, ps_drain = d, ps_threads = ts, ps_held = H\<rparr>
      \<lparr>ps_pool = p, ps_drain = d, ps_threads = ts[i := Away], ps_held = b # H\<rparr>"
| get_panics: "i < length ts \<Longrightarrow> ts ! i = Get_ret n (Inl e) \<Longrightarrow>
    pool_tstep \<lparr>ps_pool = p, ps_drain = d, ps_threads = ts, ps_held = H\<rparr>
      \<lparr>ps_pool = p, ps_drain = d, ps_threads = ts[i := Away], ps_held = H\<rparr>"
| leave: "i < length ts \<Longrightarrow> ts ! i = Put_ret \<or> ts ! i = Close_ret \<Longrightarrow>
    pool_tstep \<lparr>ps_pool = p, ps_drain = d, ps_threads = ts, ps_held = H\<rparr>
      \<lparr>ps_pool = p, ps_drain = d, ps_threads = ts[i := Away], ps_held = H\<rparr>"
| drains: "drain_act fired d p = (d', p') \<Longrightarrow>
    pool_tstep \<lparr>ps_pool = p, ps_drain = d, ps_threads = ts, ps_held = H\<rparr>
      \<lparr>ps_pool = p', ps_drain = d', ps_threads = ts, ps_held = H\<rparr>"
| own: "pool_make n c p = (Inr (b, l), p') \<Longrightarrow>
    pool_tstep \<lparr>ps_pool = p, ps_drain = d, ps_threads = ts, ps_held = H\<rparr>
      \<lparr>ps_pool = p', ps_drain = d, ps_threads = ts, ps_held = b # H\<rparr>"
| forget: "pool_tstep \<lparr>ps_pool = p, ps_drain = d, ps_threads = ts, ps_held = H\<rparr>
      \<lparr>ps_pool = p, ps_drain = d, ps_threads = ts, ps_held = remove1 b H\<rparr>"

definition pool_start :: "buffer_pool \<Rightarrow> nat \<Rightarrow> pool_sys" where
  "pool_start p m = \<lparr>ps_pool = p, ps_drain = Drain_wait, ps_threads = replicate m Away, ps_held = []\<rparr>"

subsection \<open>What each goroutine relies on\<close>

text \<open>The buffers a goroutine has in its hands.\<close>

fun pc_bufs :: "pool_pc \<Rightarrow> pool_buf list" where
  "pc_bufs (Get_switch k n b) = [b]"
| "pc_bufs (Get_half k n b) = [b]"
| "pc_bufs (Get_half_size k n b) = [b]"
| "pc_bufs (Get_greater k n b) = [b]"
| "pc_bufs (Get_back k n b e) = [b]"
| "pc_bufs (Get_ret n (Inr (b, l))) = [b]"
| "pc_bufs (Put_locked b) = [b]"
| "pc_bufs (Put_send k b) = [b]"
| "pc_bufs c = []"

text \<open>Lengths that the size estimates can hold.\<close>

definition fits :: "int \<Rightarrow> bool" where
  "fits n \<longleftrightarrow> 0 \<le> n \<and> n < 2 ^ 32"

text \<open>The facts a goroutine has established, none of which the others change.\<close>

fun pc_ok :: "buffer_pool \<Rightarrow> pool_pc \<Rightarrow> bool" where
  "pc_ok p (Get_recv k n) = (k = poolNum p n)"
| "pc_ok p (Get_switch k n b) = (k = poolNum p n \<and> poolNum p (pb_cap b) = k)"
| "pc_ok p (Get_half k n b) = (0 < k \<and> k < 6 \<and> poolNum p (pb_cap b) = k)"
| "pc_ok p (Get_half_size k n b) = (0 < k \<and> k < 6)"
| "pc_ok p (Get_half_reset k n) = (0 < k \<and> k < 6)"
| "pc_ok p (Get_greater k n b) = (0 < k \<and> k < 6 \<and> poolNum p (pb_cap b) = k)"
| "pc_ok p (Get_back k n b e) = (k < 6 \<and> poolNum p (pb_cap b) = k \<and> (e \<or> 0 < k))"
| "pc_ok p (Get_load k n) = (0 < k \<and> k < 6)"
| "pc_ok p (Get_note k n s) = (0 < k \<and> k < 6)"
| "pc_ok p (Get_miss_size k n) = (0 < k \<and> k < 6)"
| "pc_ok p (Get_miss_reset k n) = (0 < k \<and> k < 6)"
| "pc_ok p (Get_make n c) = (fits n \<longrightarrow> n \<le> c)"
| "pc_ok p (Get_ret n r) = (fits n \<longrightarrow> (\<exists>b. r = Inr (b, n) \<and> n \<le> pb_cap b))"
| "pc_ok p (Put_send k b) = (poolNum p (pb_cap b) = k)"
| "pc_ok p (Recv_closed k n) = False"
| "pc_ok p (Crashed e) = False"
| "pc_ok p c = True"

text \<open>The points behind the test of \<open>closed\<close> at which the pool is still in use.\<close>

fun in_pool :: "pool_pc \<Rightarrow> bool" where
  "in_pool (Get_recv k n) = True"
| "in_pool (Get_switch k n b) = True"
| "in_pool (Get_half k n b) = True"
| "in_pool (Get_half_size k n b) = True"
| "in_pool (Get_half_reset k n) = True"
| "in_pool (Get_greater k n b) = True"
| "in_pool (Get_back k n b e) = True"
| "in_pool (Get_load k n) = True"
| "in_pool (Get_note k n s) = True"
| "in_pool (Get_miss_size k n) = True"
| "in_pool (Get_miss_reset k n) = True"
| "in_pool (Put_send k b) = True"
| "in_pool c = False"

text \<open>What a step of a goroutine may do to the pool and to the buffers outside it (\<open>bs\<close> to \<open>bs'\<close>).\<close>

definition pool_keeps :: "buffer_pool \<Rightarrow> pool_buf multiset \<Rightarrow> buffer_pool \<Rightarrow> pool_buf multiset \<Rightarrow> bool" where
  "pool_keeps p bs p' bs' \<longleftrightarrow>
     pool_ok p' \<and> bp_baseline p' = bp_baseline p \<and> bp_baseline0 p' = bp_baseline0 p \<and>
     ((bs' + pool_bufs p' \<subseteq># bs + pool_bufs p \<and> bp_next p' = bp_next p) \<or>
      (\<exists>b. bs' + pool_bufs p' \<subseteq># add_mset b (bs + pool_bufs p) \<and> pb_addr b = bp_next p \<and>
        bp_next p' = Suc (bp_next p)))"

lemma same_keeps: "same_pool p p' \<Longrightarrow> pool_ok p \<Longrightarrow> bs' \<subseteq># bs \<Longrightarrow> pool_keeps p bs p' bs'"
  by (simp add: pool_keeps_def same_pool_ok same_pool_bufs) (simp add: same_pool_def)

lemma send_keeps:
  assumes "pool_ok p" and "k < 6" and "poolNum p (pb_cap b) = k"
  shows "pool_keeps p {#b#} (pool_send k b p) {#}"
  using send_spec [OF assms] by (auto simp: pool_keeps_def pool_send_def)

lemma recv_keeps:
  assumes "pool_recv k p = Some (b, p1)" and "pool_ok p" and "k < 6"
  shows "pool_keeps p {#} p1 {#b#}"
  using recv_spec [OF assms] by (simp add: pool_keeps_def)

lemma pc_ok_cong: "bp_baseline p' = bp_baseline p \<Longrightarrow> bp_baseline0 p' = bp_baseline0 p \<Longrightarrow> pc_ok p' c = pc_ok p c"
  using poolNum_cong [of p' p] by (cases c) simp_all

lemma make_keeps:
  assumes "pool_ok p" and "pool_make n c p = (r, p')" and "fits n \<longrightarrow> n \<le> c"
  shows "pool_keeps p {#} p' (mset (pc_bufs (Get_ret n r)))" and "pc_ok p' (Get_ret n r)"
proof -
  have "pool_ok (p\<lparr>bp_next := i\<rparr>)" "pool_bufs (p\<lparr>bp_next := i\<rparr>) = pool_bufs p" for i
    using assms(1) by (simp_all add: pool_ok_def pool_bufs_def)
  with assms(1,2) show "pool_keeps p {#} p' (mset (pc_bufs (Get_ret n r)))"
    by (auto simp: pool_make_def pool_keeps_def split: if_splits)
  show "pc_ok p' (Get_ret n r)" using assms(2,3) by (auto simp: pool_make_def fits_def split: if_splits)
qed

lemma fits_class:
  assumes "\<not> word_of_int n > (s :: u32)" and "fits n"
  shows "n \<le> uint s"
proof -
  have "uint (word_of_int n :: u32) = n" using assms(2) by (simp add: uint_word_of_int fits_def)
  with assms(1) show ?thesis by (simp add: word_less_def)
qed

lemma reslice_ok:
  assumes "n \<le> pb_cap b"
  shows "pc_ok p (Get_ret n (pool_reslice b n))" and "mset (pc_bufs (Get_ret n (pool_reslice b n))) \<subseteq># {#b#}"
  using assms by (simp_all add: pool_reslice_def fits_def)

lemma act_ok:
  assumes ok: "pool_ok p" and c: "pc_ok p c" and act: "thread_act d p c = (c', p')"
    and chans: "\<And>k. in_pool c \<Longrightarrow> \<not> chan_closed d k" and stop: "c = Close_send \<Longrightarrow> \<not> closeC_closed d"
  shows "pool_keeps p (mset (pc_bufs c)) p' (mset (pc_bufs c')) \<and> pc_ok p' c'"
proof -
  have *: "pool_keeps p (mset (pc_bufs c)) p' (mset (pc_bufs c')) \<and> pc_ok p' c'"
    if "same_pool p p'" "mset (pc_bufs c') \<subseteq># mset (pc_bufs c)" "pc_ok p c'"
    using that pc_ok_cong [of p' p c'] by (simp add: same_keeps ok) (simp add: same_pool_def)
  have class0: "poolNum p n = 0 \<Longrightarrow> n \<le> bp_baseline0 p" for n by (simp add: poolNum_0)
  show ?thesis
  proof (cases c)
    case (Get_recv k n)
    have k: "k = poolNum p n" "k < 6" using c Get_recv poolNum_le [OF ok] by simp_all
    show ?thesis
    proof (cases "pool_recv k p")
      case None
      then show ?thesis using act chans Get_recv k class0 [of n]
        by (intro *) (auto simp: same_pool_def split: if_splits)
    next
      case (Some bp)
      obtain b p1 where bp: "bp = (b, p1)" by (cases bp)
      note r = recv_spec [OF Some [unfolded bp] ok k(2)]
      have "c' = Get_switch k n b" "p' = p1" using act Get_recv Some bp by simp_all
      then show ?thesis using recv_keeps [OF Some [unfolded bp] ok k(2)] poolNum_cong [OF r(5,6)] r(4) k(1)
        by (simp add: Get_recv)
    qed
  next
    case (Get_switch k n b)
    have k: "k < 6" using c Get_switch poolNum_le [OF ok] by simp
    show ?thesis using act c k Get_switch reslice_ok [of n b] class0
      by (intro *) (auto simp: same_pool_def split: if_splits)
  next
    case (Get_half k n b)
    with act c show ?thesis by (intro *) (auto simp: same_pool_def Let_def split: if_splits)
  next
    case (Get_half_size k n b)
    with act c show ?thesis by (intro *) (auto simp: same_pool_def)
  next
    case (Get_half_reset k n)
    with act c show ?thesis by (intro *) (auto simp: same_pool_def fits_def)
  next
    case (Get_greater k n b)
    with act c show ?thesis by (intro *) (auto simp: same_pool_def split: if_splits)
  next
    case (Get_back k n b e)
    then show ?thesis using act c chans send_keeps [OF ok, of k b]
      by (auto simp: split: if_splits)
  next
    case (Get_load k n)
    with act c show ?thesis by (intro *) (auto simp: same_pool_def Let_def intro: fits_class split: if_splits)
  next
    case (Get_note k n s)
    with act c show ?thesis by (intro *) (auto simp: same_pool_def Let_def split: if_splits)
  next
    case (Get_miss_size k n)
    with act c show ?thesis by (intro *) (auto simp: same_pool_def)
  next
    case (Get_miss_reset k n)
    with act c show ?thesis by (intro *) (auto simp: same_pool_def)
  next
    case (Get_make n cp)
    then show ?thesis using act c make_keeps [OF ok] by (auto split: prod.splits)
  next
    case (Put_send k b)
    then show ?thesis using act c chans send_keeps [OF ok, of k b] poolNum_le [OF ok, of "pb_cap b"] by (auto split: if_splits)
  qed (use act c stop in \<open>(intro *; auto simp: same_pool_def split: if_splits)+\<close>)
qed

subsection \<open>The lock and the closing\<close>

text \<open>The draining goroutine has been told to stop.\<close>

definition stopping :: "drain_pc \<Rightarrow> bool" where
  "stopping d \<longleftrightarrow> (case d of Drain_wait \<Rightarrow> False | Drain_ticks i \<Rightarrow> False | _ \<Rightarrow> True)"

text \<open>
  A goroutine in \<open>Close\<close> is alone inside; the pool is not closed while a goroutine uses it; the
  message to the draining goroutine is sent once, into an empty channel.
\<close>

definition lock_ok :: "pool_pc list \<Rightarrow> bool" where
  "lock_ok ts \<longleftrightarrow> (\<forall>i<length ts. \<forall>j<length ts. writing (ts ! i) \<longrightarrow> ts ! j \<noteq> Away \<longrightarrow> i = j)"

definition close_ok :: "buffer_pool \<Rightarrow> drain_pc \<Rightarrow> pool_pc list \<Rightarrow> bool" where
  "close_ok p d ts \<longleftrightarrow>
     (\<forall>c\<in>set ts. in_pool c \<longrightarrow> \<not> bp_closed p) \<and>
     (0 < bp_closeC p \<or> stopping d \<longrightarrow> bp_closed p) \<and>
     (Close_send \<in> set ts \<longrightarrow> bp_closed p \<and> bp_closeC p = 0 \<and> \<not> stopping d)"

lemma stopping_closed: "\<not> stopping d \<Longrightarrow> \<not> chan_closed d k \<and> \<not> closeC_closed d"
  by (simp add: stopping_def chan_closed_def closeC_closed_def split: drain_pc.splits)

lemma lock_update:
  assumes "lock_ok ts" and "i < length ts" and "writing c \<Longrightarrow> writing (ts ! i)" and "c \<noteq> Away \<Longrightarrow> ts ! i \<noteq> Away"
  shows "lock_ok (ts[i := c])"
  using assms unfolding lock_ok_def by (smt (verit) length_list_update nth_list_update)

text \<open>The effect of a step on the flags of the pool.\<close>

lemma act_flags:
  assumes "thread_act d p c = (c', p')"
  shows "bp_closed p' = (bp_closed p \<or> c = Close_locked)"
    and "c \<noteq> Close_send \<Longrightarrow> bp_closeC p' = bp_closeC p"
  using assms
  by (cases c; auto simp: pool_recv_def pool_send_def pool_make_def Let_def split: if_splits option.splits list.splits prod.splits)+

subsection \<open>The invariant\<close>

definition outside :: "pool_sys \<Rightarrow> pool_buf list" where
  "outside s = ps_held s @ concat (map pc_bufs (ps_threads s))"

definition sys_ok :: "pool_sys \<Rightarrow> bool" where
  "sys_ok s \<longleftrightarrow>
     pool_inv (ps_pool s, outside s) \<and> (\<forall>c\<in>set (ps_threads s). pc_ok (ps_pool s) c) \<and>
     lock_ok (ps_threads s) \<and> close_ok (ps_pool s) (ps_drain s) (ps_threads s) \<and>
     (\<forall>i. ps_drain s = Drain_ticks i \<or> ps_drain s = Drain_closing i \<longrightarrow> i < 6)"

lemma keeps_inv:
  assumes inv: "pool_inv (p, H @ concat (map pc_bufs ts))" and i: "i < length ts"
    and keeps: "pool_keeps p (mset (pc_bufs (ts ! i))) p' (mset (pc_bufs c))"
  shows "pool_inv (p', H @ concat (map pc_bufs (ts[i := c])))"
proof -
  let ?old = "mset (pc_bufs (ts ! i))" and ?new = "mset (pc_bufs c)"
  let ?A = "all_bufs (p, H @ concat (map pc_bufs ts))" and ?B = "all_bufs (p', H @ concat (map pc_bufs (ts[i := c])))"
  have "mset (concat (map pc_bufs (ts[i := c]))) + ?old = mset (concat (map pc_bufs ts)) + ?new"
    using mset_concat_update [of i "map pc_bufs ts" "pc_bufs c"] i by (simp add: map_update)
  then have *: "?B + ?old = mset H + mset (concat (map pc_bufs ts)) + (?new + pool_bufs p')"
    by (simp add: all_bufs_def ac_simps)
  have sub: "?B \<subseteq># M + ?A" if "?new + pool_bufs p' \<subseteq># M + (?old + pool_bufs p)" for M
  proof -
    have "?B + ?old \<subseteq># mset H + mset (concat (map pc_bufs ts)) + (M + (?old + pool_bufs p))"
      unfolding * by (rule subset_mset.add_left_mono [OF that])
    also have "\<dots> = (M + ?A) + ?old" by (simp add: all_bufs_def ac_simps)
    finally show ?thesis by simp
  qed
  from keeps have ok: "pool_ok p'" by (simp add: pool_keeps_def)
  from keeps consider
      "?new + pool_bufs p' \<subseteq># ?old + pool_bufs p" "bp_next p' = bp_next p"
    | b where "?new + pool_bufs p' \<subseteq># add_mset b (?old + pool_bufs p)" "pb_addr b = bp_next p" "bp_next p' = Suc (bp_next p)"
    by (auto simp: pool_keeps_def)
  then show ?thesis
  proof cases
    case 1
    with ok sub [of "{#}"] show ?thesis by (intro pool_inv_shrink [OF inv]) simp_all
  next
    case 2
    with ok sub [of "{#b#}"] show ?thesis by (intro pool_inv_fresh [OF inv, where b = b]) simp_all
  qed
qed

lemma sys_ok_start: "NewBufferPool n = Inr p \<Longrightarrow> sys_ok (pool_start p m)"
  using pool_ok_new [of n p]
  by (auto simp: sys_ok_def pool_start_def outside_def pool_inv_def all_bufs_def lock_ok_def close_ok_def
      stopping_def writing_def NewBufferPool_def concat_replicate_trivial split: if_splits)

text \<open>A goroutine enters or leaves, or the clients drop a buffer: the pool is as before.\<close>

lemma enter_leave_step:
  assumes s: "sys_ok \<lparr>ps_pool = p, ps_drain = d, ps_threads = ts, ps_held = H\<rparr>" and i: "i < length ts"
    and c: "pc_ok p c" "\<not> in_pool c" "c \<noteq> Close_send" and lock: "lock_ok (ts[i := c])"
    and bufs: "mset H' + mset (pc_bufs c) \<subseteq># mset H + mset (pc_bufs (ts ! i))"
  shows "sys_ok \<lparr>ps_pool = p, ps_drain = d, ps_threads = ts[i := c], ps_held = H'\<rparr>"
proof -
  let ?R = "concat (map pc_bufs ts)" and ?R' = "concat (map pc_bufs (ts[i := c]))"
  have "mset ?R' + mset (pc_bufs (ts ! i)) = mset ?R + mset (pc_bufs c)"
    using mset_concat_update [of i "map pc_bufs ts" "pc_bufs c"] i by (simp add: map_update)
  then have "(mset H' + mset ?R') + mset (pc_bufs (ts ! i)) = mset ?R + (mset H' + mset (pc_bufs c))"
    by (simp add: ac_simps)
  also have "\<dots> \<subseteq># mset ?R + (mset H + mset (pc_bufs (ts ! i)))" by (rule subset_mset.add_left_mono [OF bufs])
  also have "\<dots> = mset (H @ ?R) + mset (pc_bufs (ts ! i))" by (simp add: ac_simps)
  finally have "mset (H' @ ?R') \<subseteq># mset (H @ ?R)" by simp
  then have sub: "all_bufs (p, H' @ ?R') \<subseteq># all_bufs (p, H @ ?R)" unfolding all_bufs_def by simp
  have old: "pool_inv (p, H @ ?R)" "\<forall>c\<in>set ts. pc_ok p c" "close_ok p d ts"
    using s by (simp_all add: sys_ok_def outside_def)
  have "pool_inv (p, H' @ ?R')"
    by (rule pool_inv_shrink [OF old(1) _ sub]) (use old(1) in \<open>simp_all add: pool_inv_def\<close>)
  moreover have set': "set (ts[i := c]) \<subseteq> insert c (set ts)" by (rule set_update_subset_insert)
  then have "close_ok p d (ts[i := c])" using old(3) c(2,3) unfolding close_ok_def by blast
  moreover have "\<forall>e\<in>set (ts[i := c]). pc_ok p e" using set' old(2) c(1) by blast
  ultimately show ?thesis using s lock by (simp add: sys_ok_def outside_def)
qed

lemma lock_enter:
  assumes "\<forall>c\<in>set ts. \<not> writing c" and "\<not> writing c" and "i < length ts"
  shows "lock_ok (ts[i := c])"
  using assms by (auto simp: lock_ok_def nth_list_update)

lemma lock_alone:
  assumes "\<forall>c\<in>set ts. c = Away" and "i < length ts"
  shows "lock_ok (ts[i := c])"
proof -
  have "ts[i := c] ! j = (if j = i then c else Away)" if "j < length ts" for j
    using assms that by (simp add: nth_list_update)
  then show ?thesis by (auto simp: lock_ok_def writing_def split: if_splits)
qed

lemma lock_leave: "lock_ok ts \<Longrightarrow> i < length ts \<Longrightarrow> lock_ok (ts[i := Away])"
  by (rule lock_update) (simp_all add: writing_def)

lemma act_points:
  assumes "thread_act d p c = (c', p')" and "running c"
  shows "writing c' \<Longrightarrow> writing c" and "c \<noteq> Away" and "in_pool c' \<Longrightarrow> in_pool c \<or> \<not> bp_closed p \<and> bp_closed p' = bp_closed p"
    and "c' = Close_send \<Longrightarrow> c = Close_locked \<and> \<not> bp_closed p \<or> c = Close_send \<and> bp_closeC p \<noteq> 0"
  using assms
  by (cases c; auto simp: writing_def Let_def split: if_splits option.splits prod.splits)+

text \<open>A step of a goroutine inside.\<close>

lemma act_step:
  assumes s: "sys_ok \<lparr>ps_pool = p, ps_drain = d, ps_threads = ts, ps_held = H\<rparr>" and i: "i < length ts"
    and run: "running (ts ! i)" and act: "thread_act d p (ts ! i) = (c, p')"
  shows "sys_ok \<lparr>ps_pool = p', ps_drain = d, ps_threads = ts[i := c], ps_held = H\<rparr>"
proof -
  have mem: "ts ! i \<in> set ts" using i by simp
  have inv: "pool_inv (p, H @ concat (map pc_bufs ts))" and pcs: "\<forall>c\<in>set ts. pc_ok p c"
    and lock: "lock_ok ts" and close: "close_ok p d ts"
    using s by (simp_all add: sys_ok_def outside_def)
  have ok: "pool_ok p" using inv by (simp add: pool_inv_def)
  have "\<not> chan_closed d k" if "in_pool (ts ! i)" for k
    using that close mem stopping_closed unfolding close_ok_def by metis
  moreover have "\<not> closeC_closed d" if "ts ! i = Close_send"
    using that close mem stopping_closed unfolding close_ok_def by metis
  ultimately have eff: "pool_keeps p (mset (pc_bufs (ts ! i))) p' (mset (pc_bufs c))" "pc_ok p' c"
    using act_ok [OF ok _ act] pcs mem by blast+
  note flags = act_flags [OF act] and points = act_points [OF act run]
  have set': "set (ts[i := c]) \<subseteq> insert c (set ts)" by (rule set_update_subset_insert)
  have "pc_ok p' e" if "e \<in> set ts" for e
    using pcs that eff(1) pc_ok_cong [of p' p e] by (simp add: pool_keeps_def)
  with eff(2) set' have pcs': "\<forall>e\<in>set (ts[i := c]). pc_ok p' e" by blast
  have lock': "lock_ok (ts[i := c])" using lock i points(1,2) by (rule lock_update)
  have close': "close_ok p' d (ts[i := c])"
  proof (cases "writing (ts ! i)")
    case True
    then have "ts ! j = Away" if "j < length ts" "j \<noteq> i" for j using lock i that unfolding lock_ok_def by blast
    then have away: "set (ts[i := c]) \<subseteq> {c, Away}"
      by (auto simp: in_set_conv_nth) (metis nth_list_update_eq nth_list_update_neq)
    have "ts ! i \<noteq> Close_ret" using run by auto
    with True have at: "ts ! i = Close_locked \<or> ts ! i = Close_send" by (auto simp: writing_def)
    with act have "\<not> in_pool c" by (auto split: if_splits)
    with away have out: "\<forall>e\<in>set (ts[i := c]). \<not> in_pool e" and
      send: "Close_send \<in> set (ts[i := c]) \<Longrightarrow> c = Close_send" by auto
    from at close mem act have "0 < bp_closeC p' \<or> stopping d \<longrightarrow> bp_closed p'"
      "c = Close_send \<longrightarrow> bp_closed p' \<and> bp_closeC p' = 0 \<and> \<not> stopping d"
      by (auto simp: close_ok_def split: if_splits)
    with out send show ?thesis unfolding close_ok_def by blast
  next
    case False
    then have "ts ! i \<noteq> Close_locked" "ts ! i \<noteq> Close_send" by (auto simp: writing_def)
    with flags points(3,4) close mem set' show ?thesis unfolding close_ok_def by (smt (verit) insert_iff subset_iff)
  qed
  show ?thesis using keeps_inv [OF inv i eff(1)] pcs' lock' close' s by (simp add: sys_ok_def outside_def)
qed

text \<open>A step beside the goroutines: of the draining one, or of a client.\<close>

lemma other_step:
  assumes s: "sys_ok \<lparr>ps_pool = p, ps_drain = d, ps_threads = ts, ps_held = H\<rparr>"
    and keeps: "pool_keeps p (mset H) p' (mset H')" and close: "close_ok p' d' ts"
    and idx: "\<forall>i. d' = Drain_ticks i \<or> d' = Drain_closing i \<longrightarrow> i < 6"
  shows "sys_ok \<lparr>ps_pool = p', ps_drain = d', ps_threads = ts, ps_held = H'\<rparr>"
proof -
  let ?R = "concat (map pc_bufs ts)"
  have inv: "pool_inv (p, H @ ?R)" and pcs: "\<forall>c\<in>set ts. pc_ok p c" and lock: "lock_ok ts"
    using s by (simp_all add: sys_ok_def outside_def)
  have sub: "all_bufs (p', H' @ ?R) \<subseteq># M + all_bufs (p, H @ ?R)"
    if "mset H' + pool_bufs p' \<subseteq># M + (mset H + pool_bufs p)" for M
    using subset_mset.add_left_mono [OF that, of "mset ?R"] by (simp add: all_bufs_def ac_simps)
  from keeps have ok: "pool_ok p'" by (simp add: pool_keeps_def)
  from keeps consider
      "mset H' + pool_bufs p' \<subseteq># mset H + pool_bufs p" "bp_next p' = bp_next p"
    | b where "mset H' + pool_bufs p' \<subseteq># add_mset b (mset H + pool_bufs p)" "pb_addr b = bp_next p" "bp_next p' = Suc (bp_next p)"
    by (auto simp: pool_keeps_def)
  then have "pool_inv (p', H' @ ?R)"
  proof cases
    case 1
    with ok sub [of "{#}"] show ?thesis by (intro pool_inv_shrink [OF inv]) simp_all
  next
    case 2
    with ok sub [of "{#b#}"] show ?thesis by (intro pool_inv_fresh [OF inv, where b = b]) simp_all
  qed
  moreover have "\<forall>c\<in>set ts. pc_ok p' c" using pcs keeps pc_ok_cong [of p' p] by (simp add: pool_keeps_def)
  ultimately show ?thesis using lock close idx by (simp add: sys_ok_def outside_def)
qed

lemma tick_keeps:
  assumes "pool_ok p" and "i < 6"
  shows "pool_keeps p bs (p\<lparr>bp_pool := (bp_pool p)[i := tl (bp_pool p ! i)]\<rparr>) bs"
proof (cases "pool_recv i p")
  case None
  then have "bp_pool p ! i = []" by (simp add: pool_recv_def split: list.splits)
  then have "(bp_pool p)[i := tl (bp_pool p ! i)] = bp_pool p" by (metis list.sel(2) list_update_id)
  with assms show ?thesis by (intro same_keeps) (simp_all add: same_pool_def)
next
  case (Some bp)
  obtain b p1 where bp: "bp = (b, p1)" by (cases bp)
  have "p1 = p\<lparr>bp_pool := (bp_pool p)[i := tl (bp_pool p ! i)]\<rparr>"
    using Some bp by (auto simp: pool_recv_def split: list.splits)
  with recv_spec [OF Some [unfolded bp] assms] show ?thesis by (simp add: pool_keeps_def)
qed

lemma drain_ok:
  assumes act: "drain_act fired d p = (d', p')" and ok: "pool_ok p" and close: "close_ok p d ts"
    and idx: "\<forall>i. d = Drain_ticks i \<or> d = Drain_closing i \<longrightarrow> i < 6"
  shows "pool_keeps p bs p' bs" and "close_ok p' d' ts" and "\<forall>i. d' = Drain_ticks i \<or> d' = Drain_closing i \<longrightarrow> i < 6"
proof -
  show "pool_keeps p bs p' bs"
  proof (cases d)
    case (Drain_ticks i)
    with act idx tick_keeps [OF ok, of i] show ?thesis by (auto simp: drain_act_def)
  qed (use act ok in \<open>auto intro!: same_keeps simp: drain_act_def same_pool_def split: if_splits\<close>)
  show "close_ok p' d' ts"
    using act close by (cases d) (auto simp: drain_act_def close_ok_def stopping_def split: if_splits)
  show "\<forall>i. d' = Drain_ticks i \<or> d' = Drain_closing i \<longrightarrow> i < 6"
    using act idx by (cases d) (auto simp: drain_act_def split: if_splits)
qed

lemma own_keeps:
  assumes "pool_ok p" and "pool_make n c p = (Inr (b, l), p')"
  shows "pool_keeps p (mset H) p' (mset (b # H))" and "close_ok p' d ts = close_ok p d ts"
proof -
  have p': "p' = p\<lparr>bp_next := Suc (bp_next p)\<rparr>" "pb_addr b = bp_next p"
    using assms(2) by (auto simp: pool_make_def split: if_splits)
  moreover have "pool_ok p'" "pool_bufs p' = pool_bufs p" using assms(1) by (simp_all add: p' pool_ok_def pool_bufs_def)
  ultimately show "pool_keeps p (mset H) p' (mset (b # H))" by (simp add: pool_keeps_def)
  show "close_ok p' d ts = close_ok p d ts" by (simp add: p' close_ok_def)
qed

lemma tstep_ok: "pool_tstep s t \<Longrightarrow> sys_ok s \<Longrightarrow> sys_ok t"
proof (induction rule: pool_tstep.induct)
  case (get i ts p d H n)
  have "lock_ok (ts[i := Get_locked n])" using get.hyps by (intro lock_enter) (auto simp: writing_def)
  with get show ?case by (intro enter_leave_step [OF get.prems]) simp_all
next
  case (put i ts b H p d)
  have "lock_ok (ts[i := Put_locked b])" using put.hyps by (intro lock_enter) (auto simp: writing_def)
  with put show ?case by (intro enter_leave_step [OF put.prems]) simp_all
next
  case (close i ts p d H)
  then have "lock_ok (ts[i := Close_locked])" by (intro lock_alone)
  with close show ?case by (intro enter_leave_step [OF close.prems]) simp_all
next
  case (act i ts d p c p' H)
  then show ?case by (intro act_step)
next
  case (got i ts n b l p d H)
  then have "lock_ok ts" by (simp add: sys_ok_def)
  with got have "lock_ok (ts[i := Away])" by (intro lock_leave)
  with got show ?case by (intro enter_leave_step [OF got.prems]) simp_all
next
  case (get_panics i ts n e p d H)
  then have "lock_ok (ts[i := Away])" by (intro lock_leave) (simp_all add: sys_ok_def)
  with get_panics show ?case by (intro enter_leave_step [OF get_panics.prems]) simp_all
next
  case (leave i ts p d H)
  then have "lock_ok (ts[i := Away])" by (intro lock_leave) (simp_all add: sys_ok_def)
  with leave show ?case by (intro enter_leave_step [OF leave.prems]) auto
next
  case (drains fired d p d' p' ts H)
  then have "pool_ok p" "close_ok p d ts" "\<forall>i. d = Drain_ticks i \<or> d = Drain_closing i \<longrightarrow> i < 6"
    by (simp_all add: sys_ok_def pool_inv_def)
  from drain_ok [OF drains.hyps this] show ?case by (rule other_step [OF drains.prems])
next
  case (own n c p b l p' d ts H)
  then have "pool_ok p" "close_ok p d ts" "\<forall>i. d = Drain_ticks i \<or> d = Drain_closing i \<longrightarrow> i < 6"
    by (simp_all add: sys_ok_def pool_inv_def)
  with own_keeps [OF _ own.hyps] show ?case by (intro other_step [OF own.prems]) simp_all
next
  case (forget p d ts H b)
  then have "pool_ok p" "close_ok p d ts" "\<forall>i. d = Drain_ticks i \<or> d = Drain_closing i \<longrightarrow> i < 6"
    by (simp_all add: sys_ok_def pool_inv_def)
  then show ?case by (intro other_step [OF forget] same_keeps) (simp_all add: same_pool_def)
qed

lemma pool_run_ok: "pool_tstep\<^sup>*\<^sup>* (pool_start p m) s \<Longrightarrow> NewBufferPool n = Inr p \<Longrightarrow> sys_ok s"
  by (induction rule: rtranclp_induct) (auto intro: sys_ok_start tstep_ok)

subsection \<open>Waiting\<close>

text \<open>A bound on the steps a goroutine has left inside.\<close>

fun pc_rank :: "pool_pc \<Rightarrow> nat" where
  "pc_rank (Get_locked n) = 10"
| "pc_rank (Get_recv k n) = 9"
| "pc_rank (Get_switch k n b) = 8"
| "pc_rank (Get_half k n b) = 7"
| "pc_rank (Get_greater k n b) = 7"
| "pc_rank (Get_back k n b e) = 6"
| "pc_rank (Get_load k n) = 5"
| "pc_rank (Get_note k n s) = 4"
| "pc_rank (Get_half_size k n b) = 3"
| "pc_rank (Get_miss_size k n) = 3"
| "pc_rank (Get_half_reset k n) = 2"
| "pc_rank (Get_miss_reset k n) = 2"
| "pc_rank (Get_make n c) = 1"
| "pc_rank (Put_locked b) = 2"
| "pc_rank (Put_send k b) = 1"
| "pc_rank Close_locked = 2"
| "pc_rank Close_send = 1"
| "pc_rank c = 0"

lemma rank_decreases:
  assumes "running c" and "c = Close_send \<longrightarrow> bp_closeC p = 0"
  shows "pc_rank (fst (thread_act d p c)) < pc_rank c"
  using assms by (cases c) (auto simp: Let_def split: option.splits prod.splits)

text \<open>A goroutine that runs alone, for a number of steps.\<close>

definition alone :: "drain_pc \<Rightarrow> nat \<Rightarrow> pool_pc \<times> buffer_pool \<Rightarrow> pool_pc \<times> buffer_pool" where
  "alone d j = ((\<lambda>(c, p). thread_act d p c) ^^ j)"

lemma alone_0 [simp]: "alone d 0 cp = cp"
  by (simp add: alone_def)

lemma alone_Suc [simp]: "alone d (Suc j) (c, p) = alone d j (thread_act d p c)"
  by (simp add: alone_def funpow_swap1 del: funpow.simps) (simp add: funpow_swap1)

lemma alone_ret: "alone d j (Get_ret n r, p) = (Get_ret n r, p)"
  by (induction j) simp_all

lemma alone_make: "0 < j \<Longrightarrow> alone d j (Get_make n c, p) = (case pool_make n c p of (r, p') \<Rightarrow> (Get_ret n r, p'))"
  by (cases j) (auto simp: alone_ret split: prod.splits)

lemma alone_load:
  "alone d (5 + j) (Get_load k n, p) = (case get_sized (k - 1) n p of (r, p') \<Rightarrow> (Get_ret n r, p'))"
  by (simp add: numeral_eq_Suc get_sized_def note_miss_def alone_make alone_ret Let_def split: prod.splits)

lemma alone_fast:
  assumes "\<not> chan_closed d 0"
  shows "alone d (4 + j) (Get_recv 0 n, p) = (case get_fast n p of (r, p') \<Rightarrow> (Get_ret n r, p'))"
  using assms
  by (simp add: numeral_eq_Suc get_fast_def alone_make alone_ret split: prod.splits option.splits)

lemma alone_back:
  assumes "\<not> chan_closed d k"
  shows "alone d (2 + j) (Get_back k n b True, p) = (case pool_make n n (pool_send k b p) of (r, p') \<Rightarrow> (Get_ret n r, p'))"
    and "alone d (6 + j) (Get_back k n b False, p) =
      (case get_sized (k - 1) n (pool_send k b p) of (r, p') \<Rightarrow> (Get_ret n r, p'))"
proof -
  show "alone d (2 + j) (Get_back k n b True, p) = (case pool_make n n (pool_send k b p) of (r, p') \<Rightarrow> (Get_ret n r, p'))"
    using assms by (simp add: numeral_2_eq_2 alone_make alone_ret split: prod.splits)
  have "alone d (Suc (5 + j)) (Get_back k n b False, p) =
      (case get_sized (k - 1) n (pool_send k b p) of (r, p') \<Rightarrow> (Get_ret n r, p'))"
    using assms by (subst alone_Suc) (simp add: alone_load del: alone_Suc)
  then show "alone d (6 + j) (Get_back k n b False, p) =
      (case get_sized (k - 1) n (pool_send k b p) of (r, p') \<Rightarrow> (Get_ret n r, p'))" by simp
qed

lemma alone_half:
  assumes "\<not> chan_closed d k"
  shows "alone d (4 + j) (Get_half k n b, p) = (case pool_make n n (note_half k b p) of (r, p') \<Rightarrow> (Get_ret n r, p'))"
proof (cases "bp_sizeHalf p ! (k - 1) + 1 = 20")
  case True
  then show ?thesis
    by (simp add: numeral_eq_Suc note_half_def alone_make alone_ret Let_def split: prod.splits)
next
  case False
  then show ?thesis using assms
    by (simp add: numeral_eq_Suc note_half_def alone_make alone_ret Let_def split: prod.splits)
qed

lemma alone_next: "0 < j \<Longrightarrow> alone d j (c, p) = alone d (j - 1) (thread_act d p c)"
  by (cases j) simp_all

lemma alone_slow:
  assumes "\<not> chan_closed d k" and "0 < k"
  shows "alone d 9 (Get_recv k n, p) = (case get_slow k n p of (r, p') \<Rightarrow> (Get_ret n r, p'))"
proof (cases "pool_recv k p")
  case None
  then show ?thesis using assms alone_load [of d 3 k n] by (simp add: alone_next [of 9] get_slow_def)
next
  case (Some bp)
  obtain b p1 where bp: "bp = (b, p1)" by (cases bp)
  have switch: "alone d 9 (Get_recv k n, p) = alone d 7 (thread_act d p1 (Get_switch k n b))"
    using Some bp by (simp add: alone_next [of 9] alone_next [of 8])
  have greater: "alone d 7 (Get_greater k n b, q) = alone d 6 (thread_act d q (Get_greater k n b))" for q
    by (simp add: alone_next [of 7])
  show ?thesis
    unfolding switch using assms(2) Some bp
    by (cases "pb_cap b > n"; cases "pb_cap b = n"; cases "twice_as_large b n")
      (simp_all add: get_slow_def alone_ret alone_half [OF assms(1), of 3, simplified] greater
        alone_back(2) [OF assms(1), of 0, simplified] alone_load [of d 1, simplified] Let_def)
qed

lemma Get_alone:
  assumes "bp_closed p \<or> \<not> chan_closed d (poolNum p n)"
  shows "alone d 10 (Get_locked n, p) = (case pool_Get n p of (r, p') \<Rightarrow> (Get_ret n r, p'))"
proof (cases "bp_closed p")
  case True
  then show ?thesis by (simp add: alone_next [of 10] alone_make pool_Get_def)
next
  case False
  with assms have open': "\<not> chan_closed d (poolNum p n)" by simp
  with False show ?thesis using alone_slow [OF open'] alone_fast [of d 5 n]
    by (cases "poolNum p n = 0") (simp_all add: alone_next [of 10] pool_Get_def Let_def)
qed

lemma Put_alone:
  assumes "bp_closed p \<or> \<not> chan_closed d (poolNum p (pb_cap b))"
  shows "alone d 2 (Put_locked b, p) = (Put_ret, pool_Put b p)"
  using assms by (auto simp: alone_next [of 2] alone_next [of 1] pool_Put_def Let_def)

lemma Close_alone:
  assumes "bp_closed p \<or> \<not> closeC_closed d \<and> bp_closeC p = 0"
  shows "alone d 2 (Close_locked, p) = (Close_ret, pool_Close p)"
  using assms by (auto simp: alone_next [of 2] alone_next [of 1] pool_Close_def)

subsection \<open>Properties\<close>

text \<open>The second of two goroutines enters \<open>Get\<close> of an empty pool, the ticker fires, and it makes a buffer.\<close>

abbreviation made_10 :: pool_pc where
  "made_10 \<equiv> Get_ret 10 (Inr (\<lparr>pb_addr = 0, pb_cap = 16\<rparr>, 10))"

lemma pool_run_example:
  "\<exists>p s. NewBufferPool 16 = Inr p \<and> pool_tstep\<^sup>*\<^sup>* (pool_start p 2) s \<and> ps_threads s = [Away, made_10]"
proof -
  obtain p where p: "NewBufferPool 16 = Inr p" by (simp add: NewBufferPool_def)
  have f: "\<not> bp_closed p" "poolNum p 10 = 0" "bp_baseline0 p = 16" "bp_pool p ! 0 = []" "bp_next p = 0"
    using p by (auto simp: NewBufferPool_def poolNum_0)
  let ?s = "\<lambda>p d c. \<lparr>ps_pool = p, ps_drain = d, ps_threads = [Away, Away][1 := c], ps_held = []\<rparr>"
  let ?p1 = "p\<lparr>bp_get := bp_get p + 1\<rparr>"
  let ?p2 = "?p1\<lparr>bp_miss := bp_miss p + 1\<rparr>"
  let ?p3 = "?p2\<lparr>bp_next := 1\<rparr>"
  note act = pool_tstep.act [where i = 1 and ts = "[Away, c]" for c, simplified]
  have "pool_start p 2 = ?s p Drain_wait Away" by (simp add: pool_start_def numeral_2_eq_2)
  also have "pool_tstep \<dots> (?s p Drain_wait (Get_locked 10))"
    using pool_tstep.get [of 1 "[Away, Away]" p Drain_wait "[]" 10] by (simp add: writing_def)
  then have "pool_tstep\<^sup>*\<^sup>* (?s p Drain_wait Away) (?s p Drain_wait (Get_locked 10))" by (rule r_into_rtranclp)
  also have "pool_tstep \<dots> (?s p (Drain_ticks 0) (Get_locked 10))"
    using pool_tstep.drains [of True Drain_wait p] by (simp add: drain_act_def)
  also have "pool_tstep \<dots> (?s ?p1 (Drain_ticks 0) (Get_recv 0 10))"
    using act by (simp add: f)
  also have "pool_tstep \<dots> (?s ?p2 (Drain_ticks 0) (Get_make 10 16))"
    using act by (simp add: f chan_closed_def pool_recv_def)
  also have "pool_tstep \<dots> (?s ?p3 (Drain_ticks 0) made_10)"
    using act by (simp add: f pool_make_def)
  finally (rtranclp.rtrancl_into_rtrancl) have "pool_tstep\<^sup>*\<^sup>* (pool_start p 2) (?s ?p3 (Drain_ticks 0) made_10)" .
  with p show ?thesis by (intro exI [of _ p] exI [of _ "?s ?p3 (Drain_ticks 0) made_10"]) simp
qed

text \<open>
  C16: However the goroutines in \<open>Get\<close>, \<open>Put\<close> and \<open>Close\<close> and the draining one interleave, no array is
  at once in two of the pool, the hands of a goroutine inside and the hands of the clients (who put
  back only what they hold), and every channel holds buffers of its own size class only, never more
  than its capacity.
\<close>

theorem pool_threads_exclusive:
  assumes "NewBufferPool n = Inr p" and "pool_tstep\<^sup>*\<^sup>* (pool_start p m) s"
  shows "distinct (map pb_addr (outside s @ concat (bp_pool (ps_pool s)))) \<and>
    (\<forall>k<6. length (bp_pool (ps_pool s) ! k) \<le> pool_caps ! k \<and>
      (\<forall>b\<in>set (bp_pool (ps_pool s) ! k). poolNum (ps_pool s) (pb_cap b) = k))"
proof -
  have inv: "pool_inv (ps_pool s, outside s)" using pool_run_ok [OF assms(2,1)] by (simp add: sys_ok_def)
  have "all_bufs (ps_pool s, outside s) = mset (outside s @ concat (bp_pool (ps_pool s)))"
    by (simp add: all_bufs_def pool_bufs_def)
  with inv have "distinct (map pb_addr (outside s @ concat (bp_pool (ps_pool s))))"
    by (intro distinct_addrs) (simp only: pool_inv_def)
  with inv show ?thesis by (simp add: pool_inv_def pool_ok_def)
qed

lemma pool_threads_exclusive_witness:
  "\<exists>p (s :: pool_sys). NewBufferPool 16 = Inr p \<and> ps_threads s = [Away, made_10] \<and>
     distinct (map pb_addr (outside s @ concat (bp_pool (ps_pool s))))"
proof -
  obtain p s where s: "NewBufferPool 16 = Inr p" "pool_tstep\<^sup>*\<^sup>* (pool_start p 2) s" "ps_threads s = [Away, made_10]"
    using pool_run_example by blast
  from pool_threads_exclusive [OF s(1,2)] have "distinct (map pb_addr (outside s @ concat (bp_pool (ps_pool s))))"
    by (rule conjunct1)
  with s(1,3) show ?thesis by blast
qed

text \<open>
  C38: Once it has the lock, no goroutine waits for another or panics on a channel: in every reachable
  state each step of one inside lowers the number of its steps left, at most ten (\<open>Close\<close> finds
  the channel to the draining goroutine empty and open), none has received from or sent on a closed
  channel, and a \<open>Get\<close> of a length below \<open>2 ^ 32\<close> that is done has a slice of that length.
\<close>

theorem pool_threads_wait_free:
  assumes "NewBufferPool b = Inr p" and "pool_tstep\<^sup>*\<^sup>* (pool_start p m) s"
    and "i < length (ps_threads s)" and "c = ps_threads s ! i"
  shows "pc_rank c \<le> 10 \<and>
    (running c \<longrightarrow> pc_rank (fst (thread_act (ps_drain s) (ps_pool s) c)) < pc_rank c) \<and>
    c \<noteq> Crashed e \<and> c \<noteq> Recv_closed k n \<and>
    (c = Get_ret n r \<longrightarrow> 0 \<le> n \<longrightarrow> n < 2 ^ 32 \<longrightarrow> (\<exists>x. r = Inr (x, n) \<and> n \<le> pb_cap x))"
proof -
  have ok: "sys_ok s" by (rule pool_run_ok [OF assms(2,1)])
  have mem: "c \<in> set (ps_threads s)" using assms(3,4) by simp
  with ok have pc: "pc_ok (ps_pool s) c" and send: "c = Close_send \<longrightarrow> bp_closeC (ps_pool s) = 0"
    by (auto simp: sys_ok_def close_ok_def)
  have "pc_rank c \<le> 10" by (cases c) simp_all
  moreover have "running c \<longrightarrow> pc_rank (fst (thread_act (ps_drain s) (ps_pool s) c)) < pc_rank c"
    using rank_decreases send by blast
  moreover have "c \<noteq> Crashed e" "c \<noteq> Recv_closed k n" using pc by auto
  moreover have "c = Get_ret n r \<longrightarrow> 0 \<le> n \<longrightarrow> n < 2 ^ 32 \<longrightarrow> (\<exists>x. r = Inr (x, n) \<and> n \<le> pb_cap x)"
    using pc by (auto simp: fits_def)
  ultimately show ?thesis by blast
qed

lemma pool_threads_wait_free_witness:
  "\<exists>p (s :: pool_sys) x. NewBufferPool 16 = Inr p \<and> ps_threads s ! 1 = Get_ret 10 (Inr (x, 10)) \<and> 10 \<le> pb_cap x \<and>
     pc_rank (ps_threads s ! 1) \<le> 10"
proof -
  obtain p s where s: "NewBufferPool 16 = Inr p" "pool_tstep\<^sup>*\<^sup>* (pool_start p 2) s" "ps_threads s = [Away, made_10]"
    using pool_run_example by blast
  let ?b = "\<lparr>pb_addr = 0, pb_cap = 16\<rparr>"
  have i: "1 < length (ps_threads s)" and c: "made_10 = ps_threads s ! 1" by (simp_all add: s(3))
  have rank: "pc_rank (ps_threads s ! 1) \<le> 10"
    using pool_threads_wait_free [OF s(1,2) i refl] by (rule conjunct1)
  have "\<exists>x. Inr (?b, 10) = (Inr (x, 10 :: int) :: go_panic + _) \<and> 10 \<le> pb_cap x"
    using pool_threads_wait_free [OF s(1,2) i c, of undefined 0 10 "Inr (?b, 10)"] by simp
  then obtain x where x: "Inr (?b, 10) = (Inr (x, 10 :: int) :: go_panic + _)" "10 \<le> pb_cap x" by blast
  have "ps_threads s ! 1 = Get_ret 10 (Inr (x, 10))" using c x(1) by (simp only:)
  with s(1) x(2) rank show ?thesis by blast
qed

text \<open>
  C35: From every reachable state a goroutine that runs alone through \<open>Get\<close>, \<open>Put\<close> or \<open>Close\<close> does
  what the operation does as one step.
\<close>

theorem pool_threads_atomic:
  assumes "NewBufferPool b = Inr p" and "pool_tstep\<^sup>*\<^sup>* (pool_start p m) s"
  shows "alone (ps_drain s) 10 (Get_locked n, ps_pool s) =
      (Get_ret n (fst (pool_Get n (ps_pool s))), snd (pool_Get n (ps_pool s))) \<and>
    alone (ps_drain s) 2 (Put_locked x, ps_pool s) = (Put_ret, pool_Put x (ps_pool s)) \<and>
    alone (ps_drain s) 2 (Close_locked, ps_pool s) = (Close_ret, pool_Close (ps_pool s))"
proof -
  have "close_ok (ps_pool s) (ps_drain s) (ps_threads s)"
    using pool_run_ok [OF assms(2,1)] by (simp add: sys_ok_def)
  then have "bp_closed (ps_pool s) \<or> \<not> stopping (ps_drain s) \<and> bp_closeC (ps_pool s) = 0"
    by (auto simp: close_ok_def)
  then have "bp_closed (ps_pool s) \<or> \<not> chan_closed (ps_drain s) k"
    "bp_closed (ps_pool s) \<or> \<not> closeC_closed (ps_drain s) \<and> bp_closeC (ps_pool s) = 0" for k
    using stopping_closed by blast+
  then show ?thesis by (simp add: Get_alone Put_alone Close_alone split: prod.splits)
qed

lemma pool_threads_atomic_witness:
  "\<exists>p (s :: pool_sys). NewBufferPool 16 = Inr p \<and> ps_threads s = [Away, made_10] \<and>
     alone (ps_drain s) 2 (Close_locked, ps_pool s) = (Close_ret, pool_Close (ps_pool s))"
proof -
  obtain p s where s: "NewBufferPool 16 = Inr p" "pool_tstep\<^sup>*\<^sup>* (pool_start p 2) s" "ps_threads s = [Away, made_10]"
    using pool_run_example by blast
  from pool_threads_atomic [OF s(1,2)]
  have "alone (ps_drain s) 2 (Close_locked, ps_pool s) = (Close_ret, pool_Close (ps_pool s))" by blast
  with s(1,3) show ?thesis by blast
qed

end
