(* ===== verification/Byte_Utils.thy ===== *)
theory Byte_Utils
  imports Go_Encoding "HOL-Library.List_Lexorder"
begin

text \<open>
  The small utilities of \<open>taudb/utils\<close>: key ranges (\<open>range.go\<close>), the hash (\<open>hash.go\<close>), the
  masked checksum (\<open>crc32.go\<close>, with the table-driven checksum of the standard library) and
  the releaser (\<open>utils.go\<close>).
\<close>

subsection \<open>Key ranges\<close>

text \<open>The order of byte strings the comment of \<open>BytesPrefix\<close> refers to.\<close>

fun bytes_less :: "byte list \<Rightarrow> byte list \<Rightarrow> bool" where
  "bytes_less ks [] = False"
| "bytes_less [] (y # ys) = True"
| "bytes_less (x # xs) (y # ys) = (x < y \<or> (x = y \<and> bytes_less xs ys))"

text \<open>A nil limit, here \<open>None\<close>, is no limit.\<close>

record key_range =
  rg_Start :: "byte list"
  rg_Limit :: "byte list option"

fun prefix_limit :: "byte list \<Rightarrow> nat \<Rightarrow> byte list option" where
  "prefix_limit pre 0 = None"
| "prefix_limit pre (Suc i) =
     (let c = pre ! i in
      if c < 0xFF then Some ((overwrite (replicate (i + 1) 0) 0 pre)[i := c + 1]) else prefix_limit pre i)"

definition BytesPrefix :: "byte list \<Rightarrow> key_range" where
  "BytesPrefix pre = \<lparr>rg_Start = pre, rg_Limit = prefix_limit pre (length pre)\<rparr>"

definition in_range :: "byte list \<Rightarrow> key_range \<Rightarrow> bool" where
  "in_range k r \<longleftrightarrow> \<not> bytes_less k (rg_Start r) \<and> (case rg_Limit r of None \<Rightarrow> True | Some l \<Rightarrow> bytes_less k l)"

text \<open>It is the lexicographic order of the library, and a range is an interval of it.\<close>

lemma bytes_less_lexorder: "bytes_less ks ls \<longleftrightarrow> ks < ls"
  by (induction ks ls rule: bytes_less.induct) auto

lemma in_range_interval:
  "in_range k r \<longleftrightarrow> rg_Start r \<le> k \<and> (case rg_Limit r of None \<Rightarrow> True | Some l \<Rightarrow> k < l)"
  by (simp add: in_range_def bytes_less_lexorder linorder_not_less split: option.split)

lemma byte_max: "\<not> (0xFF :: byte) < x"
  by unat_arith auto

lemma not_less_all_ff: "\<not> bytes_less k (replicate m 0xFF) \<longleftrightarrow> take m k = replicate m 0xFF"
proof (induction m arbitrary: k)
  case (Suc m)
  show ?case
  proof (cases k)
    case (Cons x xs)
    have "x < 0xFF \<longleftrightarrow> x \<noteq> 0xFF" using byte_max [of x] by auto
    with Cons Suc show ?thesis by auto
  qed simp
qed simp

lemma byte_less_succ:
  fixes x c :: byte
  assumes "c < 0xFF"
  shows "x < c + 1 \<longleftrightarrow> x \<le> c"
  using assms by unat_arith auto

lemma between_limit:
  assumes "c < (0xFF :: byte)"
  shows "\<not> bytes_less k (q @ c # replicate m 0xFF) \<and> bytes_less k (q @ [c + 1]) \<longleftrightarrow>
    take (length q + Suc m) k = q @ c # replicate m 0xFF"
proof (induction q arbitrary: k)
  case Nil
  show ?case
  proof (cases k)
    case (Cons x xs)
    have "\<not> bytes_less xs []" by simp
    with Cons byte_less_succ [OF assms, of x] not_less_all_ff [of xs m] show ?thesis by auto
  qed simp
next
  case (Cons y q)
  then show ?case by (cases k) auto
qed

lemma prefix_limit_cases:
  assumes "i \<le> length pre"
  shows "(prefix_limit pre i = None \<and> take i pre = replicate i 0xFF) \<or>
    (\<exists>q c m. c < 0xFF \<and> take i pre = q @ c # replicate m 0xFF \<and> prefix_limit pre i = Some (q @ [c + 1]))"
  using assms
proof (induction i)
  case (Suc i)
  have split: "take (Suc i) pre = take i pre @ [pre ! i]" using Suc.prems by (simp add: take_Suc_conv_app_nth)
  show ?case
  proof (cases "pre ! i < 0xFF")
    case True
    have "overwrite (replicate (i + 1) 0) 0 pre = take i pre @ [pre ! i]"
      using Suc.prems split by (simp add: overwrite_def)
    then have "prefix_limit pre (Suc i) = Some (take i pre @ [pre ! i + 1])"
      using True Suc.prems by (simp add: Let_def list_update_append)
    with True split show ?thesis by (intro disjI2 exI [of _ "take i pre"] exI [of _ "pre ! i"] exI [of _ 0]) simp
  next
    case False
    then have ff: "pre ! i = 0xFF" using byte_max [of "pre ! i"] by auto
    with False have lim: "prefix_limit pre (Suc i) = prefix_limit pre i" by (simp add: Let_def)
    have rep: "replicate m 0xFF @ [0xFF] = (replicate (Suc m) 0xFF :: byte list)" for m
      by (simp add: replicate_append_same)
    from Suc.IH Suc.prems show ?thesis
      unfolding lim split ff by (metis Suc_leD append_Cons append_assoc rep)
  qed
qed simp

subsection \<open>The hash\<close>

definition hash_m :: u32 where "hash_m = 0xc6a4a793"

definition hash_mix :: "u32 \<Rightarrow> u32 \<Rightarrow> u32" where
  "hash_mix h w = (let h1 = (h + w) * hash_m in h1 XOR drop_bit 16 h1)"

text \<open>The loop over whole words: the bytes left and the hash so far.\<close>

fun hash_words :: "byte list \<Rightarrow> u32 \<Rightarrow> byte list \<times> u32" where
  "hash_words (a # b # c # d # data) h = hash_words data (hash_mix h (le_word [a, b, c, d]))"
| "hash_words data h = (data, h)"

definition hash_last :: "u32 \<Rightarrow> u32" where
  "hash_last h = (let h1 = h * hash_m in h1 XOR drop_bit 24 h1)"

fun hash_tail :: "byte list \<Rightarrow> u32 \<Rightarrow> go_panic + u32" where
  "hash_tail [] h = Inr h"
| "hash_tail [x] h = Inr (hash_last (h + ucast x))"
| "hash_tail [x, y] h = Inr (hash_last (h + push_bit 8 (ucast y) + ucast x))"
| "hash_tail [x, y, z] h = Inr (hash_last (h + push_bit 16 (ucast z) + push_bit 8 (ucast y) + ucast x))"
| "hash_tail data h = Inl (Panic_msg ''not reached'')"

definition Hash :: "byte list \<Rightarrow> u32 \<Rightarrow> go_panic + u32" where
  "Hash data seed =
     (let (rest, h) = hash_words data (seed XOR (of_nat (length data) * hash_m)) in hash_tail rest h)"

lemma hash_words_rest: "length (fst (hash_words data h)) < 4"
  by (induction data h rule: hash_words.induct) auto

lemma hash_tail_total: "length rest < 4 \<Longrightarrow> \<exists>x. hash_tail rest h = Inr x"
  by (cases "(rest, h)" rule: hash_tail.cases) auto

subsection \<open>The checksum\<close>

definition castagnoli :: u32 where "castagnoli = 0x82f63b78"

definition crc_shift :: "u32 \<Rightarrow> u32" where
  "crc_shift c = (if bit c 0 then drop_bit 1 c XOR castagnoli else drop_bit 1 c)"

text \<open>An entry of the table of \<open>crc32.MakeTable\<close>.\<close>

definition crc_entry :: "byte \<Rightarrow> u32" where
  "crc_entry b = (crc_shift ^^ 8) (ucast b)"

definition crc_byte :: "u32 \<Rightarrow> byte \<Rightarrow> u32" where
  "crc_byte c v = crc_entry (ucast c XOR v) XOR drop_bit 8 c"

definition crc_Update :: "u32 \<Rightarrow> byte list \<Rightarrow> u32" where
  "crc_Update c bs = NOT (foldl crc_byte (NOT c) bs)"

definition NewCRC :: "byte list \<Rightarrow> u32" where
  "NewCRC bs = crc_Update 0 bs"

definition crc_Value :: "u32 \<Rightarrow> u32" where
  "crc_Value c = (drop_bit 15 c OR push_bit 17 c) + 0xa282ead8"

lemma crc_rotate_inj:
  assumes "drop_bit 15 a OR push_bit 17 a = drop_bit 15 b OR push_bit 17 (b :: u32)"
  shows "a = b"
proof (rule bit_word_eqI)
  fix n
  assume n: "n < LENGTH(32)"
  let ?k = "if n < 15 then n + 17 else n - 15"
  have "bit (drop_bit 15 x OR push_bit 17 x) ?k = bit x n" for x :: u32
    using n bit_imp_le_length [of x "n + 32"] by (auto simp: bit_simps dest: bit_imp_le_length)
  then show "bit a n = bit b n" using assms by metis
qed

subsection \<open>Releasers\<close>

text \<open>A releaser is known by a name; the operations also return the releasers called.\<close>

record basic_releaser =
  br_releaser :: "string option"
  br_released :: bool

definition br_Release :: "basic_releaser \<Rightarrow> string list \<times> basic_releaser" where
  "br_Release r =
     (if \<not> br_released r then
        (case br_releaser r of
           Some f \<Rightarrow> ([f], r\<lparr>br_releaser := None, br_released := True\<rparr>)
         | None \<Rightarrow> ([], r\<lparr>br_released := True\<rparr>))
      else ([], r))"

definition br_SetReleaser :: "string option \<Rightarrow> basic_releaser \<Rightarrow> go_panic + basic_releaser" where
  "br_SetReleaser f r =
     (if br_released r then Inl (Panic_msg ''ipfsdb: resource already relesed'')
      else if br_releaser r \<noteq> None \<and> f \<noteq> None then Inl (Panic_msg ''ipfsdb: releaser already defined'')
      else Inr (r\<lparr>br_releaser := f\<rparr>))"

datatype releaser_op = Op_release | Op_set "string option"

text \<open>A run; a panic ends it.  The result is the list of releasers called.\<close>

fun releaser_run :: "releaser_op list \<Rightarrow> basic_releaser \<Rightarrow> string list" where
  "releaser_run [] r = []"
| "releaser_run (Op_release # ops) r = (case br_Release r of (fs, r') \<Rightarrow> fs @ releaser_run ops r')"
| "releaser_run (Op_set f # ops) r = (case br_SetReleaser f r of Inl e \<Rightarrow> [] | Inr r' \<Rightarrow> releaser_run ops r')"

lemma released_silent: "br_released r \<Longrightarrow> releaser_run ops r = []"
  by (induction ops r rule: releaser_run.induct) (auto simp: br_Release_def br_SetReleaser_def)

lemma releaser_called_once: "length (releaser_run ops r) \<le> 1"
proof (induction ops r rule: releaser_run.induct)
  case (2 ops r)
  then show ?case by (auto simp: br_Release_def released_silent split: option.split)
qed (auto split: sum.split)

subsection \<open>Properties\<close>

text \<open>
  C24: The range that \<open>BytesPrefix\<close> returns contains exactly the keys with that prefix, in the order
  of byte strings, whatever bytes the prefix ends in.
\<close>

theorem bytes_prefix_range:
  "in_range k (BytesPrefix pre) = (take (length pre) k = pre)"
  using prefix_limit_cases [OF order_refl, of pre]
proof (elim disjE exE conjE, goal_cases)
  case 1
  then show ?case using not_less_all_ff [of k "length pre"] by (simp add: in_range_def BytesPrefix_def)
next
  case (2 q c m)
  then have pre: "pre = q @ c # replicate m 0xFF" by simp
  have len: "length pre = length q + Suc m" by (simp add: pre)
  show ?case
    using between_limit [OF 2(1), of k q m] 2(3) by (simp add: in_range_def BytesPrefix_def len pre [symmetric])
qed

text \<open>
  The checksum can be computed piecewise, and masking loses nothing.
\<close>

theorem crc_incremental:
  "crc_Update (NewCRC as) bs = NewCRC (as @ bs) \<and> (crc_Value a = crc_Value b) = (a = b)"
  using crc_rotate_inj [of a b] by (auto simp: NewCRC_def crc_Update_def crc_Value_def)

text \<open>\<open>Hash\<close> never reaches its panic, and gives the values of the repository's test.\<close>

lemma hash_total: "\<exists>h. Hash data seed = Inr h"
  using hash_tail_total [OF hash_words_rest] by (simp add: Hash_def split_beta)

lemma hash_test_vectors:
  "Hash [] 0xbc9f1d34 = Inr 0xbc9f1d34"
  "Hash [0x62] 0xbc9f1d34 = Inr 0xef1345c4"
  "Hash [0xc3, 0x97] 0xbc9f1d34 = Inr 0x5b663814"
  "Hash [0xe2, 0x99, 0xa5] 0xbc9f1d34 = Inr 0x323c078f"
  "Hash [0xe1, 0x80, 0xb9, 0x32] 0xbc9f1d34 = Inr 0xed21633a"
  by code_simp+

text \<open>Three entries of the published table of the polynomial.\<close>

lemma crc_table_values: "crc_entry 1 = 0xf26b8303" "crc_entry 0x80 = 0x82f63b78" "crc_entry 0xFF = 0xad7d5351"
  by code_simp+

end
