(* ===== verification/Ipfs_Db.thy ===== *)
theory Ipfs_Db
  imports Batch_Decode
begin

text \<open>
  The database over IPFS blocks (\<open>taudb/taudb.go\<close>) and the paths of blocks
  (\<open>taudb/utils/utils.go\<close>).  The block API, multihashes, content ids and paths are packages
  outside the repository: \<open>api_put\<close>, \<open>api_get\<close>, \<open>api_rm\<close> and \<open>api_stat\<close> stand for the calls of the
  API on a state of type \<open>'s\<close>, \<open>mh_encode\<close> for \<open>multihash.Encode\<close> with the Keccak code and
  \<open>mk_path\<close> for making a path from a codec and a multihash.
\<close>

subsection \<open>Paths\<close>

definition ByteToPath :: "(string \<Rightarrow> go_error + 'c) \<Rightarrow> ('c \<Rightarrow> 'p) \<Rightarrow> byte list \<Rightarrow> go_error + 'p" where
  "ByteToPath cid_decode ipfs_path b =
     (case cid_decode (map (\<lambda>x. char_of (unat x)) b) of Inl e \<Rightarrow> Inl e | Inr c \<Rightarrow> Inr (ipfs_path c))"

text \<open>The error result of the function is always nil; a failing encoding panics.\<close>

definition Keccak256ToPath ::
  "(byte list \<Rightarrow> go_error + byte list) \<Rightarrow> (u64 \<Rightarrow> byte list \<Rightarrow> 'p) \<Rightarrow> u64 \<Rightarrow> byte list \<Rightarrow> go_panic + 'p" where
  "Keccak256ToPath mh_encode mk_path codec h =
     (case mh_encode h of
        Inl e \<Rightarrow> Inl (Panic_msg (error_text (\<lambda>k. []) e))
      | Inr buf \<Rightarrow> Inr (mk_path codec buf))"

subsection \<open>The database\<close>

record put_settings =
  bs_Codec :: string
  bs_MhType :: nat
  bs_MhLength :: int
  bs_Pin :: bool

text \<open>\<open>keccak\<close> is the number of the hash in the multihash package.\<close>

definition put_opt :: "nat \<Rightarrow> put_settings" where
  "put_opt keccak = \<lparr>bs_Codec = ''0xa0'', bs_MhType = keccak, bs_MhLength = -1, bs_Pin = True\<rparr>"

text \<open>The key plays no part.\<close>

definition db_block_Put ::
  "nat \<Rightarrow> (put_settings \<Rightarrow> byte list \<Rightarrow> 's \<Rightarrow> go_error option \<times> 's) \<Rightarrow> byte list \<Rightarrow> byte list \<Rightarrow> 's \<Rightarrow> go_error option \<times> 's" where
  "db_block_Put keccak api_put key value s = api_put (put_opt keccak) value s"

text \<open>
  \<open>reader.Read(data)\<close> with the nil slice \<open>data\<close>: \<open>read\<close> gives the bytes for a buffer of the given
  length and an error; the bytes are copied into the slice, which has no room.
\<close>

definition db_block_Get ::
  "(byte list \<Rightarrow> go_error + byte list) \<Rightarrow> (u64 \<Rightarrow> byte list \<Rightarrow> 'p) \<Rightarrow> ('p \<Rightarrow> 's \<Rightarrow> go_error + 'r) \<Rightarrow>
   ('r \<Rightarrow> nat \<Rightarrow> byte list \<times> go_error option) \<Rightarrow> byte list \<Rightarrow> 's \<Rightarrow> go_panic + (byte list \<times> go_error option)" where
  "db_block_Get mh_encode mk_path api_get read key s =
     bind_go (Keccak256ToPath mh_encode mk_path 0xa0 key) (\<lambda>path.
       case api_get path s of
         Inl e \<Rightarrow> Inr ([], Some e)
       | Inr reader \<Rightarrow> (case read reader 0 of (bs, errRead) \<Rightarrow> Inr (overwrite [] 0 bs, errRead)))"

definition db_block_Delete ::
  "(byte list \<Rightarrow> go_error + byte list) \<Rightarrow> (u64 \<Rightarrow> byte list \<Rightarrow> 'p) \<Rightarrow> ('p \<Rightarrow> 's \<Rightarrow> go_error option \<times> 's) \<Rightarrow>
   byte list \<Rightarrow> 's \<Rightarrow> (go_panic + go_error option) \<times> 's" where
  "db_block_Delete mh_encode mk_path api_rm key s =
     (case Keccak256ToPath mh_encode mk_path 0xa0 key of
        Inl p \<Rightarrow> (Inl p, s)
      | Inr path \<Rightarrow> (case api_rm path s of (e, s') \<Rightarrow> (Inr e, s')))"

text \<open>\<open>Stat\<close> gives the size of the block, or nil; its method \<open>Size\<close> is called before the error is looked at.\<close>

definition db_block_Has ::
  "(byte list \<Rightarrow> go_error + byte list) \<Rightarrow> (u64 \<Rightarrow> byte list \<Rightarrow> 'p) \<Rightarrow> ('p \<Rightarrow> 's \<Rightarrow> int option \<times> go_error option) \<Rightarrow>
   byte list \<Rightarrow> 's \<Rightarrow> go_panic + (bool \<times> go_error option)" where
  "db_block_Has mh_encode mk_path api_stat key s =
     bind_go (Keccak256ToPath mh_encode mk_path 0xa0 key) (\<lambda>path.
       case api_stat path s of
         (None, err) \<Rightarrow> Inl Nil_dereference
       | (Some n, err) \<Rightarrow> Inr (n > 0, err))"

text \<open>The loop of \<open>Write\<close>: \<open>n\<close> rounds left, at index \<open>i\<close>.\<close>

fun write_loop ::
  "(byte list \<Rightarrow> byte list \<Rightarrow> 's \<Rightarrow> go_error option \<times> 's) \<Rightarrow> batch \<Rightarrow> nat \<Rightarrow> nat \<Rightarrow> 's \<Rightarrow> (go_panic + go_error option) \<times> 's" where
  "write_loop put b 0 i s = (Inr None, s)"
| "write_loop put b (Suc n) i s =
     (if i < length (b_index b)
      then
        let ix = b_index b ! i in
        case sub_bytes (s_arr (b_data b)) (bi_keyPos ix) (wrap64 (bi_keyPos ix + bi_keyLen ix)) of
          Inl p \<Rightarrow> (Inl p, s)
        | Inr k \<Rightarrow>
            (case sub_bytes (s_arr (b_data b)) (bi_valuePos ix) (wrap64 (bi_valuePos ix + bi_valueLen ix)) of
               Inl p \<Rightarrow> (Inl p, s)
             | Inr v \<Rightarrow>
                 (case put k v s of
                    (Some e, s') \<Rightarrow> (Inr (Some e), s')
                  | (None, s') \<Rightarrow> write_loop put b n (Suc i) s'))
      else (Inl Index_out_of_range, s))"

definition db_block_Write ::
  "nat \<Rightarrow> (put_settings \<Rightarrow> byte list \<Rightarrow> 's \<Rightarrow> go_error option \<times> 's) \<Rightarrow> batch option \<Rightarrow> 's \<Rightarrow> (go_panic + go_error option) \<times> 's" where
  "db_block_Write keccak api_put batch s =
     (case batch of
        None \<Rightarrow> (Inr None, s)
      | Some b \<Rightarrow>
          if batch_Len b = 0 then (Inr None, s)
          else write_loop (db_block_Put keccak api_put) b (nat (b_internalLen b)) 0 s)"

lemma write_loop_never_done:
  "i \<le> length (b_index b) \<Longrightarrow> length (b_index b) < i + n \<Longrightarrow> fst (write_loop put b n i s) \<noteq> Inr None"
proof (induction n arbitrary: i s)
  case (Suc n)
  then show ?case by (auto simp: Let_def split: sum.split prod.split option.split)
qed simp

lemma get_no_data:
  assumes "db_block_Get mh_encode mk_path api_get read key s = Inr (data, err)"
  shows "data = []"
proof -
  obtain path where "(case api_get path s of Inl e \<Rightarrow> Inr ([], Some e)
      | Inr reader \<Rightarrow> (case read reader 0 of (bs, errRead) \<Rightarrow> Inr (overwrite [] 0 bs, errRead))) =
      (Inr (data, err) :: go_panic + (byte list \<times> go_error option))"
    using assms unfolding db_block_Get_def bind_go_Inr_iff by blast
  then show ?thesis by (cases "api_get path s") (auto simp: overwrite_def split: prod.splits)
qed

lemma internal_len_large:
  assumes "batch_repr b as" and "as \<noteq> []"
  shows "length (b_index b) < nat (b_internalLen b)"
proof -
  have "length (b_index b) = length as" using batch_Len_repr [OF assms(1)] by (simp add: batch_Len_def)
  moreover have "8 * int (length as) \<le> sum_list (map op_size as)"
    using op_size_pos by (induction as) (auto simp: add_mono)
  moreover have "b_internalLen b = sum_list (map op_size as)" using assms(1) by (simp add: batch_repr_def)
  ultimately show ?thesis using assms(2) by (cases as) auto
qed

subsection \<open>Properties\<close>

text \<open>
  C31: \<open>Write\<close> never succeeds on a non-empty batch that \<open>Put\<close> and \<open>Delete\<close> have built, whatever the block
  API answers: it runs to the internal length of the batch, eight at least for each operation, and
  so past the end of the index.  On any batch at all it succeeds only if there are no records or the
  internal length is at most their number.  And \<open>Get\<close> never returns any data, as it reads into a slice
  without room.
\<close>

theorem ipfsdb_write_never_succeeds:
  assumes "append_ops as (MakeBatch n) = Inr b" and "list_all op_short as" and "length (enc_ops as) < 2 ^ 60" and "as \<noteq> []"
  shows "fst (db_block_Write keccak api_put (Some b) s) \<noteq> Inr None \<and>
    (\<forall>b'. fst (db_block_Write keccak api_put (Some b') s) = Inr None \<longrightarrow>
       batch_Len b' = 0 \<or> b_internalLen b' \<le> int (batch_Len b')) \<and>
    (\<forall>data err. db_block_Get mh_encode mk_path api_get read key s = Inr (data, err) \<longrightarrow> data = [])"
proof -
  have repr: "batch_repr b as" using append_ops_correct [OF MakeBatch_repr [of n], of as] assms by auto
  have only: "batch_Len b' = 0 \<or> b_internalLen b' \<le> int (batch_Len b')"
    if ok: "fst (db_block_Write keccak api_put (Some b') s) = Inr None" for b'
  proof (rule ccontr)
    assume "\<not> ?thesis"
    then have "batch_Len b' \<noteq> 0" "length (b_index b') < nat (b_internalLen b')" by (auto simp: batch_Len_def)
    with ok write_loop_never_done
      [where i = 0 and b = b' and n = "nat (b_internalLen b')" and put = "db_block_Put keccak api_put" and s = s] show False by (simp add: db_block_Write_def)
  qed
  have "batch_Len b \<noteq> 0" using batch_Len_repr [OF repr] assms(4) by simp
  moreover have "int (batch_Len b) < b_internalLen b"
    using internal_len_large [OF repr assms(4)] by (simp add: batch_Len_def zless_nat_conj [symmetric] zless_nat_eq_int_zless)
  ultimately have "fst (db_block_Write keccak api_put (Some b) s) \<noteq> Inr None" using only [of b] by auto
  moreover have "data = []" if "db_block_Get mh_encode mk_path api_get read key s = Inr (data, err)" for data err
    by (rule get_no_data [OF that])
  ultimately show ?thesis using only by blast
qed

lemma ipfsdb_write_never_succeeds_witness:
  "\<exists>b. append_ops [Put [1] [2]] (MakeBatch 0) = Inr b \<and>
    fst (db_block_Write 27 (\<lambda>opt v s. (None, v # s)) (Some b) []) \<noteq> Inr None"
proof -
  obtain b where b: "append_ops [Put [1] [2]] (MakeBatch 0) = Inr b"
    using append_ops_correct [OF MakeBatch_repr, of "[Put [1] [2]]"]
    by (auto simp: op_short_def len_bytes_def put_uvarint_short)
  have "fst (db_block_Write 27 (\<lambda>opt v s. (None, v # s)) (Some b) []) \<noteq> Inr None"
    by (rule ipfsdb_write_never_succeeds [OF b, THEN conjunct1])
      (simp_all add: op_short_def len_bytes_def put_uvarint_short)
  with b show ?thesis by blast
qed

text \<open>
  A batch whose internal length is not more than its number of records: a \<open>Load\<close> that fails can leave
  one.  The key of its first record has the length \<open>2 ^ 64 - 8\<close>, which is \<open>-8\<close> as an \<open>int\<close> and makes up
  for the eight bytes each record counts for.  \<open>Write\<close> accepts the batch and writes nothing.
\<close>

definition cancelling_input :: "byte list" where
  "cancelling_input = [0, 0xF8, 0xFF, 0xFF, 0xFF, 0xFF, 0xFF, 0xFF, 0xFF, 0xFF, 0x01]"

lemma cancelling_varint: "uvarint (drop 1 cancelling_input) = (- 8, 10)"
  by (simp add: cancelling_input_def uvarint_def)

theorem ipfsdb_write_ignores_broken_batch:
  "\<exists>b' e. batch_Load (Suc (Suc fuel)) (slice_of cancelling_input) b = Some (Inr (b', Some e)) \<and>
     batch_Len b' = 1 \<and> b_internalLen b' = 0 \<and> db_block_Write keccak api_put (Some b') s = (Inr None, s)"
proof -
  let ?b0 = "b\<lparr>b_data := slice_of cancelling_input, b_index := [], b_internalLen := 0\<rparr>"
  let ?ix = "\<lparr>bi_keyType = keyTypeDel, bi_keyPos = 11, bi_keyLen = - 8, bi_valuePos = 0, bi_valueLen = 0\<rparr>"
  let ?b1 = "?b0\<lparr>b_index := [?ix], b_internalLen := 0\<rparr>"
  have num: "int_of_u64 (- 8) = - 8" and len: "length cancelling_input = 11"
    by (simp_all add: int_of_u64_def cancelling_input_def)
  have "decode_loop (Suc (Suc fuel)) cancelling_input record_index 0 0 zero_index ?b0 =
      decode_loop (Suc fuel) cancelling_input record_index 1 3 ?ix ?b1"
    using cancelling_varint num len
    by (subst decode_step_Del [where x = "- 8" and n = 10 and kp = 11 and kl = "- 8" and ke = 3])
      (simp_all add: wrap64_def Let_def key_type_defs cancelling_input_def record_index_def zero_index_def)
  also have "\<exists>e. decode_loop (Suc fuel) cancelling_input record_index 1 3 ?ix ?b1 = Some (Inr (?b1, Some e))"
    by (simp add: decode_loop.simps(2) len Let_def) (simp add: cancelling_input_def key_type_defs)
  finally obtain e where "decode_loop (Suc (Suc fuel)) cancelling_input record_index 0 0 zero_index ?b0 = Some (Inr (?b1, Some e))"
    by blast
  then have "batch_Load (Suc (Suc fuel)) (slice_of cancelling_input) b = Some (Inr (?b1, Some e))"
    by (simp add: batch_Load_def batch_decode_def decodeBatch_def slice_simps)
  then show ?thesis
    by (intro exI [of _ ?b1] exI [of _ e]) (simp add: batch_Len_def db_block_Write_def)
qed

end
