(* ===== verification/Ipfs_Api.thy ===== *)
theory Ipfs_Api
  imports Go_Prelude Db_Errors "HOL-Library.Sublist"
begin

text \<open>
  The client of the IPFS daemon (\<open>ipfs/api\<close>) and publishing through it (\<open>p2p/pubsub.go\<close>).  The
  HTTP client and multiaddresses are packages outside the repository: \<open>new_multiaddr\<close>, \<open>new_api\<close> and
  \<open>new_path_api\<close> stand for their constructors, \<open>publish\<close> and \<open>subscribe\<close> for the calls on a client
  of type \<open>'h\<close> and a state of type \<open>'s\<close>.
\<close>

subsection \<open>Trimming\<close>

text \<open>The white space of \<open>strings.TrimSpace\<close>, encoded as UTF-8.\<close>

definition utf8_spaces :: "string list" where
  "utf8_spaces =
    [[CHR 0x09], [CHR 0x0A], [CHR 0x0B], [CHR 0x0C], [CHR 0x0D], [CHR 0x20], [CHR 0xC2, CHR 0x85],
     [CHR 0xC2, CHR 0xA0], [CHR 0xE1, CHR 0x9A, CHR 0x80], [CHR 0xE2, CHR 0x80, CHR 0x80],
     [CHR 0xE2, CHR 0x80, CHR 0x81], [CHR 0xE2, CHR 0x80, CHR 0x82], [CHR 0xE2, CHR 0x80, CHR 0x83],
     [CHR 0xE2, CHR 0x80, CHR 0x84], [CHR 0xE2, CHR 0x80, CHR 0x85], [CHR 0xE2, CHR 0x80, CHR 0x86],
     [CHR 0xE2, CHR 0x80, CHR 0x87], [CHR 0xE2, CHR 0x80, CHR 0x88], [CHR 0xE2, CHR 0x80, CHR 0x89],
     [CHR 0xE2, CHR 0x80, CHR 0x8A], [CHR 0xE2, CHR 0x80, CHR 0xA8], [CHR 0xE2, CHR 0x80, CHR 0xA9],
     [CHR 0xE2, CHR 0x80, CHR 0xAF], [CHR 0xE2, CHR 0x81, CHR 0x9F], [CHR 0xE3, CHR 0x80, CHR 0x80]]"

text \<open>A prefix that is one of the words is dropped as long as there is one.\<close>

function trim_left :: "string list \<Rightarrow> string \<Rightarrow> string" where
  "trim_left ws s =
     (case find (\<lambda>w. w \<noteq> [] \<and> prefix w s) ws of
        None \<Rightarrow> s
      | Some w \<Rightarrow> trim_left ws (drop (length w) s))"
  by auto
termination
  by (relation "measure (\<lambda>(ws, s). length s)") (auto simp: find_Some_iff prefix_def)

declare trim_left.simps [simp del]

definition TrimSpace :: "string \<Rightarrow> string" where
  "TrimSpace s = rev (trim_left (map rev utf8_spaces) (rev (trim_left utf8_spaces s)))"

lemma trim_left_stop: "\<forall>w\<in>set ws. w = [] \<or> \<not> prefix w s \<Longrightarrow> trim_left ws s = s"
proof -
  assume "\<forall>w\<in>set ws. w = [] \<or> \<not> prefix w s"
  then have "find (\<lambda>w. w \<noteq> [] \<and> prefix w s) ws = None" by (auto simp: find_None_iff)
  then show ?thesis by (subst trim_left.simps) simp
qed

lemma trim_left_step:
  "find (\<lambda>w. w \<noteq> [] \<and> prefix w s) ws = Some v \<Longrightarrow> trim_left ws s = trim_left ws (drop (length v) s)"
  by (subst trim_left.simps) simp

lemma trim_left_spec: "suffix (trim_left ws s) s \<and> (\<forall>w\<in>set ws. w = [] \<or> \<not> prefix w (trim_left ws s))"
proof (induction ws s rule: trim_left.induct)
  case (1 ws s)
  show ?case
  proof (cases "find (\<lambda>w. w \<noteq> [] \<and> prefix w s) ws")
    case None
    then have "\<forall>w\<in>set ws. w = [] \<or> \<not> prefix w s" by (auto simp: find_None_iff)
    then show ?thesis by (simp add: trim_left_stop)
  next
    case (Some v)
    from 1 [OF Some] suffix_order.trans [OF _ suffix_drop] show ?thesis
      unfolding trim_left_step [OF Some] by blast
  qed
qed

lemma TrimSpace_sublist: "sublist (TrimSpace s) s"
proof -
  have "prefix (TrimSpace s) (trim_left utf8_spaces s)"
    using trim_left_spec [of "map rev utf8_spaces" "rev (trim_left utf8_spaces s)"] by (simp add: TrimSpace_def suffix_to_prefix)
  then show ?thesis
    using trim_left_spec [of utf8_spaces s] by (metis prefix_imp_sublist suffix_imp_sublist sublist_order.order.trans)
qed

subsection \<open>The client\<close>

record ipfs_config =
  Cfg_Url :: string
  Cfg_Ipfspath :: string

definition Default_Url :: string where
  "Default_Url = ''/ip4/127.0.0.1/tcp/5001''"

definition DefaultConfig :: ipfs_config where
  "DefaultConfig = \<lparr>Cfg_Url = Default_Url, Cfg_Ipfspath = ''''\<rparr>"

text \<open>\<open>api_http\<close> is \<open>None\<close> for a nil client.\<close>

record 'h ipfs_api =
  api_url :: string
  api_ipfspath :: string
  api_http :: "'h option"

definition url_client ::
  "(string \<Rightarrow> go_error + 'a) \<Rightarrow> ('a \<Rightarrow> go_error + 'h) \<Rightarrow> string \<Rightarrow> go_error + 'h option" where
  "url_client new_multiaddr new_api url =
     (if url \<noteq> ''''
      then (case new_multiaddr (TrimSpace url) of
              Inl e \<Rightarrow> Inl e
            | Inr addr \<Rightarrow> (case new_api addr of Inl e \<Rightarrow> Inl e | Inr h \<Rightarrow> Inr (Some h)))
      else Inr None)"

definition newAPI ::
  "(string \<Rightarrow> go_error + 'a) \<Rightarrow> ('a \<Rightarrow> go_error + 'h) \<Rightarrow> (string \<Rightarrow> go_error + 'h) \<Rightarrow>
   ipfs_config option \<Rightarrow> go_error + 'h ipfs_api" where
  "newAPI new_multiaddr new_api new_path_api cfg0 =
     (let cfg = (case cfg0 of None \<Rightarrow> DefaultConfig | Some c \<Rightarrow> c) in
      case url_client new_multiaddr new_api (Cfg_Url cfg) of
        Inl e \<Rightarrow> Inl e
      | Inr httpapi \<Rightarrow>
          (case (if Cfg_Ipfspath cfg \<noteq> ''''
                 then (case new_path_api (Cfg_Ipfspath cfg) of Inl e \<Rightarrow> Inl e | Inr h \<Rightarrow> Inr (Some h))
                 else Inr httpapi) of
             Inl e \<Rightarrow> Inl e
           | Inr httpapi' \<Rightarrow>
               Inr \<lparr>api_url = Cfg_Url cfg, api_ipfspath = Cfg_Ipfspath cfg, api_http = httpapi'\<rparr>))"

text \<open>
  \<open>init\<close> logs a failure at the critical level and goes on, with a nil \<open>singleton\<close>, if the
  logger's \<open>Crit\<close> returns; \<open>API\<close> then dereferences it.
\<close>

definition api_init :: "go_error + 'h ipfs_api \<Rightarrow> 'h ipfs_api option" where
  "api_init r = (case r of Inl e \<Rightarrow> None | Inr a \<Rightarrow> Some a)"

definition API :: "'h ipfs_api option \<Rightarrow> go_panic + 'h option" where
  "API singleton = (case singleton of None \<Rightarrow> Inl Nil_dereference | Some a \<Rightarrow> Inr (api_http a))"

subsection \<open>Publish and subscribe\<close>

definition ps_Pub ::
  "('h option \<Rightarrow> string \<Rightarrow> 'b \<Rightarrow> 's \<Rightarrow> 'r) \<Rightarrow> 'h ipfs_api option \<Rightarrow> string \<Rightarrow> 'b \<Rightarrow> 's \<Rightarrow> go_panic + 'r" where
  "ps_Pub publish singleton topic payload s = bind_go (API singleton) (\<lambda>h. Inr (publish h topic payload s))"

text \<open>\<open>Sub\<close> asks the daemon to discover other subscribers.\<close>

definition ps_Sub ::
  "('h option \<Rightarrow> string \<Rightarrow> bool \<Rightarrow> 's \<Rightarrow> 'r) \<Rightarrow> 'h ipfs_api option \<Rightarrow> string \<Rightarrow> 's \<Rightarrow> go_panic + 'r" where
  "ps_Sub subscribe singleton topic s = bind_go (API singleton) (\<lambda>h. Inr (subscribe h topic True s))"

subsection \<open>Properties\<close>

text \<open>
  A client that \<open>newAPI\<close> returns is the one of the path if there is a path and otherwise the one
  of the trimmed URL, and is nil exactly if the configuration has neither; an invalid URL is an error even
  if there is a path.  \<open>API\<close> and \<open>Pub\<close> panic exactly if the construction at program start has failed.
\<close>

lemma ipfs_client_choice:
  "(case newAPI new_multiaddr new_api new_path_api (Some cfg) of
      Inr a \<Rightarrow>
        (case api_http a of
           None \<Rightarrow> Cfg_Url cfg = '''' \<and> Cfg_Ipfspath cfg = ''''
         | Some h \<Rightarrow>
             if Cfg_Ipfspath cfg \<noteq> '''' then new_path_api (Cfg_Ipfspath cfg) = Inr h
             else (\<exists>addr. new_multiaddr (TrimSpace (Cfg_Url cfg)) = Inr addr \<and> new_api addr = Inr h))
    | Inl e \<Rightarrow> new_multiaddr (TrimSpace (Cfg_Url cfg)) = Inl e \<or>
        (\<exists>addr. new_multiaddr (TrimSpace (Cfg_Url cfg)) = Inr addr \<and> new_api addr = Inl e) \<or>
        new_path_api (Cfg_Ipfspath cfg) = Inl e) \<and>
   (ps_Pub publish (api_init (newAPI new_multiaddr new_api new_path_api cfg0)) topic payload s = Inl Nil_dereference \<longleftrightarrow>
      (\<exists>e. newAPI new_multiaddr new_api new_path_api cfg0 = Inl e))"
  by (auto simp: newAPI_def url_client_def Let_def api_init_def API_def ps_Pub_def split: sum.split if_splits)

text \<open>Trimming removes the surrounding white space only; the default URL has none.\<close>

lemma utf8_spaces_nonempty: "[] \<notin> set utf8_spaces"
  by (simp add: utf8_spaces_def)

lemma TrimSpace_trimmed: "w \<in> set utf8_spaces \<Longrightarrow> \<not> suffix w (TrimSpace s)"
  using trim_left_spec [of "map rev utf8_spaces" "rev (trim_left utf8_spaces s)"] utf8_spaces_nonempty
  by (auto simp: TrimSpace_def suffix_to_prefix)

lemma TrimSpace_id:
  "\<forall>w\<in>set utf8_spaces. \<not> prefix w s \<and> \<not> suffix w s \<Longrightarrow> TrimSpace s = s"
  by (simp add: TrimSpace_def trim_left_stop suffix_to_prefix)

lemma TrimSpace_default: "TrimSpace Default_Url = Default_Url"
proof (rule TrimSpace_id)
  show "\<forall>w\<in>set utf8_spaces. \<not> prefix w Default_Url \<and> \<not> suffix w Default_Url"
    by (simp add: utf8_spaces_def Default_Url_def suffix_to_prefix)
qed

end
