(* ===== verification/Spec2Isabelle.thy ===== *)
theory Spec2Isabelle
  imports Batch_Decode Byte_Buffer Forum_Peer Tau_Main Server_Stale Server_Discovery Peer_Writes Mem_Alias File_View Pool_Threads Byte_Utils File_Log Ipfs_Db Ipfs_Api
begin

text \<open>
  A model of \<open>taucoin-go-p2p\<close>: a peer-to-peer layer over the publish/subscribe service of an
  IPFS daemon, two sub-protocols on top of it, and the storage part of a database.  File names
  are relative to \<open>src/\<close>.

  \<^bold>\<open>The program and its theories.\<close>

  \<^item> \<open>p2p/discover\<close> polls the daemon for its connections, filters them (\<open>filter.go\<close>), compares them with
    the node database (\<open>p2p/tnode\<close>) and sends the nodes that came and went to the server.
    \<open>Node_Db\<close> has the nodes, the database, the filter and one round of the loop (\<open>discover_tick\<close>);
    \<open>Discover_Run\<close> the goroutine (\<open>disc_step\<close>): \<open>sync.Once\<close>, the nodes sent one at a time, the callers of
    \<open>Stop\<close>.
  \<^item> \<open>p2p/server.go\<close> keeps the map of peers.  \<open>Server\<close> has its state as a record, each case of the
    loop's \<open>select\<close> as a function (\<open>on_conn\<close>, \<open>on_disc\<close>, \<open>on_checkpoint\<close>, \<open>on_delpeer\<close>, \<open>on_quit\<close>), and
    the relation \<open>srv_step\<close>, which interleaves them with discovery, the goroutines of the peers and
    the callers of \<open>Start\<close> and \<open>Stop\<close>.  Of a peer it keeps one of three phases, which abstract the
    goroutines of \<open>Peer_Run\<close>, and of discovery four flags and two fields, which \<open>Server_Discovery\<close>
    shows to be the goroutine of \<open>Discover_Run\<close>.
  \<^item> \<open>p2p/peer.go\<close>, \<open>protocol.go\<close>, \<open>message.go\<close>, \<open>peer_error.go\<close>: a peer matches the configured protocols,
    subscribes to their topics and runs a handler for each.  \<open>Protocol_Peer\<close> has topics, matching,
    delivery (\<open>peer_handle\<close>) and \<open>ReadMsg\<close>.  \<open>Peer_Run\<close> has the goroutines of a peer: the relation
    \<open>peer_step\<close> between states of the main loop, the writers, the read loops and the handlers, in
    which every channel operation is one step, with the shutdown (closing the subscriptions,
    the wait group).  \<open>Peer_Writes\<close> counts what a run publishes.  \<open>Peer_Error\<close> has the error values and the reasons for a disconnect.
  \<^item> \<open>p2p/pubsub.go\<close> and \<open>ipfs/api\<close>: the client of the daemon, its construction and the calls that publish and
    subscribe (\<open>Ipfs_Api\<close>).
  \<^item> \<open>tau\<close> and \<open>forum\<close> are the sub-protocols.  \<open>Tau_Peers\<close> has the set of peers and the relation \<open>pm_step\<close>
    of the handlers; \<open>Forum\<close> has the forum's handler and greeting loop as functions, \<open>Forum_Run\<close> the two
    goroutines they run in.  Both run on the peers of \<open>Protocol_Peer\<close>.  \<open>Tau_Command\<close> is the
    server of the command \<open>cmds/tau.go\<close> with what its peers run, \<open>Tau_Main\<close> the process of the command with its signals, \<open>Forum_Peer\<close> the forum's goroutines calling
    into the channels of \<open>Peer_Run\<close>.
  \<^item> \<open>taudb/key.go\<close> and \<open>taudb/batch.go\<close>: internal keys (\<open>Internal_Key\<close>) and write batches (\<open>Batch\<close> the
    code, \<open>Batch_Correct\<close> building, appending and replaying, \<open>Batch_Decode\<close> loading).
    \<open>taudb/taudb.go\<close>, the database over blocks of the daemon, is \<open>Ipfs_Db\<close>; it writes batches.
  \<^item> \<open>taudb/storage\<close>: file descriptors and file names (\<open>File_Desc\<close>), the memory storage (\<open>Mem_Storage\<close>) and
    the arrays its files share with their readers (\<open>Mem_Alias\<close>), the
    file storage (\<open>File_Storage\<close>), its recovery of the current manifest (\<open>File_Meta\<close>), its log and its
    lock (\<open>File_Log\<close>).  \<open>File_Store\<close> states the contract both storages meet as a locale;
    \<open>Mem_Storage\<close> and \<open>File_View\<close> interpret it.  \<open>taudb/errors\<close> is \<open>Db_Errors\<close>.
  \<^item> The files \<open>file_storage_unix.go\<close>, \<open>_windows\<close>, \<open>_solaris\<close>, \<open>_plan9\<close> and \<open>_nacl\<close> provide a lock,
    \<open>rename\<close> and \<open>syncDir\<close>.  The operations of the file storage that use the last two take a record \<open>platform\<close>.
    \<open>File_Calls\<close> has the laws of the system calls and the locale \<open>platform_contract\<close>, in which recovery is
    proved; \<open>Lock_Contract\<close> has the locale of the lock.  \<open>Platforms\<close> defines the other platforms and
    interprets both, Plan 9 with a rename that is not atomic; NaCl supports nothing, Solaris and Plan 9
    do not meet the contract of the lock.
  \<^item> \<open>taudb/utils\<close>: the byte buffer (\<open>Byte_Buffer\<close>), the pool of buffers (\<open>Buffer_Pool\<close>, its goroutines step by step in
    \<open>Pool_Threads\<close>), key ranges, hash, checksum and releaser (\<open>Byte_Utils\<close>).
  \<^item> What Go provides: \<open>Go_Prelude\<close> (machine integers, panics, slices with their backing array),
    \<open>Go_Encoding\<close> (little-endian words, varints), \<open>Go_Fmt\<close> (printing and scanning), \<open>Go_Collections\<close>
    (maps, string functions).

  \<^bold>\<open>How code corresponds to definitions.\<close>  A struct is a record; a function on it takes and returns the
  record.  A panic is \<open>Inl\<close> of a \<open>go_panic\<close>; an error result is a value of \<open>go_error\<close> (database) or
  \<open>p2p_error\<close> (network), with \<open>None\<close> for \<open>nil\<close>.  \<open>int\<close> is \<open>int\<close> with \<open>wrap64\<close> wherever the code can
  leave the range; unsigned integers are words.  A slice is its backing array and a length,
  so that appending in place and reslicing into spare capacity are what they are in Go.  A
  map is an association list with distinct keys, whose order stands for the order in which \<open>range\<close>
  visits it.  Shared files of the memory storage live in a heap; buffers of the pool are
  addresses.  A mutex held for a whole operation makes the operation one step.

  \<^bold>\<open>What the lemmas show.\<close>

  \<^item> Recovery of the current manifest is stated over every schedule of faults of the system calls that
    \<open>SetMeta\<close> makes, with torn writes, on every platform that can rename; a crash is a schedule that
    fails from some call on.
  \<^item> Contracts: both storages and the byte buffer refine a map and a queue; the two storages give
    the same answers to every program of whole-file commands (below).  A reader of the memory storage
    keeps the bytes it was opened on as long as handles are closed once.
  \<^item> Codecs: keys, batches, file names and packed descriptors round trip; parsers accept exactly
    what printers produce; the batch decoder is safe on any input whose varints are below \<open>2 ^ 62\<close>,
    and does not stop on an input with a larger one.
  \<^item> Concurrency: invariants of the server, the peer, the peer set, the file lock and the buffer
    pool by rule induction over all reachable states; the goroutines in the pool never wait once they have the
    lock, never meet a closed channel, and one that runs alone does what the atomic operation does; the peer's sends of results and write tokens never block; once the
    loop of \<open>run\<close> is left, \<open>run\<close> can return from every state, but waits as long as a read loop does that
    has subscribed late; runs of a peer are runs of the server on its phase; following the notifications of discovery always gives the nodes of
    its database, and the peers of the server are nodes it has sent; a closed peer publishes one more message at
    most; the peers of the command publish greetings only; the server can end
    from all states but two kinds, both of which it reaches (\<open>Server_Stop\<close>), and the process of the command likewise; a node that
    disconnects while it waits in the checkpoint channel becomes a peer that nobody disconnects (\<open>Server_Stale\<close>).
  \<^item> Defects of the code are theorems on the model where they can be stated: a batch on which \<open>Load\<close>
    never returns, the states of the server with no way out, in which the command can be killed only, the shadowed error of \<open>WriteMsg\<close>,
    the race for the limit of tau peers and their colliding ids, the protocols without topics, the
    forum that never answers, the \<open>Write\<close> of the block database that runs past its index, the log
    overwritten after a failed renaming, the handles that close twice and then change what a reader finds, the lock that stays
    when \<open>OpenFile\<close> fails and then cannot unlock, the \<open>Write\<close> of a batch that a failing \<open>Load\<close> has left, the panic of \<open>Get\<close> on the pool
    from \<open>2 ^ 32\<close> on, the colliding keys of the memory storage, the test for private
    addresses that never succeeds, the reason whose printing panics, the read loop that subscribes
    after the subscriptions have been closed, the third call of discovery's \<open>Stop\<close>, which never returns, and
    the first, which can return before the loop has begun, the locks of Solaris, which belong to a process, and of
    Plan 9, which depend on who created the file.

  \<^bold>\<open>Bounds and fuel.\<close>  \<open>Load\<close> (\<open>decode_loop\<close>) and \<open>ReadFrom\<close> may run for ever, so they take fuel, and
  running out is \<open>None\<close>.  A turn of the decoder consumes at least one byte when the varints are
  below \<open>2 ^ 62\<close>, so one unit for each byte and one more suffice; a loaded batch of known records
  needs one for each record and one more; \<open>ReadFrom\<close> on another buffer needs one for each unread
  byte and one more.  Every other loop is a total function.  Batches are built below \<open>2 ^ 60\<close> bytes
  (\<open>op_short\<close> bounds each key and value), where no position wraps around; numbers of descriptors
  below \<open>2 ^ 60\<close> survive packing; \<open>Get\<close> on the pool is stated below \<open>2 ^ 32\<close>, where its comparison
  with a 32-bit estimate is exact.

  \<^bold>\<open>Not modelled.\<close>  The client library of the daemon: what publishing, subscribing and the block calls
  answer is an input of the model, as are multihashes and block paths.  Logging
  outside the file storage, metrics.  The file storage records the
  lines it logs; the file \<open>LOG\<close> itself is in \<open>File_Log\<close>, with the bytes each call writes, and
  the quoted contents in the message about a corrupted \<open>CURRENT\<close> are left out.
  Data races (the unlocked \<open>subChans\<close> of a peer, the counters of a pool when it is printed) and the
  memory model are out of scope: operations are atomic at the granularity each theory states.
\<close>

subsection \<open>The two storages agree\<close>

text \<open>A command with other contents, and its answer.\<close>

definition answer_map :: "('a \<Rightarrow> 'b) \<Rightarrow> 'a answer \<Rightarrow> 'b answer" where
  "answer_map f = map_sum id (map_option f)"

definition view_map :: "('a \<Rightarrow> 'b) \<Rightarrow> (file_desc \<Rightarrow> 'a option) \<Rightarrow> file_desc \<Rightarrow> 'b option" where
  "view_map f m = (\<lambda>fd. map_option f (m fd))"

lemma spec_step_natural:
  "spec_step (map_store_cmd f c) (view_map f m) = (answer_map f (fst (spec_step c m)), view_map f (snd (spec_step c m)))"
  by (cases c) (auto simp: view_map_def answer_map_def fun_eq_iff split: option.split)

lemma spec_run_natural:
  "fst (spec_run (map (map_store_cmd f) cs) (view_map f m)) = map (answer_map f) (fst (spec_run cs m))"
  by (induction cs arbitrary: m) (simp_all add: spec_step_natural split_beta Let_def)

lemma cmd_fds_map: "cmd_fds (map_store_cmd f c) = cmd_fds c"
  by (cases c) auto

text \<open>
  C13: The file storage and the memory storage give the same answers to every program that stores,
  loads, removes and renames whole files, from states with the same contents, while no
  system call fails and descriptors are numbered below \<open>2 ^ 60\<close>.
\<close>

theorem storages_agree:
  assumes "fs_ready s" and "mem_idle t" and "mem_view t = view_map text_bytes (fs_view s)"
    and "\<forall>c\<in>set cs. \<forall>fd\<in>cmd_fds c. fd_good fd \<and> fd_num fd < 2 ^ 60"
  shows "fst (store_run (store_step mem_store mem_load mem_Remove mem_Rename) (map (map_store_cmd text_bytes) cs) t) =
    map (answer_map text_bytes) (fst (store_run (store_step fs_store fs_load fs_Remove (fs_Rename unix)) cs s))"
proof -
  have "\<forall>c\<in>set (map (map_store_cmd text_bytes) cs). \<forall>fd\<in>cmd_fds c. mem_valid fd"
    using assms(4) by (auto simp: cmd_fds_map mem_valid_def fd_good_def)
  from mem_files.run_refines [OF assms(2) this] have "fst (store_run (store_step mem_store mem_load mem_Remove mem_Rename) (map (map_store_cmd text_bytes) cs) t) =
      fst (spec_run (map (map_store_cmd text_bytes) cs) (mem_view t))"
    by (elim exE conjE) simp
  also have "\<dots> = map (answer_map text_bytes) (fst (spec_run cs (fs_view s)))"
    by (simp add: assms(3) spec_run_natural)
  also have "fst (spec_run cs (fs_view s)) = fst (store_run (store_step fs_store fs_load fs_Remove (fs_Rename unix)) cs s)"
  proof -
    have "\<forall>c\<in>set cs. \<forall>fd\<in>cmd_fds c. fd_good fd" using assms(4) by blast
    from fs_whole.run_refines [OF assms(1) this] show ?thesis by (elim exE conjE) simp
  qed
  finally show ?thesis .
qed

lemma storages_agree_witness:
  "let t = \<lparr>fd_type = TypeTable, fd_num = 1\<rparr>; cs = [Cmd_store t ''ab'', Cmd_load t, Cmd_remove t, Cmd_load t] in
   fst (store_run (store_step mem_store mem_load mem_Remove mem_Rename) (map (map_store_cmd text_bytes) cs) NewMemStorage) =
    map (answer_map text_bytes) (fst (store_run (store_step fs_store fs_load fs_Remove (fs_Rename unix)) cs empty_storage))"
  unfolding Let_def
proof (rule storages_agree [OF empty_storage_ready mem_idle_new])
  show "mem_view NewMemStorage = view_map text_bytes (fs_view empty_storage)"
    by (simp add: fun_eq_iff mem_view_def view_map_def fs_view_def NewMemStorage_def empty_storage_def)
qed (simp add: fd_good_def FileDescOk_def fd_int64_def file_type_defs)

end
